(* ===== verification/Prelude.thy ===== *)
theory Prelude
  imports Main "HOL-Library.Word" "HOL-Library.List_Lexorder"
begin

text \<open>
  Shared vocabulary of the development.

  \<^item> \<open>bytes\<close>, the Python \<^verbatim>\<open>bytes\<close> type: a list of 8-bit words. Python compares \<^verbatim>\<open>bytes\<close>
    lexicographically by unsigned byte with a proper prefix being smaller, which is the order
    \<open>HOL-Library.List_Lexorder\<close> puts on lists.
  \<^item> \<open>py_error\<close>, one constructor per exception the engine raises or lets escape.
  \<^item> \<open>result\<close> (\<open>py_error + 'a\<close>) for pure code that may raise and \<open>('s, 'a) op\<close> for
    methods that read and write the state \<open>'s\<close> and may raise; an exception keeps the state
    changes made before it, as in Python.
  \<^item> Python list primitives: slices, py_slice assignment, \<^verbatim>\<open>bisect\<close>, and little-endian integers.
  \<^item> The lemma collections \<open>op_simps\<close> (evaluation of the two monads) and \<open>len_simps\<close> (lengths
    of encodings).
\<close>

named_theorems op_simps
named_theorems len_simps
named_theorems keeps_rules

type_synonym byte = "8 word"
type_synonym bytes = "8 word list"

section \<open>Exceptions\<close>

datatype py_error =
    DBClosedError
  | DBCorruptedError string
  | DBChecksumError nat nat
  | DBRecordTooLargeError int int
  | DBConcurrentPageModificationError
  | DBBufferPoolOverflowError
  | StructError
  | ValueError
  | EOFError
  | AssertionError
  | KeyError
  | IndexError
  | TypeError
  | ZeroDivisionError
  | OSError int
  | SystemExit nat
  | OutOfFuel

text \<open>
  \<open>OutOfFuel\<close> is not a Python exception: it is the outcome of a loop of the model whose bound is
  exhausted. Every theorem that says an operation returns rules it out.
\<close>

section \<open>Pure code that may raise\<close>

type_synonym 'a result = "py_error + 'a"

definition bind_r :: "'a result \<Rightarrow> ('a \<Rightarrow> 'b result) \<Rightarrow> 'b result" where
  "bind_r r f = (case r of Inl e \<Rightarrow> Inl e | Inr a \<Rightarrow> f a)"

definition guard_r :: "bool \<Rightarrow> py_error \<Rightarrow> unit result" where
  "guard_r b e = (if b then Inr () else Inl e)"

lemma bind_r_simps [simp]:
  "bind_r (Inl e) f = Inl e"
  "bind_r (Inr a) f = f a"
  by (simp_all add: bind_r_def)

lemma guard_r_simps [simp]:
  "guard_r True e = Inr ()"
  "guard_r False e = Inl e"
  by (simp_all add: guard_r_def)

lemma bind_r_eq_Inr: "bind_r r f = Inr b \<longleftrightarrow> (\<exists>a. r = Inr a \<and> f a = Inr b)"
  by (cases r) auto

lemma guard_r_eq_Inr [simp]: "guard_r b e = Inr u \<longleftrightarrow> b"
  by (simp add: guard_r_def)

section \<open>Stateful code that may raise\<close>

type_synonym ('s, 'a) op = "'s \<Rightarrow> 'a result \<times> 's"

definition ret :: "'a \<Rightarrow> ('s, 'a) op" where
  "ret a s = (Inr a, s)"

definition raise :: "py_error \<Rightarrow> ('s, 'a) op" where
  "raise e s = (Inl e, s)"

definition bind_op :: "('s, 'a) op \<Rightarrow> ('a \<Rightarrow> ('s, 'b) op) \<Rightarrow> ('s, 'b) op" where
  "bind_op m f s = (case m s of (Inl e, s') \<Rightarrow> (Inl e, s') | (Inr a, s') \<Rightarrow> f a s')"

definition seq_op :: "('s, 'a) op \<Rightarrow> ('s, 'b) op \<Rightarrow> ('s, 'b) op" where
  "seq_op m n = bind_op m (\<lambda>_. n)"

definition assert_op :: "bool \<Rightarrow> ('s, unit) op" where
  "assert_op b s = (if b then Inr () else Inl AssertionError, s)"

definition gets_op :: "('s \<Rightarrow> 'a) \<Rightarrow> ('s, 'a) op" where
  "gets_op f s = (Inr (f s), s)"

definition modify_op :: "('s \<Rightarrow> 's) \<Rightarrow> ('s, unit) op" where
  "modify_op f s = (Inr (), f s)"

definition lift_r :: "'a result \<Rightarrow> ('s, 'a) op" where
  "lift_r r s = (r, s)"

text \<open>\<^verbatim>\<open>try: m finally: f\<close> and \<^verbatim>\<open>try: m except Exception: h; raise\<close>.\<close>

definition finally_op :: "('s, 'a) op \<Rightarrow> ('s, unit) op \<Rightarrow> ('s, 'a) op" where
  "finally_op m f s = (case m s of (r, s') \<Rightarrow>
     case f s' of (Inl e, s'') \<Rightarrow> (Inl e, s'') | (Inr _, s'') \<Rightarrow> (r, s''))"

definition on_error :: "('s, 'a) op \<Rightarrow> ('s, unit) op \<Rightarrow> ('s, 'a) op" where
  "on_error m h s = (case m s of
     (Inl e, s') \<Rightarrow> (case h s' of (Inl e', s'') \<Rightarrow> (Inl e', s'') | (Inr _, s'') \<Rightarrow> (Inl e, s''))
   | (Inr a, s') \<Rightarrow> (Inr a, s'))"

text \<open>
  The \<^verbatim>\<open>with\<close> statement: \<^verbatim>\<open>__exit__\<close> runs however the block ends; it may raise, and says whether an exception of the
  block is suppressed.
\<close>

definition with_op :: "('s, unit) op \<Rightarrow> ('s, bool) op \<Rightarrow> ('s, unit) op \<Rightarrow> ('s, unit) op" where
  "with_op enter_op exit_op body =
     bind_op enter_op (\<lambda>_ s. case body s of (r, s') \<Rightarrow>
       case exit_op s' of (Inl e, s'') \<Rightarrow> (Inl e, s'') | (Inr suppressed, s'') \<Rightarrow> (if suppressed then Inr () else r, s''))"

lemma ret_eval [simp]: "ret a s = (Inr a, s)"
  by (simp add: ret_def)

lemma raise_eval [simp]: "raise e s = (Inl e, s)"
  by (simp add: raise_def)

lemma gets_eval [simp]: "gets_op g s = (Inr (g s), s)"
  by (simp add: gets_op_def)

lemma modify_eval [simp]: "modify_op h s = (Inr (), h s)"
  by (simp add: modify_op_def)

lemma lift_eval [simp]: "lift_r r s = (r, s)"
  by (simp add: lift_r_def)

lemma assert_eval [simp]:
  "assert_op True s = (Inr (), s)" "assert_op False s = (Inl AssertionError, s)"
  by (simp_all add: assert_op_def)

lemma bind_op_Inr: "m s = (Inr a, s') \<Longrightarrow> bind_op m f s = f a s'"
  by (simp add: bind_op_def)

lemma bind_op_Inl: "m s = (Inl e, s') \<Longrightarrow> bind_op m f s = (Inl e, s')"
  by (simp add: bind_op_def)

lemma bind_ret [simp]: "bind_op (ret a) f s = f a s"
  by (simp add: bind_op_def)

lemma bind_raise [simp]: "bind_op (raise e) f s = (Inl e, s)"
  by (simp add: bind_op_def)

lemma bind_gets [simp]: "bind_op (gets_op g) f s = f (g s) s"
  by (simp add: bind_op_def)

lemma bind_modify [simp]: "bind_op (modify_op h) f s = f () (h s)"
  by (simp add: bind_op_def)

lemma bind_op_assert [simp]:
  "bind_op (assert_op b) f s = (if b then f () s else (Inl AssertionError, s))"
  by (simp add: bind_op_def assert_op_def)

lemma bind_op_lift [simp]:
  "bind_op (lift_r r) f s = (case r of Inl e \<Rightarrow> (Inl e, s) | Inr a \<Rightarrow> f a s)"
  by (cases r) (simp_all add: bind_op_def)

lemma bind_op_eq_Inr:
  "bind_op m f s = (Inr b, s'') \<longleftrightarrow> (\<exists>a s'. m s = (Inr a, s') \<and> f a s' = (Inr b, s''))"
  by (auto simp: bind_op_def split: prod.splits sum.splits)

lemma bind_op_assoc: "bind_op (bind_op m f) g = bind_op m (\<lambda>a. bind_op (f a) g)"
  by (rule ext) (auto simp: bind_op_def split: prod.splits sum.splits)

section \<open>Properties of the state an operation keeps\<close>

text \<open>
  \<open>keeps P f\<close>: the operation \<open>f\<close> takes states with \<open>P\<close> to states with \<open>P\<close>, whether it returns or raises. The
  rules follow the structure of an operation, so \<open>intro keeps_rules\<close> reduces the claim to its steps.
\<close>

definition keeps :: "('s \<Rightarrow> bool) \<Rightarrow> ('s, 'a) op \<Rightarrow> bool" where
  "keeps P f \<longleftrightarrow> (\<forall>s. P s \<longrightarrow> P (snd (f s)))"

lemma keepsD: "keeps P f \<Longrightarrow> f s = (r, s') \<Longrightarrow> P s \<Longrightarrow> P s'"
  unfolding keeps_def by (metis snd_conv)

lemma keeps_basic [keeps_rules]:
  "keeps P (ret a)" "keeps P (raise e)" "keeps P (gets_op g)" "keeps P (lift_r r)" "keeps P (assert_op b)"
  by (simp_all add: keeps_def assert_op_def)

lemma keeps_modify: "(\<And>s. P s \<Longrightarrow> P (f s)) \<Longrightarrow> keeps P (modify_op f)"
  by (simp add: keeps_def)

lemma keeps_bind [keeps_rules]: "keeps P m \<Longrightarrow> (\<And>a. keeps P (f a)) \<Longrightarrow> keeps P (bind_op m f)"
  by (auto simp: keeps_def bind_op_def split: prod.split sum.split)

lemma keeps_cases [keeps_rules]:
  "(b \<Longrightarrow> keeps P f) \<Longrightarrow> (\<not> b \<Longrightarrow> keeps P g) \<Longrightarrow> keeps P (if b then f else g)"
  "keeps P f0 \<Longrightarrow> (\<And>x. keeps P (f1 x)) \<Longrightarrow> keeps P (case o1 of None \<Rightarrow> f0 | Some x \<Rightarrow> f1 x)"
  "(\<And>x y. keeps P (f2 x y)) \<Longrightarrow> keeps P (case xy of (x, y) \<Rightarrow> f2 x y)"
  "(\<And>x. keeps P (f3 x)) \<Longrightarrow> keeps P (Let v f3)"
  by (auto split: option.split prod.split)

section \<open>Lists related position by position\<close>

lemma list_all2_concat_split:
  assumes "list_all2 (\<lambda>xs ys. length xs = length ys) xss yss" and "list_all2 P (concat xss) (concat yss)"
  shows "list_all2 (list_all2 P) xss yss"
  using assms by (induction xss yss) (auto simp: list_all2_append)

lemma list_all2_last: "list_all2 P xs ys \<Longrightarrow> xs \<noteq> [] \<Longrightarrow> P (last xs) (last ys)"
  by (induction rule: list_all2_induct) auto

section \<open>Python slices\<close>

text \<open>\<open>py_slice lo hi xs\<close> is \<^verbatim>\<open>xs[lo:hi]\<close> for non-negative bounds; out-of-range bounds are clamped.\<close>

definition py_slice :: "nat \<Rightarrow> nat \<Rightarrow> 'a list \<Rightarrow> 'a list" where
  "py_slice lo hi xs = take (hi - lo) (drop lo xs)"

text \<open>
  \<open>slice_assign lo hi new xs\<close> is \<^verbatim>\<open>xs[lo:hi] = new\<close> with \<open>lo \<le> hi\<close>: the replaced range is clamped to
  the list, so a range beyond the end appends.
\<close>

definition slice_assign :: "nat \<Rightarrow> nat \<Rightarrow> 'a list \<Rightarrow> 'a list \<Rightarrow> 'a list" where
  "slice_assign lo hi new xs = take lo xs @ new @ drop hi xs"

lemma slice_append_exact:
  "py_slice (length xs) (length xs + length ys) (xs @ ys @ zs) = ys"
  by (simp add: py_slice_def)

lemma slice_exact: "lo = length xs \<Longrightarrow> hi = lo + length ys \<Longrightarrow> py_slice lo hi (xs @ ys @ zs) = ys"
  using slice_append_exact by blast

lemma length_slice: "length (py_slice lo hi xs) = min (hi - lo) (length xs - lo)"
  by (simp add: py_slice_def)

lemma length_slice_assign [len_simps]:
  "lo + length new = hi \<Longrightarrow> hi \<le> length xs \<Longrightarrow> length (slice_assign lo hi new xs) = length xs"
  by (simp add: slice_assign_def)

section \<open>Little-endian integers\<close>

fun le_enc :: "nat \<Rightarrow> nat \<Rightarrow> bytes" where
  "le_enc 0 v = []"
| "le_enc (Suc n) v = word_of_nat v # le_enc n (v div 256)"

fun le_dec :: "bytes \<Rightarrow> nat" where
  "le_dec [] = 0"
| "le_dec (b # bs) = unat b + 256 * le_dec bs"

lemma length_le_enc [simp]: "length (le_enc n v) = n"
  by (induction n arbitrary: v) auto

lemma unat_word_of_nat_byte: "unat (word_of_nat v :: byte) = v mod 256"
  by (simp add: unat_of_nat)

lemma le_dec_enc: "v < 256 ^ n \<Longrightarrow> le_dec (le_enc n v) = v"
proof (induction n arbitrary: v)
  case 0
  then show ?case by simp
next
  case (Suc n)
  then have "v div 256 < 256 ^ n"
    by (simp add: less_mult_imp_div_less mult.commute)
  then have "le_dec (le_enc n (v div 256)) = v div 256" by (rule Suc.IH)
  then show ?case by (simp add: unat_word_of_nat_byte)
qed

lemma le_dec_bound: "le_dec bs < 256 ^ length bs"
proof (induction bs)
  case Nil
  then show ?case by simp
next
  case (Cons b bs)
  have "unat b < 256" using unsigned_less [of b] by simp
  with Cons show ?case by simp
qed

lemma le_enc_dec: "le_enc (length bs) (le_dec bs) = bs"
proof (induction bs)
  case Nil
  then show ?case by simp
next
  case (Cons b bs)
  have b: "unat b < 256" using unsigned_less [of b] by simp
  have "word_of_nat (unat b + 256 * le_dec bs) = b"
  proof (rule word_unat_eq_iff [THEN iffD2])
    show "unat (word_of_nat (unat b + 256 * le_dec bs) :: byte) = unat b"
      using b by (simp only: unat_word_of_nat_byte) simp
  qed
  moreover have "(unat b + 256 * le_dec bs) div 256 = le_dec bs" using b by simp
  ultimately show ?case using Cons by simp
qed

lemma le_dec_inj: "length xs = length ys \<Longrightarrow> le_dec xs = le_dec ys \<Longrightarrow> xs = ys"
  by (metis le_enc_dec)

declare le_enc.simps [simp del]

section \<open>The bisect module\<close>

text \<open>
  The binary searches of Python's \<^verbatim>\<open>bisect\<close> on the keys of a list: \<open>bisect_left\<close> and
  \<open>bisect_right\<close> with the search window \<open>[lo, hi)\<close>, started on the whole list.
\<close>

function bisect_left_loop :: "'k::linorder list \<Rightarrow> 'k \<Rightarrow> nat \<Rightarrow> nat \<Rightarrow> nat" where
  "bisect_left_loop ks x lo hi =
     (if lo < hi then
        (let mid = (lo + hi) div 2
         in if ks ! mid < x then bisect_left_loop ks x (mid + 1) hi
            else bisect_left_loop ks x lo mid)
      else lo)"
  by pat_completeness auto
termination
  by (relation "measure (\<lambda>(ks, x, lo, hi). hi - lo)") auto

function bisect_right_loop :: "'k::linorder list \<Rightarrow> 'k \<Rightarrow> nat \<Rightarrow> nat \<Rightarrow> nat" where
  "bisect_right_loop ks x lo hi =
     (if lo < hi then
        (let mid = (lo + hi) div 2
         in if x < ks ! mid then bisect_right_loop ks x lo mid
            else bisect_right_loop ks x (mid + 1) hi)
      else lo)"
  by pat_completeness auto
termination
  by (relation "measure (\<lambda>(ks, x, lo, hi). hi - lo)") auto

declare bisect_left_loop.simps [simp del] bisect_right_loop.simps [simp del]

definition bisect_left :: "'k::linorder list \<Rightarrow> 'k \<Rightarrow> nat" where
  "bisect_left ks x = bisect_left_loop ks x 0 (length ks)"

definition bisect_right :: "'k::linorder list \<Rightarrow> 'k \<Rightarrow> nat" where
  "bisect_right ks x = bisect_right_loop ks x 0 (length ks)"

text \<open>\<^verbatim>\<open>bisect.insort(a, x, key=...)\<close>: insert to the right of equal keys.\<close>

definition insort_by :: "('a \<Rightarrow> 'k::linorder) \<Rightarrow> 'a list \<Rightarrow> 'a \<Rightarrow> 'a list" where
  "insort_by key xs x =
     (let i = bisect_right (map key xs) (key x) in take i xs @ x # drop i xs)"

text \<open>
  A position is the partition point of a test when the test holds for exactly the elements before
  it. On a sorted list both loops close in on the partition point of their test.
\<close>

definition partition_at :: "('k \<Rightarrow> bool) \<Rightarrow> 'k list \<Rightarrow> nat \<Rightarrow> nat \<Rightarrow> bool" where
  "partition_at P ks lo hi \<longleftrightarrow> lo \<le> hi \<and> hi \<le> length ks \<and> (\<forall>i < lo. P (ks ! i)) \<and>
     (\<forall>i. hi \<le> i \<and> i < length ks \<longrightarrow> \<not> P (ks ! i))"

lemma partition_at_takeWhile:
  assumes "partition_at P ks r r"
  shows "length (takeWhile P ks) = r"
proof (rule antisym)
  show "length (takeWhile P ks) \<le> r"
  proof (rule ccontr)
    assume "\<not> length (takeWhile P ks) \<le> r"
    then have *: "r < length (takeWhile P ks)" by simp
    then have "P (takeWhile P ks ! r)" by (meson nth_mem set_takeWhileD)
    moreover have "r < length ks" using * length_takeWhile_le [of P ks] by simp
    ultimately show False using assms * by (auto simp: partition_at_def takeWhile_nth)
  qed
  show "r \<le> length (takeWhile P ks)"
    using assms by (intro length_takeWhile_less_P_nth) (auto simp: partition_at_def)
qed

lemma partition_at_raise:
  assumes "sorted ks" and "partition_at P ks lo hi" and "mid < hi" and "P (ks ! mid)"
    and mono: "\<And>a b. a \<le> b \<Longrightarrow> P b \<Longrightarrow> P a"
  shows "partition_at P ks (mid + 1) hi"
proof -
  have "P (ks ! i)" if "i < mid + 1" for i
    using that assms mono [of "ks ! i" "ks ! mid"]
    by (auto simp: partition_at_def less_Suc_eq_le sorted_nth_mono)
  with assms show ?thesis by (auto simp: partition_at_def)
qed

lemma partition_at_lower:
  assumes "sorted ks" and "partition_at P ks lo hi" and "lo \<le> mid" "mid < hi" and "\<not> P (ks ! mid)"
    and mono: "\<And>a b. a \<le> b \<Longrightarrow> P b \<Longrightarrow> P a"
  shows "partition_at P ks lo mid"
proof -
  have "\<not> P (ks ! i)" if "mid \<le> i" "i < length ks" for i
    using that assms(1,5) mono [of "ks ! mid" "ks ! i"] by (auto simp: sorted_nth_mono)
  with assms show ?thesis by (auto simp: partition_at_def)
qed

lemma bisect_left_loop_partition:
  assumes "sorted ks" and "partition_at (\<lambda>k. k < x) ks lo hi"
  shows "partition_at (\<lambda>k. k < x) ks (bisect_left_loop ks x lo hi) (bisect_left_loop ks x lo hi)"
  using assms
proof (induction ks x lo hi rule: bisect_left_loop.induct)
  case (1 ks x lo hi)
  have mid: "lo \<le> (lo + hi) div 2" "lo < hi \<Longrightarrow> (lo + hi) div 2 < hi"
    using 1(4) by (auto simp: partition_at_def)
  show ?case
  proof (cases "lo < hi")
    case False
    with 1(4) have "lo = hi" by (simp add: partition_at_def)
    with 1(4) show ?thesis by (subst (1 2) bisect_left_loop.simps) simp
  next
    case True
    show ?thesis
    proof (cases "ks ! ((lo + hi) div 2) < x")
      case less: True
      have "partition_at (\<lambda>k. k < x) ks ((lo + hi) div 2 + 1) hi"
        by (rule partition_at_raise [OF 1(3,4) mid(2) [OF True]]) (use less in auto)
      with 1(1) [OF True refl less 1(3)] True less show ?thesis
        by (simp add: bisect_left_loop.simps [of ks x lo hi])
    next
      case nless: False
      have "partition_at (\<lambda>k. k < x) ks lo ((lo + hi) div 2)"
        using 1(3,4) mid True nless by (auto intro: partition_at_lower [where hi = hi])
      with 1(2) [OF True refl nless 1(3)] True nless show ?thesis
        by (simp add: bisect_left_loop.simps [of ks x lo hi])
    qed
  qed
qed

lemma bisect_right_loop_partition:
  assumes "sorted ks" and "partition_at (\<lambda>k. k \<le> x) ks lo hi"
  shows "partition_at (\<lambda>k. k \<le> x) ks (bisect_right_loop ks x lo hi) (bisect_right_loop ks x lo hi)"
  using assms
proof (induction ks x lo hi rule: bisect_right_loop.induct)
  case (1 ks x lo hi)
  have mid: "lo \<le> (lo + hi) div 2" "lo < hi \<Longrightarrow> (lo + hi) div 2 < hi"
    using 1(4) by (auto simp: partition_at_def)
  show ?case
  proof (cases "lo < hi")
    case False
    with 1(4) have "lo = hi" by (simp add: partition_at_def)
    with 1(4) show ?thesis by (subst (1 2) bisect_right_loop.simps) simp
  next
    case True
    show ?thesis
    proof (cases "x < ks ! ((lo + hi) div 2)")
      case less: True
      have "partition_at (\<lambda>k. k \<le> x) ks lo ((lo + hi) div 2)"
        using 1(3,4) mid True less by (auto intro: partition_at_lower [where hi = hi])
      with 1(1) [OF True refl less 1(3)] True less show ?thesis
        by (simp add: bisect_right_loop.simps [of ks x lo hi])
    next
      case nless: False
      have "partition_at (\<lambda>k. k \<le> x) ks ((lo + hi) div 2 + 1) hi"
        by (rule partition_at_raise [OF 1(3,4) mid(2) [OF True]]) (use nless in auto)
      with 1(2) [OF True refl nless 1(3)] True nless show ?thesis
        by (simp add: bisect_right_loop.simps [of ks x lo hi])
    qed
  qed
qed

lemma bisect_left_takeWhile:
  assumes "sorted ks"
  shows "bisect_left ks x = length (takeWhile (\<lambda>k. k < x) ks)"
proof -
  have "partition_at (\<lambda>k. k < x) ks 0 (length ks)" by (auto simp: partition_at_def)
  from partition_at_takeWhile [OF bisect_left_loop_partition [OF assms this]]
  show ?thesis by (simp add: bisect_left_def)
qed

lemma bisect_right_takeWhile:
  assumes "sorted ks"
  shows "bisect_right ks x = length (takeWhile (\<lambda>k. k \<le> x) ks)"
proof -
  have "partition_at (\<lambda>k. k \<le> x) ks 0 (length ks)" by (auto simp: partition_at_def)
  from partition_at_takeWhile [OF bisect_right_loop_partition [OF assms this]]
  show ?thesis by (simp add: bisect_right_def)
qed

end
