(* ===== verification/Entities.thy ===== *)
theory Entities
  imports Prelude
begin

text \<open>
  The domain entities of \<^verbatim>\<open>src/bptreedb/entities.py\<close>: WAL records, the meta page and the three kinds
  of data page. A dataclass with one shape is a datatype with named selectors; the meta page, whose
  fields are assigned one by one through \<^verbatim>\<open>update_meta\<close>, is a record. The union
  \<^verbatim>\<open>LeafPage | InternalPage\<close>, the pages the buffer pool and the tree work on, is the type \<open>node\<close>; the
  codec's union with \<^verbatim>\<open>FreelistPage\<close> is the type \<open>page\<close>. Page identifiers, LSNs and sizes are
  non-negative Python integers, modelled as \<open>nat\<close>; the codec bounds them when it packs them. The
  \<^verbatim>\<open>copy\<close> methods (deep copies) are the identity on values.
\<close>

datatype wal_record =
    WALPutRecord (lsn: nat) (rec_key: bytes) (rec_value: bytes)
  | WALDeleteRecord (lsn: nat) (rec_key: bytes)
  | WALCheckpointRecord (lsn: nat) (rec_root_page_id: nat) (rec_freelist_head: nat)
      (rec_next_page_id: nat)

record meta_page =
  page_size_bytes :: nat
  root_page_id :: nat
  next_page_id :: nat
  freelist_head_page_id :: nat
  last_checkpoint_lsn :: nat

datatype internal_slot = InternalSlot (ikey: bytes) (child_page_id: nat)

datatype leaf_slot = LeafSlot (lkey: bytes) (lvalue: bytes)

datatype node =
    is_InternalPage: InternalPage (last_modified_lsn: nat) (leftmost_child_page_id: nat) (islots: "internal_slot list")
  | is_LeafPage: LeafPage (last_modified_lsn: nat) (right_sibling_page_id: nat) (lslots: "leaf_slot list")

datatype freelist_page =
  FreelistPage (fl_last_modified_lsn: nat) (next_freelist_page_id: nat) (freed_page_ids: "nat list")

datatype page = Node node | Freelist freelist_page

text \<open>The key/value pair held by a leaf slot, as the tree's contents are stated.\<close>

definition kv :: "leaf_slot \<Rightarrow> bytes \<times> bytes" where
  "kv s = (lkey s, lvalue s)"

lemma kv_simps [simp]: "kv (LeafSlot k v) = (k, v)" "fst (kv s) = lkey s" "snd (kv s) = lvalue s"
  by (simp_all add: kv_def)

text \<open>Assigning \<^verbatim>\<open>last_modified_lsn\<close> on a node object.\<close>

fun set_lsn :: "nat \<Rightarrow> node \<Rightarrow> node" where
  "set_lsn l (InternalPage _ c ss) = InternalPage l c ss"
| "set_lsn l (LeafPage _ r ss) = LeafPage l r ss"

lemma set_lsn_sel [simp]:
  "last_modified_lsn (set_lsn l n) = l"
  "is_LeafPage (set_lsn l n) = is_LeafPage n"
  "is_InternalPage (set_lsn l n) = is_InternalPage n"
  by (cases n; simp)+

end
