(* ===== verification/Buffers.thy ===== *)
theory Buffers
  imports Entities
begin

unbundle bit_operations_syntax

text \<open>
  The byte-level half of \<^verbatim>\<open>src/bptreedb/codec.py\<close>: the \<^verbatim>\<open>struct\<close> formats it uses, the
  \<^verbatim>\<open>BufferReader\<close> and \<^verbatim>\<open>BufferWriter\<close> cursors, \<^verbatim>\<open>zlib.crc32\<close> and \<^verbatim>\<open>verify_crc32\<close>.

  A \<^verbatim>\<open>Struct\<close> is a list of fields in little-endian layout without padding. Packing raises
  \<^verbatim>\<open>struct.error\<close> on a value out of range, unpacking on a buffer that is too short. CRC-32 is the
  reflected polynomial \<open>0xEDB88320\<close>, computed bit by bit; the lemmas at the end show that each step
  is injective, hence that changing one byte of a buffer always changes its checksum.
\<close>

section \<open>The struct module\<close>

datatype struct_field = U8 | U32 | U64 | Raw nat
datatype struct_val = VInt nat | VBytes bytes

type_synonym struct = "struct_field list"

fun field_size :: "struct_field \<Rightarrow> nat" where
  "field_size U8 = 1"
| "field_size U32 = 4"
| "field_size U64 = 8"
| "field_size (Raw n) = n"

definition struct_size :: "struct \<Rightarrow> nat" where
  "struct_size st = sum_list (map field_size st)"

fun field_ok :: "struct_field \<Rightarrow> struct_val \<Rightarrow> bool" where
  "field_ok (Raw n) v = (case v of VBytes _ \<Rightarrow> True | VInt _ \<Rightarrow> False)"
| "field_ok f v = (case v of VInt i \<Rightarrow> i < 256 ^ field_size f | VBytes _ \<Rightarrow> False)"

fun pack_field :: "struct_field \<Rightarrow> struct_val \<Rightarrow> bytes" where
  "pack_field f (VInt i) = le_enc (field_size f) i"
| "pack_field f (VBytes b) = take (field_size f) (b @ replicate (field_size f) 0)"

fun unpack_field :: "struct_field \<Rightarrow> bytes \<Rightarrow> struct_val" where
  "unpack_field (Raw n) b = VBytes b"
| "unpack_field f b = VInt (le_dec b)"

definition pack :: "struct \<Rightarrow> struct_val list \<Rightarrow> bytes result" where
  "pack st vs = (if list_all2 field_ok st vs then Inr (concat (map2 pack_field st vs))
                 else Inl StructError)"

fun unpack_fields :: "struct \<Rightarrow> bytes \<Rightarrow> struct_val list" where
  "unpack_fields [] b = []"
| "unpack_fields (f # fs) b =
     unpack_field f (take (field_size f) b) # unpack_fields fs (drop (field_size f) b)"

text \<open>\<^verbatim>\<open>Struct.unpack\<close> wants exactly the right number of bytes, \<^verbatim>\<open>Struct.unpack_from\<close> at least that many.\<close>

definition unpack :: "struct \<Rightarrow> bytes \<Rightarrow> struct_val list result" where
  "unpack st b = (if length b = struct_size st then Inr (unpack_fields st b) else Inl StructError)"

definition unpack_from :: "struct \<Rightarrow> bytes \<Rightarrow> nat \<Rightarrow> struct_val list result" where
  "unpack_from st b off =
     (if off + struct_size st \<le> length b then Inr (unpack_fields st (drop off b)) else Inl StructError)"

definition UINT32_FIELD :: struct where "UINT32_FIELD = [U32]"
definition UINT64_FIELD :: struct where "UINT64_FIELD = [U64]"
definition LENGTH_FIELD :: struct where "LENGTH_FIELD = UINT32_FIELD"
definition CRC32_FIELD :: struct where "CRC32_FIELD = UINT32_FIELD"
definition PAGE_ID_FIELD :: struct where "PAGE_ID_FIELD = UINT64_FIELD"
definition WAL_RECORD_HEADER :: struct where "WAL_RECORD_HEADER = [U64, U8]"
definition META_PAGE_NO_CRC :: struct where
  "META_PAGE_NO_CRC = [Raw 8, U32, U32, U64, U64, U64, U64]"
definition PAGE_HEADER :: struct where "PAGE_HEADER = [U8, Raw 3, U32, U32, U32, U64, U64]"
definition SLOT_ENTRY :: struct where "SLOT_ENTRY = [U32, U32]"

lemmas struct_defs = UINT32_FIELD_def UINT64_FIELD_def LENGTH_FIELD_def CRC32_FIELD_def
  PAGE_ID_FIELD_def WAL_RECORD_HEADER_def META_PAGE_NO_CRC_def PAGE_HEADER_def SLOT_ENTRY_def

text \<open>The first element of an unpacked tuple, as an integer: \<^verbatim>\<open>read_struct(...)[0]\<close>.\<close>

fun first_int :: "struct_val list \<Rightarrow> nat result" where
  "first_int (VInt i # _) = Inr i"
| "first_int _ = Inl IndexError"

section \<open>zlib.crc32\<close>

definition crc_bit :: "32 word \<Rightarrow> 32 word" where
  "crc_bit c = (if bit c 0 then drop_bit 1 c XOR 0xEDB88320 else drop_bit 1 c)"

definition crc_byte :: "32 word \<Rightarrow> byte \<Rightarrow> 32 word" where
  "crc_byte c b = (crc_bit ^^ 8) (c XOR ucast b)"

definition crc32 :: "bytes \<Rightarrow> nat" where
  "crc32 data = unat (foldl crc_byte 0xFFFFFFFF data XOR 0xFFFFFFFF)"

section \<open>BufferReader\<close>

record buffer_reader =
  rd_data :: bytes
  rd_offset :: nat

definition BufferReader :: "bytes \<Rightarrow> buffer_reader" where
  "BufferReader data = \<lparr>rd_data = data, rd_offset = 0\<rparr>"

definition read_struct :: "struct \<Rightarrow> (buffer_reader, struct_val list) op" where
  "read_struct st =
     bind_op (gets_op id) (\<lambda>r.
     bind_op (lift_r (unpack_from st (rd_data r) (rd_offset r))) (\<lambda>value.
     bind_op (modify_op (\<lambda>r. r\<lparr>rd_offset := rd_offset r + struct_size st\<rparr>)) (\<lambda>_.
     ret value)))"

definition read_bytes :: "nat \<Rightarrow> (buffer_reader, bytes) op" where
  "read_bytes len =
     bind_op (gets_op (\<lambda>r. py_slice (rd_offset r) (rd_offset r + len) (rd_data r))) (\<lambda>value.
     bind_op (modify_op (\<lambda>r. r\<lparr>rd_offset := rd_offset r + len\<rparr>)) (\<lambda>_.
     ret value))"

definition read_length_prefixed_bytes :: "struct \<Rightarrow> (buffer_reader, bytes) op" where
  "read_length_prefixed_bytes length_spec =
     bind_op (read_struct length_spec) (\<lambda>vs.
     bind_op (lift_r (first_int vs)) (\<lambda>len. read_bytes len))"

section \<open>BufferWriter\<close>

record buffer_writer =
  wr_buffer :: bytes

definition BufferWriter :: buffer_writer where
  "BufferWriter = \<lparr>wr_buffer = []\<rparr>"

text \<open>
  \<^verbatim>\<open>write_struct\<close> first extends the buffer with zeros and then packs in place, so a
  \<^verbatim>\<open>struct.error\<close> leaves the zeros behind.
\<close>

definition write_struct :: "struct \<Rightarrow> struct_val list \<Rightarrow> (buffer_writer, unit) op" where
  "write_struct st vs w =
     (let w' = w\<lparr>wr_buffer := wr_buffer w @ replicate (struct_size st) 0\<rparr>
      in case pack st vs of
           Inl e \<Rightarrow> (Inl e, w')
         | Inr b \<Rightarrow> (Inr (), w'\<lparr>wr_buffer :=
             slice_assign (length (wr_buffer w)) (length (wr_buffer w) + struct_size st) b
               (wr_buffer w')\<rparr>))"

definition write_bytes :: "bytes \<Rightarrow> (buffer_writer, unit) op" where
  "write_bytes v = modify_op (\<lambda>w. w\<lparr>wr_buffer := wr_buffer w @ v\<rparr>)"

definition write_length_prefixed_bytes :: "bytes \<Rightarrow> struct \<Rightarrow> (buffer_writer, unit) op" where
  "write_length_prefixed_bytes v length_spec =
     bind_op (write_struct length_spec [VInt (length v)]) (\<lambda>_. write_bytes v)"

definition writer_crc32 :: "buffer_writer \<Rightarrow> nat" where
  "writer_crc32 w = crc32 (wr_buffer w)"

definition write_crc32 :: "(buffer_writer, unit) op" where
  "write_crc32 = bind_op (gets_op writer_crc32) (\<lambda>c. write_struct CRC32_FIELD [VInt c])"

definition tell :: "buffer_writer \<Rightarrow> nat" where
  "tell w = length (wr_buffer w)"

definition build :: "buffer_writer \<Rightarrow> bytes" where
  "build w = wr_buffer w"

text \<open>\<^verbatim>\<open>bytes(writer)\<close> and \<^verbatim>\<open>len(writer)\<close>.\<close>

definition writer_bytes :: "buffer_writer \<Rightarrow> bytes" where
  "writer_bytes w = build w"

definition writer_len :: "buffer_writer \<Rightarrow> nat" where
  "writer_len w = length (wr_buffer w)"

text \<open>Running writer code on a fresh \<^verbatim>\<open>BufferWriter()\<close>, and reader code on a fresh \<^verbatim>\<open>BufferReader(data)\<close>.\<close>

definition run_writer :: "(buffer_writer, unit) op \<Rightarrow> buffer_writer result" where
  "run_writer m = (case m BufferWriter of (Inl e, _) \<Rightarrow> Inl e | (Inr _, w) \<Rightarrow> Inr w)"

definition run_reader :: "(buffer_reader, 'a) op \<Rightarrow> bytes \<Rightarrow> 'a result" where
  "run_reader m data = fst (m (BufferReader data))"

section \<open>verify\_crc32\<close>

definition verify_crc32 :: "bytes \<Rightarrow> unit result" where
  "verify_crc32 data =
     (let body = take (length data - struct_size CRC32_FIELD) data;
          tail = drop (length data - struct_size CRC32_FIELD) data;
          actual_crc32 = crc32 body
      in bind_r (unpack CRC32_FIELD tail) (\<lambda>vs.
         bind_r (first_int vs) (\<lambda>expected_crc32.
         guard_r (actual_crc32 = expected_crc32) (DBChecksumError expected_crc32 actual_crc32))))"

section \<open>Laws of pack and unpack\<close>

lemma struct_size_simps [simp]:
  "struct_size [] = 0" "struct_size (f # fs) = field_size f + struct_size fs"
  by (simp_all add: struct_size_def)

lemma struct_sizes [simp]:
  "struct_size UINT32_FIELD = 4" "struct_size UINT64_FIELD = 8" "struct_size LENGTH_FIELD = 4"
  "struct_size CRC32_FIELD = 4" "struct_size PAGE_ID_FIELD = 8" "struct_size WAL_RECORD_HEADER = 9"
  "struct_size META_PAGE_NO_CRC = 48" "struct_size PAGE_HEADER = 32" "struct_size SLOT_ENTRY = 8"
  by (simp_all add: struct_defs)

text \<open>Values that survive a round trip: in range, and raw fields of exactly their declared width.\<close>

fun field_exact :: "struct_field \<Rightarrow> struct_val \<Rightarrow> bool" where
  "field_exact (Raw n) v = (case v of VBytes b \<Rightarrow> length b = n | VInt _ \<Rightarrow> False)"
| "field_exact f v = (case v of VInt i \<Rightarrow> i < 256 ^ field_size f | VBytes _ \<Rightarrow> False)"

lemma length_pack_field [simp]: "length (pack_field f v) = field_size f"
  by (cases v) simp_all

lemma unpack_pack_field: "field_exact f v \<Longrightarrow> unpack_field f (pack_field f v) = v"
  by (cases f; cases v) (simp_all add: le_dec_enc)

lemma field_exact_ok: "field_exact f v \<Longrightarrow> field_ok f v"
  by (cases f; cases v) simp_all

lemma length_pack_fields [len_simps]:
  "list_all2 P st vs \<Longrightarrow> length (concat (map2 pack_field st vs)) = struct_size st"
  by (induction rule: list_all2_induct) simp_all

lemma unpack_pack_fields:
  "list_all2 field_exact st vs \<Longrightarrow>
     unpack_fields st (concat (map2 pack_field st vs) @ rest) = vs"
proof (induction st vs rule: list_all2_induct)
  case Nil
  then show ?case by simp
next
  case (Cons f st v vs)
  then show ?case by (simp add: unpack_pack_field)
qed

lemma pack_exact:
  assumes "list_all2 field_exact st vs"
  shows "pack st vs = Inr (concat (map2 pack_field st vs))"
  using assms list_all2_mono [of field_exact st vs field_ok] by (simp add: pack_def field_exact_ok)

lemma pack_Inr: "pack st vs = Inr b \<Longrightarrow> length b = struct_size st"
  by (auto simp: pack_def length_pack_fields split: if_splits)

lemma pack_error: "pack st vs = Inl e \<Longrightarrow> e = StructError"
  by (auto simp: pack_def split: if_splits)

lemma unpack_from_pack:
  assumes "list_all2 field_exact st vs" and "pack st vs = Inr b" and "off = length pre"
  shows "unpack_from st (pre @ b @ rest) off = Inr vs"
proof -
  have b: "b = concat (map2 pack_field st vs)"
    using assms by (simp add: pack_exact)
  have "length b = struct_size st" using assms(2) by (rule pack_Inr)
  then show ?thesis
    using unpack_pack_fields [OF assms(1), of rest] assms(3)
    by (simp add: unpack_from_def b)
qed

section \<open>Laws of the cursors\<close>

lemma read_struct_eval [op_simps]:
  "read_struct st r =
     (case unpack_from st (rd_data r) (rd_offset r) of
        Inl e \<Rightarrow> (Inl e, r)
      | Inr vs \<Rightarrow> (Inr vs, r\<lparr>rd_offset := rd_offset r + struct_size st\<rparr>))"
  by (simp add: read_struct_def split: sum.split)

lemma read_bytes_eval [op_simps]:
  "read_bytes n r = (Inr (py_slice (rd_offset r) (rd_offset r + n) (rd_data r)),
                     r\<lparr>rd_offset := rd_offset r + n\<rparr>)"
  by (simp add: read_bytes_def)

lemma write_struct_ok:
  "pack st vs = Inr b \<Longrightarrow> write_struct st vs w = (Inr (), w\<lparr>wr_buffer := wr_buffer w @ b\<rparr>)"
  by (simp add: write_struct_def slice_assign_def pack_Inr)

lemma write_struct_err:
  "pack st vs = Inl e \<Longrightarrow> fst (write_struct st vs w) = Inl StructError"
  by (simp add: write_struct_def pack_error)

lemma write_bytes_eval [op_simps]:
  "write_bytes v w = (Inr (), w\<lparr>wr_buffer := wr_buffer w @ v\<rparr>)"
  by (simp add: write_bytes_def)

section \<open>CRC-32 detects every single-byte corruption\<close>

lemma xor_cancel_right: "x XOR z = y XOR z \<Longrightarrow> x = y" for x y z :: "32 word"
proof -
  assume "x XOR z = y XOR z"
  then have "(x XOR z) XOR z = (y XOR z) XOR z" by simp
  then show "x = y" by (simp add: xor.assoc)
qed

lemma xor_cancel_left: "z XOR x = z XOR y \<Longrightarrow> x = y" for x y z :: "32 word"
  using xor_cancel_right [of x z y] by (simp add: xor.commute)

lemma ucast_byte_inj: "(ucast a :: 32 word) = ucast b \<Longrightarrow> a = b" for a b :: byte
proof -
  assume eq: "(ucast a :: 32 word) = ucast b"
  have "unat (ucast x :: 32 word) = unat x" for x :: byte
    by (simp add: unsigned_ucast_eq take_bit_nat_eq_self unsigned_less [of x, THEN less_trans])
  with eq show "a = b" by (metis word_unat_eq_iff)
qed

lemma crc_bit_inj: "inj crc_bit"
proof (rule injI)
  fix a b :: "32 word"
  assume eq: "crc_bit a = crc_bit b"
  have top: "bit (crc_bit c) 31 = bit c 0" for c :: "32 word"
    by (auto simp: crc_bit_def bit_xor_iff bit_drop_bit_eq dest: bit_imp_le_length)
  then have zero: "bit a 0 = bit b 0" using eq by metis
  then have "drop_bit 1 a = drop_bit 1 b"
    using eq by (auto simp: crc_bit_def split: if_splits dest: xor_cancel_right)
  then have rest: "bit a (Suc n) = bit b (Suc n)" for n
    by (metis bit_drop_bit_eq comp_apply plus_1_eq_Suc)
  show "a = b"
  proof (rule bit_word_eqI)
    fix n assume "n < LENGTH(32)"
    show "bit a n = bit b n" using zero rest by (cases n) auto
  qed
qed

lemma crc_byte_inj_state: "inj (\<lambda>c. crc_byte c b)"
proof (rule injI)
  fix x y assume "crc_byte x b = crc_byte y b"
  moreover have "inj (crc_bit ^^ 8)" by (rule inj_fn [OF crc_bit_inj])
  ultimately have "x XOR ucast b = y XOR ucast b" by (auto simp: crc_byte_def dest: injD)
  then show "x = y" by (rule xor_cancel_right)
qed

lemma crc_byte_inj_byte: "crc_byte c a = crc_byte c b \<Longrightarrow> a = b"
proof -
  assume "crc_byte c a = crc_byte c b"
  moreover have "inj (crc_bit ^^ 8)" by (rule inj_fn [OF crc_bit_inj])
  ultimately have "c XOR ucast a = c XOR (ucast b :: 32 word)"
    by (auto simp: crc_byte_def dest: injD)
  then have "(ucast a :: 32 word) = ucast b" by (rule xor_cancel_left)
  then show "a = b" by (rule ucast_byte_inj)
qed

lemma crc_fold_inj: "foldl crc_byte c xs = foldl crc_byte d xs \<Longrightarrow> c = d"
proof (induction xs arbitrary: c d)
  case Nil
  then show ?case by simp
next
  case (Cons x xs)
  then have "crc_byte c x = crc_byte d x" by simp
  then show ?case using crc_byte_inj_state by (auto dest: injD)
qed

lemma crc32_single_byte:
  assumes "crc32 (pre @ a # post) = crc32 (pre @ b # post)"
  shows "a = b"
proof -
  let ?c = "foldl crc_byte 0xFFFFFFFF pre"
  have "foldl crc_byte (crc_byte ?c a) post = foldl crc_byte (crc_byte ?c b) post"
    using assms unfolding crc32_def foldl_append foldl_Cons
    by (metis xor_cancel_right word_unat_eq_iff)
  then have "crc_byte ?c a = crc_byte ?c b" by (rule crc_fold_inj)
  then show ?thesis by (rule crc_byte_inj_byte)
qed

lemma crc32_bound: "crc32 data < 256 ^ 4"
  using unsigned_less [of "foldl crc_byte 0xFFFFFFFF data XOR 0xFFFFFFFF"] by (simp add: crc32_def)

text \<open>Evaluation of the checksum on literal bytes by the simplifier.\<close>

lemma crc_byte_eval:
  "crc_byte c b = crc_bit (crc_bit (crc_bit (crc_bit (crc_bit (crc_bit (crc_bit (crc_bit
     (c XOR ucast b))))))))"
  by (simp add: crc_byte_def eval_nat_numeral)

lemma crc_bit_eval:
  "crc_bit 0 = 0"
  "crc_bit 1 = 0xEDB88320"
  "crc_bit (numeral w) = (if bit (numeral w :: 32 word) 0
     then drop_bit 1 (numeral w) XOR 0xEDB88320 else drop_bit 1 (numeral w))"
  by (simp_all add: crc_bit_def)

lemmas crc_eval = crc32_def crc_byte_eval crc_bit_eval

lemma crc32_Nil: "crc32 [] = 0"
  by (simp add: crc32_def)

lemma verify_crc32_append:
  assumes "length tail = 4"
  shows "verify_crc32 (body @ tail) =
    (if crc32 body = le_dec tail then Inr () else Inl (DBChecksumError (le_dec tail) (crc32 body)))"
  using assms by (simp add: verify_crc32_def unpack_def struct_defs guard_r_def)

end
