(* ===== verification/Codec.thy ===== *)
theory Codec
  imports Buffers
begin

text \<open>
  The wire formats of \<^verbatim>\<open>src/bptreedb/codec.py\<close>: WAL records, the meta page, and the slotted data
  pages, together with the size functions the tree decides splits and merges with.

  The definitions follow the source function by function. The lemmas give each format a closed form
  (\<open>wal_bytes\<close>, \<open>meta_bytes\<close>, \<open>node_bytes\<close>, \<open>freelist_bytes\<close>), show that the encoder produces it
  exactly when the entity's fields fit their fields, and that the decoder inverts it. Reader code is
  reasoned about with \<open>parses m b x\<close>: started at a buffer position where \<open>b\<close> lies, \<open>m\<close> returns
  \<open>x\<close> and stops right after \<open>b\<close>. The locale \<open>wire_format\<close> states what a codec owes its users and
  is interpreted for all four formats.
\<close>

section \<open>Constants and tags\<close>

definition DATA_FILE_MAGIC_PREFIX :: bytes where
  "DATA_FILE_MAGIC_PREFIX = [66, 80, 84, 82, 69, 69, 68, 66]"

definition DATA_FILE_VERSION :: nat where
  "DATA_FILE_VERSION = 1"

definition MIN_PAGE_SIZE :: nat where
  "MIN_PAGE_SIZE = struct_size META_PAGE_NO_CRC + struct_size CRC32_FIELD"

datatype WALOperationType = PUT | DELETE | CHECKPOINT

fun wal_op_code :: "WALOperationType \<Rightarrow> nat" where
  "wal_op_code PUT = 1"
| "wal_op_code DELETE = 2"
| "wal_op_code CHECKPOINT = 3"

datatype PageType = INTERNAL | LEAF | FREELIST

fun page_type_code :: "PageType \<Rightarrow> nat" where
  "page_type_code INTERNAL = 1"
| "page_type_code LEAF = 2"
| "page_type_code FREELIST = 3"

section \<open>WAL records\<close>

fun wal_op_type :: "wal_record \<Rightarrow> WALOperationType" where
  "wal_op_type (WALPutRecord _ _ _) = PUT"
| "wal_op_type (WALDeleteRecord _ _) = DELETE"
| "wal_op_type (WALCheckpointRecord _ _ _ _) = CHECKPOINT"

fun write_wal_payload :: "wal_record \<Rightarrow> (buffer_writer, unit) op" where
  "write_wal_payload (WALPutRecord _ key val) =
     bind_op (write_length_prefixed_bytes key LENGTH_FIELD) (\<lambda>_.
       write_length_prefixed_bytes val LENGTH_FIELD)"
| "write_wal_payload (WALDeleteRecord _ key) = write_length_prefixed_bytes key LENGTH_FIELD"
| "write_wal_payload (WALCheckpointRecord _ root head next) =
     bind_op (write_struct UINT64_FIELD [VInt root]) (\<lambda>_.
     bind_op (write_struct UINT64_FIELD [VInt head]) (\<lambda>_.
       write_struct UINT64_FIELD [VInt next]))"

definition encode_wal_record :: "wal_record \<Rightarrow> bytes result" where
  "encode_wal_record rec =
     bind_r (run_writer (write_wal_payload rec)) (\<lambda>payload_writer.
     bind_r (run_writer (write_struct WAL_RECORD_HEADER
               [VInt (lsn rec), VInt (wal_op_code (wal_op_type rec))])) (\<lambda>header_writer.
     let length_field_value = tell header_writer + tell payload_writer + struct_size CRC32_FIELD
     in bind_r (run_writer (
          bind_op (write_struct LENGTH_FIELD [VInt length_field_value]) (\<lambda>_.
          bind_op (write_bytes (build header_writer)) (\<lambda>_.
          bind_op (write_bytes (build payload_writer)) (\<lambda>_.
          write_crc32))))) (\<lambda>record_writer.
        Inr (build record_writer))))"

definition read_uint64 :: "(buffer_reader, nat) op" where
  "read_uint64 = bind_op (read_struct UINT64_FIELD) (\<lambda>vs. lift_r (first_int vs))"

definition read_wal_body :: "(buffer_reader, wal_record) op" where
  "read_wal_body =
     bind_op (read_bytes (struct_size LENGTH_FIELD)) (\<lambda>_.
     bind_op (read_struct WAL_RECORD_HEADER) (\<lambda>header.
     case header of
       [VInt l, VInt op_type] \<Rightarrow>
         if op_type = wal_op_code PUT then
           bind_op (read_length_prefixed_bytes LENGTH_FIELD) (\<lambda>key.
           bind_op (read_length_prefixed_bytes LENGTH_FIELD) (\<lambda>val.
           ret (WALPutRecord l key val)))
         else if op_type = wal_op_code DELETE then
           bind_op (read_length_prefixed_bytes LENGTH_FIELD) (\<lambda>key.
           ret (WALDeleteRecord l key))
         else if op_type = wal_op_code CHECKPOINT then
           bind_op read_uint64 (\<lambda>root.
           bind_op read_uint64 (\<lambda>head.
           bind_op read_uint64 (\<lambda>next.
           ret (WALCheckpointRecord l root head next))))
         else raise ValueError
     | _ \<Rightarrow> raise ValueError))"

definition decode_wal_record :: "bytes \<Rightarrow> wal_record result" where
  "decode_wal_record data =
     bind_r (verify_crc32 data) (\<lambda>_. run_reader read_wal_body data)"

text \<open>
  Reading from an open file at its current position: the argument is what is left of the file, the
  second component what is left after the bytes consumed, also when the read raises.
\<close>

definition decode_next_wal_record_from_file :: "bytes \<Rightarrow> wal_record result \<times> bytes" where
  "decode_next_wal_record_from_file file =
     (let length_bytes = take (struct_size LENGTH_FIELD) file;
          file1 = drop (struct_size LENGTH_FIELD) file
      in if length length_bytes \<noteq> struct_size LENGTH_FIELD then (Inl EOFError, file1)
         else case bind_r (unpack LENGTH_FIELD length_bytes) first_int of
                Inl e \<Rightarrow> (Inl e, file1)
              | Inr record_length \<Rightarrow>
                  (let record_body = take record_length file1;
                       file2 = drop record_length file1
                   in if length record_body \<noteq> record_length then (Inl EOFError, file2)
                      else (decode_wal_record (length_bytes @ record_body), file2)))"

section \<open>The meta page\<close>

definition encode_meta_page :: "meta_page \<Rightarrow> bytes result" where
  "encode_meta_page m =
     bind_r (run_writer (
       bind_op (write_struct META_PAGE_NO_CRC
         [VBytes DATA_FILE_MAGIC_PREFIX, VInt DATA_FILE_VERSION, VInt (page_size_bytes m),
          VInt (root_page_id m), VInt (next_page_id m), VInt (freelist_head_page_id m),
          VInt (last_checkpoint_lsn m)]) (\<lambda>_.
       write_crc32))) (\<lambda>writer.
     if page_size_bytes m < tell writer then Inl ValueError
     else Inr (build writer @ replicate (page_size_bytes m - tell writer) 0))"

definition decode_meta_page :: "bytes \<Rightarrow> meta_page result" where
  "decode_meta_page data0 =
     (let data = take (struct_size META_PAGE_NO_CRC + struct_size CRC32_FIELD) data0
      in if take (length DATA_FILE_MAGIC_PREFIX) data \<noteq> DATA_FILE_MAGIC_PREFIX
         then Inl (DBCorruptedError ''Magic prefix not found'')
         else bind_r (verify_crc32 data) (\<lambda>_.
              bind_r (run_reader (read_struct META_PAGE_NO_CRC) data) (\<lambda>unpacked.
              case unpacked of
                [_, _, VInt ps, VInt root, VInt next, VInt head, VInt ckpt] \<Rightarrow>
                  Inr \<lparr>page_size_bytes = ps, root_page_id = root, next_page_id = next,
                       freelist_head_page_id = head, last_checkpoint_lsn = ckpt\<rparr>
              | _ \<Rightarrow> Inl IndexError)))"

section \<open>Data pages\<close>

definition write_internal_record :: "internal_slot \<Rightarrow> (buffer_writer, unit) op" where
  "write_internal_record slot =
     bind_op (write_length_prefixed_bytes (ikey slot) LENGTH_FIELD) (\<lambda>_.
       write_struct PAGE_ID_FIELD [VInt (child_page_id slot)])"

definition write_leaf_record :: "leaf_slot \<Rightarrow> (buffer_writer, unit) op" where
  "write_leaf_record slot =
     bind_op (write_length_prefixed_bytes (lkey slot) LENGTH_FIELD) (\<lambda>_.
       write_length_prefixed_bytes (lvalue slot) LENGTH_FIELD)"

text \<open>
  The loop over the slots: each record is written below the previous one, and a directory entry
  for it is appended to \<^verbatim>\<open>slot_writer\<close>. A record that does not fit below the ones before it makes
  \<^verbatim>\<open>record_end_ptr\<close> negative, which packing the directory entry rejects.
\<close>

fun encode_slots ::
  "('slot \<Rightarrow> (buffer_writer, unit) op) \<Rightarrow> 'slot list \<Rightarrow> bytes \<Rightarrow> nat \<Rightarrow> buffer_writer \<Rightarrow>
     (bytes \<times> nat \<times> buffer_writer) result" where
  "encode_slots write_record [] page_buffer record_end_ptr slot_writer =
     Inr (page_buffer, record_end_ptr, slot_writer)"
| "encode_slots write_record (slot # slots) page_buffer record_end_ptr slot_writer =
     bind_r (run_writer (write_record slot)) (\<lambda>record_writer.
     let rec = build record_writer
     in if record_end_ptr < length rec then Inl StructError
        else let ptr = record_end_ptr - length rec;
                 buf = slice_assign ptr (ptr + length rec) rec page_buffer
             in case write_struct SLOT_ENTRY [VInt ptr, VInt (length rec)] slot_writer of
                  (Inl e, _) \<Rightarrow> Inl e
                | (Inr _, writer) \<Rightarrow> encode_slots write_record slots buf ptr writer)"

fun write_page_ids :: "nat list \<Rightarrow> (buffer_writer, unit) op" where
  "write_page_ids [] = ret ()"
| "write_page_ids (i # is) =
     bind_op (write_struct PAGE_ID_FIELD [VInt i]) (\<lambda>_. write_page_ids is)"

text \<open>The common tail of \<^verbatim>\<open>encode_page\<close>: the header and what follows it are laid over the buffer.\<close>

definition finish_page ::
  "PageType \<Rightarrow> nat \<Rightarrow> nat \<Rightarrow> nat \<Rightarrow> nat \<Rightarrow> nat \<Rightarrow> bytes \<Rightarrow> bytes \<Rightarrow> bytes result" where
  "finish_page page_type count_value free_space_start free_space_end lm_lsn page_id_field_value
     page_buffer encoded_records =
     bind_r (run_writer (write_struct PAGE_HEADER
       [VInt (page_type_code page_type), VBytes (replicate 3 0), VInt count_value,
        VInt free_space_start, VInt free_space_end, VInt lm_lsn, VInt page_id_field_value]))
     (\<lambda>header_writer.
       let header = build header_writer;
           buf = slice_assign 0 (length header) header page_buffer
       in Inr (slice_assign (length header) (length header + length encoded_records)
                 encoded_records buf))"

fun encode_page :: "page \<Rightarrow> nat \<Rightarrow> bytes result" where
  "encode_page (Node (InternalPage l child slots)) ps =
     bind_r (encode_slots write_internal_record slots (replicate ps 0) ps BufferWriter)
     (\<lambda>(page_buffer, record_end_ptr, slot_writer).
       finish_page INTERNAL (length slots)
         (struct_size PAGE_HEADER + struct_size SLOT_ENTRY * length slots) record_end_ptr
         l child page_buffer (build slot_writer))"
| "encode_page (Node (LeafPage l sibling slots)) ps =
     bind_r (encode_slots write_leaf_record slots (replicate ps 0) ps BufferWriter)
     (\<lambda>(page_buffer, record_end_ptr, slot_writer).
       finish_page LEAF (length slots)
         (struct_size PAGE_HEADER + struct_size SLOT_ENTRY * length slots) record_end_ptr
         l sibling page_buffer (build slot_writer))"
| "encode_page (Freelist (FreelistPage l next ids)) ps =
     bind_r (run_writer (write_page_ids ids)) (\<lambda>freed_id_list_writer.
       finish_page FREELIST (length ids) 0 0 l next (replicate ps 0) (build freed_id_list_writer))"

definition read_internal_record :: "(buffer_reader, internal_slot) op" where
  "read_internal_record =
     bind_op (read_length_prefixed_bytes LENGTH_FIELD) (\<lambda>key.
     bind_op (read_struct PAGE_ID_FIELD) (\<lambda>vs.
     bind_op (lift_r (first_int vs)) (\<lambda>child.
     ret (InternalSlot key child))))"

definition read_leaf_record :: "(buffer_reader, leaf_slot) op" where
  "read_leaf_record =
     bind_op (read_length_prefixed_bytes LENGTH_FIELD) (\<lambda>key.
     bind_op (read_length_prefixed_bytes LENGTH_FIELD) (\<lambda>val.
     ret (LeafSlot key val)))"

fun decode_slots ::
  "(buffer_reader, 'slot) op \<Rightarrow> bytes \<Rightarrow> nat \<Rightarrow> (buffer_reader, 'slot list) op" where
  "decode_slots read_record data 0 = ret []"
| "decode_slots read_record data (Suc n) =
     bind_op (read_struct SLOT_ENTRY) (\<lambda>entry.
     case entry of
       [VInt record_offset, VInt record_length] \<Rightarrow>
         bind_op (lift_r (run_reader read_record
                    (py_slice record_offset (record_offset + record_length) data))) (\<lambda>slot.
         bind_op (decode_slots read_record data n) (\<lambda>slots.
         ret (slot # slots)))
     | _ \<Rightarrow> raise ValueError)"

fun read_page_ids :: "nat \<Rightarrow> (buffer_reader, nat list) op" where
  "read_page_ids 0 = ret []"
| "read_page_ids (Suc n) =
     bind_op (read_struct PAGE_ID_FIELD) (\<lambda>vs.
     bind_op (lift_r (first_int vs)) (\<lambda>i.
     bind_op (read_page_ids n) (\<lambda>is.
     ret (i # is))))"

definition read_page_body :: "bytes \<Rightarrow> (buffer_reader, page) op" where
  "read_page_body data =
     bind_op (read_struct PAGE_HEADER) (\<lambda>header.
     case header of
       [VInt page_type, _, VInt count_value, _, _, VInt lm_lsn, VInt page_id_field_value] \<Rightarrow>
         if page_type = page_type_code INTERNAL then
           bind_op (decode_slots read_internal_record data count_value) (\<lambda>slots.
           ret (Node (InternalPage lm_lsn page_id_field_value slots)))
         else if page_type = page_type_code LEAF then
           bind_op (decode_slots read_leaf_record data count_value) (\<lambda>slots.
           ret (Node (LeafPage lm_lsn page_id_field_value slots)))
         else if page_type = page_type_code FREELIST then
           bind_op (read_page_ids count_value) (\<lambda>ids.
           ret (Freelist (FreelistPage lm_lsn page_id_field_value ids)))
         else raise ValueError
     | _ \<Rightarrow> raise ValueError)"

definition decode_page :: "bytes \<Rightarrow> page result" where
  "decode_page data = run_reader (read_page_body data) data"

section \<open>Sizes\<close>

definition calculate_internal_slot_size :: "internal_slot \<Rightarrow> bool \<Rightarrow> nat" where
  "calculate_internal_slot_size slot include_meta =
     (if include_meta then struct_size SLOT_ENTRY else 0) +
     struct_size LENGTH_FIELD + length (ikey slot) + struct_size PAGE_ID_FIELD"

definition calculate_leaf_slot_size :: "leaf_slot \<Rightarrow> bool \<Rightarrow> nat" where
  "calculate_leaf_slot_size slot include_meta =
     (if include_meta then struct_size SLOT_ENTRY else 0) +
     struct_size LENGTH_FIELD * 2 + length (lkey slot) + length (lvalue slot)"

fun slot_sizes :: "node \<Rightarrow> nat list" where
  "slot_sizes (InternalPage _ _ slots) = map (\<lambda>s. calculate_internal_slot_size s True) slots"
| "slot_sizes (LeafPage _ _ slots) = map (\<lambda>s. calculate_leaf_slot_size s True) slots"

definition calculate_page_size :: "node \<Rightarrow> nat" where
  "calculate_page_size page = foldl (+) (struct_size PAGE_HEADER) (slot_sizes page)"

definition calculate_leaf_record_size :: "bytes \<Rightarrow> bytes \<Rightarrow> nat" where
  "calculate_leaf_record_size key val = struct_size LENGTH_FIELD * 2 + length key + length val"

definition get_max_leaf_record_size :: "nat \<Rightarrow> int" where
  "get_max_leaf_record_size ps =
     (int ps - int (struct_size PAGE_HEADER)) div 5 - int (struct_size SLOT_ENTRY)"

definition get_max_freed_ids_per_freelist_page :: "nat \<Rightarrow> int" where
  "get_max_freed_ids_per_freelist_page ps =
     (int ps - int (struct_size PAGE_HEADER)) div int (struct_size PAGE_ID_FIELD)"

section \<open>Reasoning about readers and writers\<close>

text \<open>
  \<open>parses m b x\<close>: wherever \<open>b\<close> lies in a buffer, the reader \<open>m\<close> started at its first byte
  returns \<open>x\<close> and leaves the cursor right behind it.
\<close>

definition parses :: "(buffer_reader, 'a) op \<Rightarrow> bytes \<Rightarrow> 'a \<Rightarrow> bool" where
  "parses m b x \<longleftrightarrow> (\<forall>pre rest.
     m \<lparr>rd_data = pre @ b @ rest, rd_offset = length pre\<rparr> =
       (Inr x, \<lparr>rd_data = pre @ b @ rest, rd_offset = length pre + length b\<rparr>))"

lemma parsesD:
  "parses m b x \<Longrightarrow> data = pre @ b @ rest \<Longrightarrow> off = length pre \<Longrightarrow>
     m \<lparr>rd_data = data, rd_offset = off\<rparr> =
       (Inr x, \<lparr>rd_data = data, rd_offset = off + length b\<rparr>)"
  by (simp add: parses_def)

lemma parses_ret: "parses (ret x) [] x"
  by (simp add: parses_def)

lemma parses_bind:
  assumes "parses m b1 x" and "parses (f x) b2 y"
  shows "parses (bind_op m f) (b1 @ b2) y"
  unfolding parses_def
proof (intro allI)
  fix pre rest
  have m: "m \<lparr>rd_data = pre @ (b1 @ b2) @ rest, rd_offset = length pre\<rparr> =
      (Inr x, \<lparr>rd_data = pre @ (b1 @ b2) @ rest, rd_offset = length pre + length b1\<rparr>)"
    using assms(1) by (rule parsesD) simp_all
  have "f x \<lparr>rd_data = pre @ (b1 @ b2) @ rest, rd_offset = length pre + length b1\<rparr> =
      (Inr y, \<lparr>rd_data = pre @ (b1 @ b2) @ rest,
               rd_offset = (length pre + length b1) + length b2\<rparr>)"
    using assms(2) by (rule parsesD [where pre = "pre @ b1"]) simp_all
  with m show "bind_op m f \<lparr>rd_data = pre @ (b1 @ b2) @ rest, rd_offset = length pre\<rparr> =
      (Inr y, \<lparr>rd_data = pre @ (b1 @ b2) @ rest, rd_offset = length pre + length (b1 @ b2)\<rparr>)"
    by (simp add: bind_op_Inr add.assoc)
qed

lemma parses_bind_ret: "parses m b x \<Longrightarrow> f x = ret y \<Longrightarrow> parses (bind_op m f) b y"
  using parses_bind [of m b x f "[]" y] parses_ret [of y] by simp

lemma parses_bind_lift: "r = Inr x \<Longrightarrow> parses (f x) b y \<Longrightarrow> parses (bind_op (lift_r r) f) b y"
  by (simp add: parses_def)

lemma parses_lift: "r = Inr x \<Longrightarrow> parses (lift_r r) [] x"
  by (simp add: parses_def)

lemma parses_read_struct:
  assumes "list_all2 field_exact st vs"
  shows "parses (read_struct st) (concat (map2 pack_field st vs)) vs"
proof -
  have pk: "pack st vs = Inr (concat (map2 pack_field st vs))" by (rule pack_exact [OF assms])
  show ?thesis
    by (simp add: parses_def read_struct_eval unpack_from_pack [OF assms pk refl] pack_Inr [OF pk])
qed

lemma parses_read_bytes: "n = length b \<Longrightarrow> parses (read_bytes n) b b"
  by (simp add: parses_def read_bytes_eval py_slice_def)

definition lp :: "bytes \<Rightarrow> bytes" where
  "lp b = le_enc 4 (length b) @ b"

lemma length_lp [simp]: "length (lp b) = 4 + length b"
  by (simp add: lp_def)

lemma parses_uint32: "v < 256 ^ 4 \<Longrightarrow> parses (read_struct LENGTH_FIELD) (le_enc 4 v) [VInt v]"
  using parses_read_struct [of LENGTH_FIELD "[VInt v]"] by (simp add: struct_defs)

lemma parses_lp: "length b < 256 ^ 4 \<Longrightarrow> parses (read_length_prefixed_bytes LENGTH_FIELD) (lp b) b"
  unfolding read_length_prefixed_bytes_def lp_def
  by (rule parses_bind [OF parses_uint32], assumption)
     (rule parses_bind_lift [where x = "length b"], simp_all add: parses_read_bytes)

lemma parses_page_id: "v < 256 ^ 8 \<Longrightarrow> parses (read_struct PAGE_ID_FIELD) (le_enc 8 v) [VInt v]"
  using parses_read_struct [of PAGE_ID_FIELD "[VInt v]"] by (simp add: struct_defs)

lemma parses_uint64: "v < 256 ^ 8 \<Longrightarrow> parses read_uint64 (le_enc 8 v) v"
  using parses_bind [of "read_struct UINT64_FIELD" "le_enc 8 v" "[VInt v]" "\<lambda>vs. lift_r (first_int vs)" "[]" v]
    parses_read_struct [of UINT64_FIELD "[VInt v]"] parses_lift [OF refl, of v]
  by (simp add: read_uint64_def struct_defs)

lemma run_reader_parses: "parses m b x \<Longrightarrow> run_reader m (b @ rest) = Inr x"
  using parsesD [of m b x "b @ rest" "[]" rest 0]
  by (simp add: run_reader_def BufferReader_def)

lemma run_reader_parses_exact: "parses m b x \<Longrightarrow> run_reader m b = Inr x"
  using run_reader_parses [of m b x "[]"] by simp

text \<open>Dually, \<open>emits m b\<close>: the writer code \<open>m\<close> appends exactly \<open>b\<close>.\<close>

definition emits :: "(buffer_writer, unit) op \<Rightarrow> bytes \<Rightarrow> bool" where
  "emits m b \<longleftrightarrow> (\<forall>w. m w = (Inr (), w\<lparr>wr_buffer := wr_buffer w @ b\<rparr>))"

lemma emitsD: "emits m b \<Longrightarrow> m w = (Inr (), w\<lparr>wr_buffer := wr_buffer w @ b\<rparr>)"
  by (simp add: emits_def)

lemma emits_bind: "emits m b1 \<Longrightarrow> emits n b2 \<Longrightarrow> emits (bind_op m (\<lambda>_. n)) (b1 @ b2)"
  by (simp add: emits_def bind_op_def)

lemma emits_ret: "emits (ret ()) []"
  by (simp add: emits_def)

lemma emits_struct: "pack st vs = Inr b \<Longrightarrow> emits (write_struct st vs) b"
  by (simp add: emits_def write_struct_ok)

lemma emits_bytes: "emits (write_bytes b) b"
  by (simp add: emits_def write_bytes_eval)

lemma pack_uint: 
  "v < 256 ^ 4 \<Longrightarrow> pack LENGTH_FIELD [VInt v] = Inr (le_enc 4 v)"
  "v < 256 ^ 8 \<Longrightarrow> pack PAGE_ID_FIELD [VInt v] = Inr (le_enc 8 v)"
  "v < 256 ^ 8 \<Longrightarrow> pack UINT64_FIELD [VInt v] = Inr (le_enc 8 v)"
  by (simp_all add: pack_def struct_defs)

lemma emits_lp: "length b < 256 ^ 4 \<Longrightarrow> emits (write_length_prefixed_bytes b LENGTH_FIELD) (lp b)"
  unfolding write_length_prefixed_bytes_def lp_def
  by (intro emits_bind emits_struct emits_bytes pack_uint)

lemma run_writer_emits: "emits m b \<Longrightarrow> run_writer m = Inr \<lparr>wr_buffer = b\<rparr>"
  by (simp add: run_writer_def emitsD BufferWriter_def)

lemma writer_sel [simp]:
  "build \<lparr>wr_buffer = b\<rparr> = b" "tell \<lparr>wr_buffer = b\<rparr> = length b"
  by (simp_all add: build_def tell_def)

text \<open>A checksummed writer: the CRC of everything before it closes the buffer.\<close>

definition with_crc :: "bytes \<Rightarrow> bytes" where
  "with_crc b = b @ le_enc 4 (crc32 b)"

lemma length_with_crc [simp]: "length (with_crc b) = length b + 4"
  by (simp add: with_crc_def)

lemma run_writer_crc:
  assumes "emits m b"
  shows "run_writer (bind_op m (\<lambda>_. write_crc32)) = Inr \<lparr>wr_buffer = with_crc b\<rparr>"
proof -
  have "pack CRC32_FIELD [VInt (crc32 b)] = Inr (le_enc 4 (crc32 b))"
    using pack_uint(1) [OF crc32_bound, of b] by (simp add: struct_defs)
  then show ?thesis
    by (simp add: run_writer_def emitsD [OF assms] BufferWriter_def write_crc32_def writer_crc32_def
        with_crc_def write_struct_ok bind_op_def)
qed

lemma verify_with_crc: "verify_crc32 (with_crc b) = Inr ()"
  using verify_crc32_append [of "le_enc 4 (crc32 b)" b] crc32_bound [of b]
  by (simp add: with_crc_def le_dec_enc)

section \<open>WAL records: closed form and round trip\<close>

fun wal_payload :: "wal_record \<Rightarrow> bytes" where
  "wal_payload (WALPutRecord _ key val) = lp key @ lp val"
| "wal_payload (WALDeleteRecord _ key) = lp key"
| "wal_payload (WALCheckpointRecord _ root head next) = le_enc 8 root @ le_enc 8 head @ le_enc 8 next"

definition wal_header :: "wal_record \<Rightarrow> bytes" where
  "wal_header rec = le_enc 8 (lsn rec) @ le_enc 1 (wal_op_code (wal_op_type rec))"

definition wal_body :: "wal_record \<Rightarrow> bytes" where
  "wal_body rec = wal_header rec @ wal_payload rec"

definition wal_bytes :: "wal_record \<Rightarrow> bytes" where
  "wal_bytes rec = with_crc (le_enc 4 (length (wal_body rec) + 4) @ wal_body rec)"

text \<open>The records the format can hold: 64-bit numbers, and a recs_size length that fits its 32-bit prefix.\<close>

fun wal_fields_ok :: "wal_record \<Rightarrow> bool" where
  "wal_fields_ok (WALCheckpointRecord _ root head next) \<longleftrightarrow>
     root < 256 ^ 8 \<and> head < 256 ^ 8 \<and> next < 256 ^ 8"
| "wal_fields_ok _ \<longleftrightarrow> True"

definition wal_ok :: "wal_record \<Rightarrow> bool" where
  "wal_ok rec \<longleftrightarrow> lsn rec < 256 ^ 8 \<and> wal_fields_ok rec \<and> length (wal_body rec) + 4 < 256 ^ 4"

lemma wal_op_code_bound: "wal_op_code t < 256"
  by (cases t) simp_all

lemma emits_wal_payload:
  "wal_fields_ok rec \<Longrightarrow> length (wal_payload rec) < 256 ^ 4 \<Longrightarrow>
     emits (write_wal_payload rec) (wal_payload rec)"
  by (cases rec) (auto intro!: emits_bind emits_lp emits_struct pack_uint)

lemma length_wal_header [simp]: "length (wal_header rec) = 9"
  by (simp add: wal_header_def)

lemma length_wal_body: "length (wal_body rec) = 9 + length (wal_payload rec)"
  by (simp add: wal_body_def)

lemma pack_wal_header:
  "lsn rec < 256 ^ 8 \<Longrightarrow>
     pack WAL_RECORD_HEADER [VInt (lsn rec), VInt (wal_op_code (wal_op_type rec))] = Inr (wal_header rec)"
  by (simp add: pack_def struct_defs wal_header_def wal_op_code_bound)

lemma encode_wal_record_ok:
  assumes "wal_ok rec"
  shows "encode_wal_record rec = Inr (wal_bytes rec)"
proof -
  have len: "length (wal_body rec) + 4 < 256 ^ 4" using assms by (simp add: wal_ok_def)
  have payload: "run_writer (write_wal_payload rec) = Inr \<lparr>wr_buffer = wal_payload rec\<rparr>"
    using assms len by (intro run_writer_emits emits_wal_payload)
      (simp_all add: wal_ok_def length_wal_body)
  have header: "run_writer (write_struct WAL_RECORD_HEADER
      [VInt (lsn rec), VInt (wal_op_code (wal_op_type rec))]) = Inr \<lparr>wr_buffer = wal_header rec\<rparr>"
    using assms by (intro run_writer_emits emits_struct pack_wal_header) (simp add: wal_ok_def)
  have "emits (bind_op (write_struct LENGTH_FIELD [VInt (length (wal_body rec) + 4)])
      (\<lambda>_. bind_op (write_bytes (wal_header rec)) (\<lambda>_. write_bytes (wal_payload rec))))
      (le_enc 4 (length (wal_body rec) + 4) @ wal_header rec @ wal_payload rec)"
    by (intro emits_bind emits_bytes emits_struct pack_uint(1) len)
  from run_writer_crc [OF this] payload header show ?thesis
    by (simp add: encode_wal_record_def wal_bytes_def bind_op_assoc length_wal_body wal_body_def)
qed

lemma parses_wal_body:
  assumes "wal_ok rec"
  shows "parses read_wal_body (le_enc 4 n @ wal_body rec) rec"
proof -
  have hdr: "parses (read_struct WAL_RECORD_HEADER) (wal_header rec)
      [VInt (lsn rec), VInt (wal_op_code (wal_op_type rec))]"
    using parses_read_struct [of WAL_RECORD_HEADER
        "[VInt (lsn rec), VInt (wal_op_code (wal_op_type rec))]"] assms
    by (simp add: struct_defs wal_ok_def wal_op_code_bound wal_header_def)
  have len: "length (wal_payload rec) < 256 ^ 4" and flds: "wal_fields_ok rec"
    using assms by (simp_all add: wal_ok_def length_wal_body)
  note intros = parses_bind parses_bind_ret [OF parses_lp] parses_lp parses_uint64
    parses_bind_ret [OF parses_uint64]
  show ?thesis
    unfolding read_wal_body_def wal_body_def
    by (rule parses_bind [OF parses_read_bytes], simp, rule parses_bind [OF hdr])
       (use len flds in \<open>cases rec; auto intro!: intros\<close>)
qed

lemma decode_wal_record_ok: "wal_ok rec \<Longrightarrow> decode_wal_record (wal_bytes rec) = Inr rec"
  using run_reader_parses [OF parses_wal_body]
  by (simp add: decode_wal_record_def wal_bytes_def verify_with_crc) (simp add: with_crc_def)

section \<open>Reading records off a file\<close>

lemma length_wal_bytes [len_simps]: "length (wal_bytes rec) = 17 + length (wal_payload rec)"
  by (simp add: wal_bytes_def length_wal_body)

text \<open>A complete record is its 4-byte length prefix and as many bytes as the prefix says.\<close>

lemma wal_bytes_frame:
  assumes "wal_ok rec"
  obtains body where "wal_bytes rec = le_enc 4 (length body) @ body" "length body < 256 ^ 4"
proof
  show "wal_bytes rec = le_enc 4 (length (wal_body rec @ le_enc 4 (crc32 (le_enc 4 (length (wal_body rec) + 4) @ wal_body rec)))) @
      wal_body rec @ le_enc 4 (crc32 (le_enc 4 (length (wal_body rec) + 4) @ wal_body rec))"
    by (simp add: wal_bytes_def with_crc_def)
  show "length (wal_body rec @ le_enc 4 (crc32 (le_enc 4 (length (wal_body rec) + 4) @ wal_body rec))) < 256 ^ 4"
    using assms by (simp add: wal_ok_def)
qed

lemma decode_next_frame:
  assumes "length body < 256 ^ 4"
  shows "decode_next_wal_record_from_file (le_enc 4 (length body) @ body @ rest) =
     (decode_wal_record (le_enc 4 (length body) @ body), rest)"
  using assms by (simp add: decode_next_wal_record_from_file_def Let_def unpack_def struct_defs
      le_dec_enc)

lemma decode_next_short_prefix:
  "length file < 4 \<Longrightarrow> fst (decode_next_wal_record_from_file file) = Inl EOFError"
  by (simp add: decode_next_wal_record_from_file_def Let_def)

lemma decode_next_short_body:
  assumes "n < 256 ^ 4" and "length part < n"
  shows "fst (decode_next_wal_record_from_file (le_enc 4 n @ part)) = Inl EOFError"
  using assms by (simp add: decode_next_wal_record_from_file_def Let_def unpack_def struct_defs
      le_dec_enc)

lemma decode_next_ok:
  assumes "wal_ok rec"
  shows "decode_next_wal_record_from_file (wal_bytes rec @ rest) = (Inr rec, rest)"
proof -
  from wal_bytes_frame [OF assms] obtain body
    where body: "wal_bytes rec = le_enc 4 (length body) @ body" "length body < 256 ^ 4" .
  show ?thesis
    using decode_next_frame [OF body(2), of rest] decode_wal_record_ok [OF assms]
    by (simp add: body(1))
qed

lemma decode_next_torn:
  assumes "wal_ok rec" and "wal_bytes rec = part @ lost" and "lost \<noteq> []"
  shows "fst (decode_next_wal_record_from_file part) = Inl EOFError"
proof (cases "length part < 4")
  case True
  then show ?thesis by (rule decode_next_short_prefix)
next
  case False
  from wal_bytes_frame [OF assms(1)] obtain body
    where body: "wal_bytes rec = le_enc 4 (length body) @ body" "length body < 256 ^ 4" .
  have part: "part = le_enc 4 (length body) @ drop 4 part"
    using assms(2) body(1) False
    by (metis append_eq_append_conv_if append_take_drop_id length_le_enc linorder_not_less)
  have "4 + length body = length part + length lost"
    using assms(2) body(1) by (metis length_append length_le_enc)
  then have "length (drop 4 part) < length body"
    using assms(3) False by (cases lost) auto
  from decode_next_short_body [OF body(2) this] part show ?thesis by simp
qed

text \<open>A record one of whose body or checksum bytes was altered is reported, never returned.\<close>

lemma decode_wal_record_corrupt:
  assumes "wal_bytes rec = pre @ a # post" and "a \<noteq> b"
  shows "\<exists>x y. decode_wal_record (pre @ b # post) = Inl (DBChecksumError x y)"
proof -
  define body where "body = le_enc 4 (length (wal_body rec) + 4) @ wal_body rec"
  have w: "wal_bytes rec = body @ le_enc 4 (crc32 body)"
    by (simp add: wal_bytes_def with_crc_def body_def)
  have "verify_crc32 (pre @ b # post) \<noteq> Inr ()"
  proof (cases "length pre < length body")
    case True
    define post1 where "post1 = take (length body - length pre - 1) post"
    have "body = take (length body) (pre @ a # post)" using assms(1) w by (metis append_eq_conv_conj)
    with True have b1: "body = pre @ a # post1" by (simp add: post1_def take_Cons')
    with assms(1) w have b2: "post = post1 @ le_enc 4 (crc32 body)" by simp
    have "crc32 (pre @ b # post1) \<noteq> crc32 body"
      using assms(2) b1 crc32_single_byte by metis
    then show ?thesis
      using verify_crc32_append [of "le_enc 4 (crc32 body)" "pre @ b # post1"] b2
      by (simp add: le_dec_enc [OF crc32_bound])
  next
    case False
    then obtain pre1 where p1: "pre = body @ pre1" "le_enc 4 (crc32 body) = pre1 @ a # post"
      using assms(1) w by (metis append_eq_append_conv_if append_take_drop_id linorder_not_less)
    have len: "length (pre1 @ b # post) = 4"
      using arg_cong [OF p1(2), of length] by simp
    have "le_dec (pre1 @ b # post) \<noteq> crc32 body"
    proof
      assume "le_dec (pre1 @ b # post) = crc32 body"
      then have "le_enc 4 (crc32 body) = pre1 @ b # post" using le_enc_dec len by metis
      with p1(2) assms(2) show False by simp
    qed
    then show ?thesis using verify_crc32_append [OF len, of body] p1(1) by simp
  qed
  moreover have "4 \<le> length (pre @ b # post)"
    using arg_cong [OF assms(1), of length] by (simp add: length_wal_bytes)
  ultimately show ?thesis
    using verify_crc32_append [of "drop (length (pre @ b # post) - 4) (pre @ b # post)"
        "take (length (pre @ b # post) - 4) (pre @ b # post)"]
    by (auto simp: decode_wal_record_def split: if_splits simp del: drop_append take_append)
qed

section \<open>The meta page: closed form and round trip\<close>

definition meta_ok :: "meta_page \<Rightarrow> bool" where
  "meta_ok m \<longleftrightarrow> MIN_PAGE_SIZE \<le> page_size_bytes m \<and> page_size_bytes m < 256 ^ 4 \<and>
     root_page_id m < 256 ^ 8 \<and> next_page_id m < 256 ^ 8 \<and> freelist_head_page_id m < 256 ^ 8 \<and>
     last_checkpoint_lsn m < 256 ^ 8"

definition meta_vals :: "meta_page \<Rightarrow> struct_val list" where
  "meta_vals m = [VBytes DATA_FILE_MAGIC_PREFIX, VInt DATA_FILE_VERSION, VInt (page_size_bytes m),
     VInt (root_page_id m), VInt (next_page_id m), VInt (freelist_head_page_id m),
     VInt (last_checkpoint_lsn m)]"

definition meta_body :: "meta_page \<Rightarrow> bytes" where
  "meta_body m = concat (map2 pack_field META_PAGE_NO_CRC (meta_vals m))"

definition meta_bytes :: "meta_page \<Rightarrow> bytes" where
  "meta_bytes m = with_crc (meta_body m) @ replicate (page_size_bytes m - MIN_PAGE_SIZE) 0"

lemma MIN_PAGE_SIZE_eq [simp]: "MIN_PAGE_SIZE = 52"
  by (simp add: MIN_PAGE_SIZE_def)

lemma length_magic [simp]: "length DATA_FILE_MAGIC_PREFIX = 8"
  by (simp add: DATA_FILE_MAGIC_PREFIX_def)

lemma meta_vals_exact: "meta_ok m \<Longrightarrow> list_all2 field_exact META_PAGE_NO_CRC (meta_vals m)"
  by (simp add: meta_ok_def meta_vals_def struct_defs DATA_FILE_MAGIC_PREFIX_def DATA_FILE_VERSION_def)

lemma length_meta_body [len_simps]: "length (meta_body m) = 48"
  by (simp add: meta_body_def meta_vals_def struct_defs)

lemma length_meta_bytes [len_simps]: "meta_ok m \<Longrightarrow> length (meta_bytes m) = page_size_bytes m"
  by (simp add: meta_bytes_def length_meta_body meta_ok_def)

lemma encode_meta_page_ok:
  assumes "meta_ok m"
  shows "encode_meta_page m = Inr (meta_bytes m)"
proof -
  have "emits (write_struct META_PAGE_NO_CRC (meta_vals m)) (meta_body m)"
    using meta_vals_exact [OF assms] by (intro emits_struct) (simp add: pack_exact meta_body_def)
  from run_writer_crc [OF this] assms show ?thesis
    by (simp add: encode_meta_page_def meta_vals_def [symmetric] meta_ok_def meta_bytes_def
        length_meta_body)
qed

lemma decode_meta_page_ok:
  assumes "meta_ok m"
  shows "decode_meta_page (meta_bytes m @ rest) = Inr m"
proof -
  have tk: "take 52 (meta_bytes m @ rest) = with_crc (meta_body m)"
    by (simp add: meta_bytes_def length_meta_body)
  have magic: "take 8 (with_crc (meta_body m)) = DATA_FILE_MAGIC_PREFIX"
    by (simp add: with_crc_def meta_body_def meta_vals_def struct_defs DATA_FILE_MAGIC_PREFIX_def)
  have "run_reader (read_struct META_PAGE_NO_CRC) (with_crc (meta_body m)) = Inr (meta_vals m)"
    using run_reader_parses [OF parses_read_struct [OF meta_vals_exact [OF assms]]]
    by (simp add: with_crc_def meta_body_def)
  then show ?thesis
    by (simp add: decode_meta_page_def Let_def tk magic verify_with_crc meta_vals_def
        del: take_append)
qed

section \<open>Slotted pages: layout\<close>

text \<open>
  The layout is independent of the kind of slot: what matters is the list of encoded records. The
  directory entries point below \<open>p\<close>, each record ending where the one before it starts.
\<close>

fun slot_dir :: "nat \<Rightarrow> bytes list \<Rightarrow> (nat \<times> nat) list" where
  "slot_dir p [] = []"
| "slot_dir p (r # rs) = (p - length r, length r) # slot_dir (p - length r) rs"

definition dir_bytes :: "(nat \<times> nat) list \<Rightarrow> bytes" where
  "dir_bytes ds = concat (map (\<lambda>(off, len). le_enc 4 off @ le_enc 4 len) ds)"

definition recs_size :: "bytes list \<Rightarrow> nat" where
  "recs_size rs = sum_list (map length rs)"

lemma recs_size_simps [simp]: "recs_size [] = 0" "recs_size (r # rs) = length r + recs_size rs"
  by (simp_all add: recs_size_def)

lemma length_concat_recs [simp]: "length (concat rs) = recs_size rs"
  by (induction rs) simp_all

lemma recs_size_rev [simp]: "recs_size (rev rs) = recs_size rs"
  by (simp add: recs_size_def rev_map [symmetric])

lemma length_slot_dir [simp]: "length (slot_dir p rs) = length rs"
  by (induction rs arbitrary: p) simp_all

lemma dir_bytes_simps [simp]:
  "dir_bytes [] = []" "dir_bytes ((off, len) # ds) = le_enc 4 off @ le_enc 4 len @ dir_bytes ds"
  by (simp_all add: dir_bytes_def)

lemma length_dir_bytes [simp]: "length (dir_bytes ds) = 8 * length ds"
  by (induction ds) (auto simp: dir_bytes_def)

lemma pack_slot_entry:
  "off < 256 ^ 4 \<Longrightarrow> len < 256 ^ 4 \<Longrightarrow>
     pack SLOT_ENTRY [VInt off, VInt len] = Inr (le_enc 4 off @ le_enc 4 len)"
  by (simp add: pack_def struct_defs)

lemma encode_slots_ok:
  assumes "list_all2 (\<lambda>slot rec. emits (write_record slot) rec) slots recs"
    and "recs_size recs \<le> p" and "p \<le> length buf" and "p < 256 ^ 4"
  shows "encode_slots write_record slots buf p w =
     Inr (take (p - recs_size recs) buf @ concat (rev recs) @ drop p buf, p - recs_size recs,
          w\<lparr>wr_buffer := wr_buffer w @ dir_bytes (slot_dir p recs)\<rparr>)"
  using assms
proof (induction slots recs arbitrary: p buf w rule: list_all2_induct)
  case Nil
  then show ?case by simp
next
  case (Cons slot slots rec recs)
  let ?p = "p - length rec"
  let ?buf = "slice_assign ?p (?p + length rec) rec buf"
  let ?w = "w\<lparr>wr_buffer := wr_buffer w @ le_enc 4 ?p @ le_enc 4 (length rec)\<rparr>"
  have entry: "write_struct SLOT_ENTRY [VInt ?p, VInt (length rec)] w = (Inr (), ?w)"
    using Cons.prems by (intro write_struct_ok pack_slot_entry) simp_all
  have len: "length ?buf = length buf"
    using Cons.prems by (intro length_slice_assign) auto
  have IH: "encode_slots write_record slots ?buf ?p ?w =
     Inr (take (?p - recs_size recs) ?buf @ concat (rev recs) @ drop ?p ?buf, ?p - recs_size recs,
          ?w\<lparr>wr_buffer := wr_buffer ?w @ dir_bytes (slot_dir ?p recs)\<rparr>)"
    using Cons.prems len by (intro Cons.IH) auto
  have "take (?p - recs_size recs) ?buf = take (?p - recs_size recs) buf"
    using Cons.prems by (simp add: slice_assign_def)
  moreover have "drop ?p ?buf = rec @ drop p buf"
    using Cons.prems by (simp add: slice_assign_def)
  ultimately show ?case
    using Cons.prems IH entry run_writer_emits [OF Cons.hyps(1)]
    by (simp add: Let_def diff_diff_add)
qed

text \<open>The page: header, directory, zeros, and the records from the last to the first.\<close>

definition page_header :: "PageType \<Rightarrow> nat \<Rightarrow> nat \<Rightarrow> nat \<Rightarrow> nat \<Rightarrow> nat \<Rightarrow> bytes" where
  "page_header ty n fs fe l i = le_enc 1 (page_type_code ty) @ replicate 3 0 @ le_enc 4 n @
     le_enc 4 fs @ le_enc 4 fe @ le_enc 8 l @ le_enc 8 i"

definition slotted :: "PageType \<Rightarrow> nat \<Rightarrow> nat \<Rightarrow> bytes list \<Rightarrow> nat \<Rightarrow> bytes" where
  "slotted ty l i recs ps =
     page_header ty (length recs) (32 + 8 * length recs) (ps - recs_size recs) l i @
     dir_bytes (slot_dir ps recs) @
     replicate (ps - recs_size recs - (32 + 8 * length recs)) 0 @
     concat (rev recs)"

lemma page_type_code_bound: "page_type_code ty < 256"
  by (cases ty) simp_all

lemma length_page_header [simp]: "length (page_header ty n fs fe l i) = 32"
  by (simp add: page_header_def)

definition header_vals :: "PageType \<Rightarrow> nat \<Rightarrow> nat \<Rightarrow> nat \<Rightarrow> nat \<Rightarrow> nat \<Rightarrow> struct_val list" where
  "header_vals ty n fs fe l i = [VInt (page_type_code ty), VBytes (replicate 3 0), VInt n,
     VInt fs, VInt fe, VInt l, VInt i]"

lemma header_vals_exact:
  "n < 256 ^ 4 \<Longrightarrow> fs < 256 ^ 4 \<Longrightarrow> fe < 256 ^ 4 \<Longrightarrow> l < 256 ^ 8 \<Longrightarrow> i < 256 ^ 8 \<Longrightarrow>
     list_all2 field_exact PAGE_HEADER (header_vals ty n fs fe l i)"
  by (simp add: header_vals_def struct_defs page_type_code_bound)

lemma header_bytes: "concat (map2 pack_field PAGE_HEADER (header_vals ty n fs fe l i)) =
    page_header ty n fs fe l i"
  by (simp add: header_vals_def struct_defs page_header_def eval_nat_numeral)

lemma finish_page_ok:
  assumes "n < 256 ^ 4" "fs < 256 ^ 4" "fe < 256 ^ 4" "l < 256 ^ 8" "i < 256 ^ 8"
  shows "finish_page ty n fs fe l i buf enc =
     Inr (page_header ty n fs fe l i @ enc @ drop (32 + length enc) buf)"
proof -
  have "run_writer (write_struct PAGE_HEADER (header_vals ty n fs fe l i)) =
      Inr \<lparr>wr_buffer = page_header ty n fs fe l i\<rparr>"
    using header_vals_exact [OF assms, of ty]
    by (intro run_writer_emits emits_struct) (simp add: pack_exact header_bytes)
  then show ?thesis
    by (simp add: finish_page_def header_vals_def [symmetric] slice_assign_def Let_def add.commute)
qed

lemma slotted_finish:
  assumes "32 + 8 * length recs + recs_size recs \<le> ps" and "ps < 256 ^ 4" "l < 256 ^ 8" "i < 256 ^ 8"
  shows "finish_page ty (length recs) (32 + 8 * length recs) (ps - recs_size recs) l i
     (take (ps - recs_size recs) (replicate ps 0) @ concat (rev recs) @ drop ps (replicate ps 0))
     (dir_bytes (slot_dir ps recs)) = Inr (slotted ty l i recs ps)"
  using assms by (subst finish_page_ok) (simp_all add: slotted_def)

lemma length_slotted [len_simps]:
  "32 + 8 * length recs + recs_size recs \<le> ps \<Longrightarrow> length (slotted ty l i recs ps) = ps"
  by (simp add: slotted_def)

text \<open>Decoding the directory: entry \<open>k\<close> cuts record \<open>k\<close> out of the page.\<close>

lemma parses_slot_entry:
  "off < 256 ^ 4 \<Longrightarrow> len < 256 ^ 4 \<Longrightarrow>
     parses (read_struct SLOT_ENTRY) (le_enc 4 off @ le_enc 4 len) [VInt off, VInt len]"
  using parses_read_struct [of SLOT_ENTRY "[VInt off, VInt len]"] by (simp add: struct_defs)

lemma decode_slots_ok:
  assumes "list_all2 (\<lambda>slot rec. parses read_record rec slot) slots recs"
    and "data = front @ concat (rev recs) @ suffix" and "length front + recs_size recs < 256 ^ 4"
  shows "parses (decode_slots read_record data (length slots))
     (dir_bytes (slot_dir (length front + recs_size recs) recs)) slots"
  using assms
proof (induction slots recs arbitrary: suffix rule: list_all2_induct)
  case Nil
  then show ?case by (simp add: parses_def)
next
  case (Cons slot slots rec recs)
  let ?off = "length front + recs_size recs"
  have cut: "py_slice ?off (?off + length rec) data = rec"
    using Cons.prems(1) by (simp add: py_slice_def)
  have IH: "parses (decode_slots read_record data (length slots))
     (dir_bytes (slot_dir ?off recs)) slots"
    using Cons.prems by (intro Cons.IH [where suffix = "rec @ suffix"]) simp_all
  have entry: "parses (read_struct SLOT_ENTRY) (le_enc 4 ?off @ le_enc 4 (length rec))
      [VInt ?off, VInt (length rec)]"
    using Cons.prems by (intro parses_slot_entry) simp_all
  have read: "run_reader read_record (py_slice ?off (?off + length rec) data) = Inr slot"
    unfolding cut by (rule run_reader_parses_exact [OF Cons.hyps(1)])
  have "parses (decode_slots read_record data (Suc (length slots)))
      ((le_enc 4 ?off @ le_enc 4 (length rec)) @ dir_bytes (slot_dir ?off recs)) (slot # slots)"
    unfolding decode_slots.simps
    by (rule parses_bind [OF entry], simp only: list.case struct_val.case)
       (rule parses_bind_lift [OF read parses_bind_ret [OF IH refl]])
  then show ?case by simp
qed

section \<open>Slotted pages: round trip\<close>

definition internal_record :: "internal_slot \<Rightarrow> bytes" where
  "internal_record s = lp (ikey s) @ le_enc 8 (child_page_id s)"

definition leaf_record :: "leaf_slot \<Rightarrow> bytes" where
  "leaf_record s = lp (lkey s) @ lp (lvalue s)"

lemma length_records [simp]:
  "length (internal_record s) = calculate_internal_slot_size s False"
  "length (leaf_record t) = calculate_leaf_slot_size t False"
  by (simp_all add: internal_record_def leaf_record_def calculate_internal_slot_size_def
      calculate_leaf_slot_size_def)

lemma slot_size_meta:
  "calculate_internal_slot_size s True = 8 + calculate_internal_slot_size s False"
  "calculate_leaf_slot_size l True = 8 + calculate_leaf_slot_size l False"
  by (simp_all add: calculate_internal_slot_size_def calculate_leaf_slot_size_def)

fun node_records :: "node \<Rightarrow> bytes list" where
  "node_records (InternalPage _ _ slots) = map internal_record slots"
| "node_records (LeafPage _ _ slots) = map leaf_record slots"

fun node_bytes :: "node \<Rightarrow> nat \<Rightarrow> bytes" where
  "node_bytes (InternalPage l c slots) ps = slotted INTERNAL l c (map internal_record slots) ps"
| "node_bytes (LeafPage l r slots) ps = slotted LEAF l r (map leaf_record slots) ps"

text \<open>\<^verbatim>\<open>calculate_page_size\<close> is exactly the header, the directory and the records.\<close>

lemma foldl_plus: "foldl (+) a xs = a + sum_list xs" for a :: nat
  by (induction xs arbitrary: a) simp_all

lemma calculate_page_size_sum: "calculate_page_size n = 32 + sum_list (slot_sizes n)"
  by (simp add: calculate_page_size_def foldl_plus)

lemma calculate_page_size_records:
  "calculate_page_size n = 32 + 8 * length (node_records n) + recs_size (node_records n)"
proof (cases n)
  case (InternalPage l c slots)
  then show ?thesis
    by (simp add: calculate_page_size_sum recs_size_def slot_size_meta comp_def sum_list_addf
        sum_list_triv)
next
  case (LeafPage l r slots)
  then show ?thesis
    by (simp add: calculate_page_size_sum recs_size_def slot_size_meta comp_def sum_list_addf
        sum_list_triv)
qed

text \<open>The nodes a page of size \<open>ps\<close> can hold.\<close>

fun node_ids_ok :: "node \<Rightarrow> bool" where
  "node_ids_ok (InternalPage l c slots) \<longleftrightarrow>
     l < 256 ^ 8 \<and> c < 256 ^ 8 \<and> list_all (\<lambda>s. child_page_id s < 256 ^ 8) slots"
| "node_ids_ok (LeafPage l r slots) \<longleftrightarrow> l < 256 ^ 8 \<and> r < 256 ^ 8"

definition node_fits :: "nat \<Rightarrow> node \<Rightarrow> bool" where
  "node_fits ps n \<longleftrightarrow> node_ids_ok n \<and> calculate_page_size n \<le> ps \<and> ps < 256 ^ 4"

lemma member_record_le: "rec \<in> set recs \<Longrightarrow> length rec \<le> recs_size recs"
  by (simp add: recs_size_def member_le_sum_list)

lemma node_fits_records:
  "node_fits ps n \<Longrightarrow> 32 + 8 * length (node_records n) + recs_size (node_records n) \<le> ps"
  by (simp add: node_fits_def calculate_page_size_records)

lemma node_fits_record_len:
  assumes "node_fits ps n" and "rec \<in> set (node_records n)"
  shows "length rec < 256 ^ 4"
  using node_fits_records [OF assms(1)] member_record_le [OF assms(2)] assms(1)
  by (simp add: node_fits_def)

lemma internal_record_laws:
  assumes "node_fits ps (InternalPage l c slots)" and "s \<in> set slots"
  shows "emits (write_internal_record s) (internal_record s)"
    and "parses read_internal_record (internal_record s) s"
proof -
  have k: "length (ikey s) < 256 ^ 4"
    using node_fits_record_len [OF assms(1), of "internal_record s"] assms(2)
    by (simp add: calculate_internal_slot_size_def)
  have c: "child_page_id s < 256 ^ 8"
    using assms by (auto simp: node_fits_def list_all_iff)
  show "emits (write_internal_record s) (internal_record s)"
    unfolding write_internal_record_def internal_record_def
    by (intro emits_bind emits_lp emits_struct pack_uint k c)
  show "parses read_internal_record (internal_record s) s"
    unfolding read_internal_record_def internal_record_def
    by (rule parses_bind [OF parses_lp [OF k]], rule parses_bind_ret [OF parses_page_id [OF c]])
       (simp add: fun_eq_iff)
qed

lemma leaf_record_laws:
  assumes "node_fits ps (LeafPage l r slots)" and "s \<in> set slots"
  shows "emits (write_leaf_record s) (leaf_record s)"
    and "parses read_leaf_record (leaf_record s) s"
proof -
  have k: "length (lkey s) < 256 ^ 4" and v: "length (lvalue s) < 256 ^ 4"
    using node_fits_record_len [OF assms(1), of "leaf_record s"] assms(2)
    by (simp_all add: calculate_leaf_slot_size_def)
  show "emits (write_leaf_record s) (leaf_record s)"
    unfolding write_leaf_record_def leaf_record_def by (intro emits_bind emits_lp k v)
  show "parses read_leaf_record (leaf_record s) s"
    unfolding read_leaf_record_def leaf_record_def
    by (rule parses_bind [OF parses_lp [OF k]], rule parses_bind_ret [OF parses_lp [OF v]]) simp
qed

lemma node_records_laws:
  assumes "node_fits ps n"
  shows "n = InternalPage l c slots \<Longrightarrow>
      list_all2 (\<lambda>slot rec. emits (write_internal_record slot) rec) slots (map internal_record slots)"
    and "n = InternalPage l c slots \<Longrightarrow>
      list_all2 (\<lambda>slot rec. parses read_internal_record rec slot) slots (map internal_record slots)"
    and "n = LeafPage l c lslots' \<Longrightarrow>
      list_all2 (\<lambda>slot rec. emits (write_leaf_record slot) rec) lslots' (map leaf_record lslots')"
    and "n = LeafPage l c lslots' \<Longrightarrow>
      list_all2 (\<lambda>slot rec. parses read_leaf_record rec slot) lslots' (map leaf_record lslots')"
  using assms internal_record_laws leaf_record_laws
  by (auto simp: list_all2_conv_all_nth)

lemma encode_node_ok:
  assumes "node_fits ps n"
  shows "encode_page (Node n) ps = Inr (node_bytes n ps)"
proof (cases n)
  case (InternalPage l c slots)
  then show ?thesis
    using node_fits_records [OF assms] assms slotted_finish [of "map internal_record slots" ps l c INTERNAL]
    by (simp add: encode_slots_ok [OF node_records_laws(1) [OF assms InternalPage]] node_fits_def
        BufferWriter_def)
next
  case (LeafPage l r slots)
  then show ?thesis
    using node_fits_records [OF assms] assms slotted_finish [of "map leaf_record slots" ps l r LEAF]
    by (simp add: encode_slots_ok [OF node_records_laws(3) [OF assms LeafPage]] node_fits_def
        BufferWriter_def)
qed

lemma slotted_parses:
  assumes fits: "32 + 8 * length recs + recs_size recs \<le> ps" and ps: "ps < 256 ^ 4"
    and ids: "l < 256 ^ 8" "i < 256 ^ 8"
    and recs: "list_all2 (\<lambda>slot rec. parses read_record rec slot) slots recs"
  shows "parses (read_struct PAGE_HEADER)
      (page_header ty (length recs) (32 + 8 * length recs) (ps - recs_size recs) l i)
      (header_vals ty (length recs) (32 + 8 * length recs) (ps - recs_size recs) l i)"
    and "parses (decode_slots read_record (slotted ty l i recs ps) (length slots))
      (dir_bytes (slot_dir ps recs)) slots"
proof -
  let ?h = "header_vals ty (length recs) (32 + 8 * length recs) (ps - recs_size recs) l i"
  let ?front = "page_header ty (length recs) (32 + 8 * length recs) (ps - recs_size recs) l i @
     dir_bytes (slot_dir ps recs) @ replicate (ps - recs_size recs - (32 + 8 * length recs)) 0"
  show "parses (read_struct PAGE_HEADER)
      (page_header ty (length recs) (32 + 8 * length recs) (ps - recs_size recs) l i) ?h"
    using fits ps ids
    by (intro parses_read_struct [of PAGE_HEADER ?h, unfolded header_bytes] header_vals_exact) auto
  have front: "length ?front + recs_size recs = ps" using fits by simp
  show "parses (decode_slots read_record (slotted ty l i recs ps) (length slots))
      (dir_bytes (slot_dir ps recs)) slots"
    using decode_slots_ok [OF recs, of "slotted ty l i recs ps" ?front "[]"] ps
    unfolding front by (simp add: slotted_def)
qed

lemma decode_node_ok:
  assumes "node_fits ps n"
  shows "decode_page (node_bytes n ps) = Inr (Node n)"
proof (cases n)
  case (InternalPage l c slots)
  let ?recs = "map internal_record slots"
  note recs = node_records_laws(2) [OF assms InternalPage]
  note P = slotted_parses [OF _ _ _ _ recs, of ps l c INTERNAL]
  have "parses (read_page_body (slotted INTERNAL l c ?recs ps))
      (page_header INTERNAL (length ?recs) (32 + 8 * length ?recs) (ps - recs_size ?recs) l c @
       dir_bytes (slot_dir ps ?recs)) (Node n)"
    unfolding read_page_body_def
    by (rule parses_bind [OF P(1)])
       (use node_fits_records [OF assms] assms P(2) in
         \<open>auto simp: InternalPage node_fits_def header_vals_def intro!: parses_bind_ret\<close>)
  from run_reader_parses [OF this] show ?thesis
    by (simp add: InternalPage decode_page_def slotted_def)
next
  case (LeafPage l r slots)
  let ?recs = "map leaf_record slots"
  note recs = node_records_laws(4) [OF assms LeafPage]
  note P = slotted_parses [OF _ _ _ _ recs, of ps l r LEAF]
  have "parses (read_page_body (slotted LEAF l r ?recs ps))
      (page_header LEAF (length ?recs) (32 + 8 * length ?recs) (ps - recs_size ?recs) l r @
       dir_bytes (slot_dir ps ?recs)) (Node n)"
    unfolding read_page_body_def
    by (rule parses_bind [OF P(1)])
       (use node_fits_records [OF assms] assms P(2) in
         \<open>auto simp: LeafPage node_fits_def header_vals_def intro!: parses_bind_ret\<close>)
  from run_reader_parses [OF this] show ?thesis
    by (simp add: LeafPage decode_page_def slotted_def)
qed

lemma length_node_bytes [len_simps]: "node_fits ps n \<Longrightarrow> length (node_bytes n ps) = ps"
  using node_fits_records [of ps n] by (cases n) (simp_all add: length_slotted)

section \<open>Freelist pages: round trip\<close>

definition freelist_fits :: "nat \<Rightarrow> freelist_page \<Rightarrow> bool" where
  "freelist_fits ps f \<longleftrightarrow> fl_last_modified_lsn f < 256 ^ 8 \<and> next_freelist_page_id f < 256 ^ 8 \<and>
     list_all (\<lambda>i. i < 256 ^ 8) (freed_page_ids f) \<and> 32 \<le> ps \<and> ps < 256 ^ 4 \<and>
     int (length (freed_page_ids f)) \<le> get_max_freed_ids_per_freelist_page ps"

definition ids_bytes :: "nat list \<Rightarrow> bytes" where
  "ids_bytes is = concat (map (le_enc 8) is)"

fun freelist_bytes :: "freelist_page \<Rightarrow> nat \<Rightarrow> bytes" where
  "freelist_bytes (FreelistPage l nxt ids) ps =
     page_header FREELIST (length ids) 0 0 l nxt @ ids_bytes ids @ replicate (ps - (32 + 8 * length ids)) 0"

lemma length_ids_bytes [simp]: "length (ids_bytes is) = 8 * length is"
  by (induction "is") (simp_all add: ids_bytes_def)

lemma emits_page_ids: "list_all (\<lambda>i. i < 256 ^ 8) is \<Longrightarrow> emits (write_page_ids is) (ids_bytes is)"
proof (induction "is")
  case Nil
  then show ?case by (simp add: emits_def ids_bytes_def)
next
  case (Cons i "is")
  then show ?case
    using emits_bind [OF emits_struct [OF pack_uint(2)], of i "write_page_ids is" "ids_bytes is"]
    by (simp add: ids_bytes_def)
qed

lemma parses_page_ids:
  "list_all (\<lambda>i. i < 256 ^ 8) is \<Longrightarrow> parses (read_page_ids (length is)) (ids_bytes is) is"
proof (induction "is")
  case Nil
  then show ?case by (simp add: parses_def ids_bytes_def)
next
  case (Cons i "is")
  then have IH: "parses (read_page_ids (length is)) (ids_bytes is) is" by simp
  have "parses (read_struct PAGE_ID_FIELD) (le_enc 8 i) [VInt i]"
    using Cons.prems by (intro parses_page_id) simp
  then have "parses (read_page_ids (Suc (length is))) (le_enc 8 i @ ids_bytes is) (i # is)"
    unfolding read_page_ids.simps
    by (rule parses_bind) (rule parses_bind_lift [where x = i], simp, rule parses_bind_ret [OF IH refl])
  then show ?case by (simp add: ids_bytes_def)
qed

lemma freelist_capacity:
  "32 \<le> ps \<Longrightarrow> int n \<le> get_max_freed_ids_per_freelist_page ps \<longleftrightarrow> 32 + 8 * n \<le> ps"
  unfolding get_max_freed_ids_per_freelist_page_def by simp linarith

lemma freelist_fits_room: "freelist_fits ps f \<Longrightarrow> 32 + 8 * length (freed_page_ids f) \<le> ps"
  by (auto simp: freelist_fits_def freelist_capacity)

lemma encode_freelist_ok:
  assumes "freelist_fits ps f"
  shows "encode_page (Freelist f) ps = Inr (freelist_bytes f ps)"
proof (cases f)
  case (FreelistPage l nxt ids)
  have "run_writer (write_page_ids ids) = Inr \<lparr>wr_buffer = ids_bytes ids\<rparr>"
    using assms by (intro run_writer_emits emits_page_ids) (simp add: freelist_fits_def FreelistPage)
  moreover have "32 + 8 * length ids \<le> ps"
    using freelist_fits_room [OF assms] by (simp add: FreelistPage)
  ultimately show ?thesis
    using assms by (simp add: FreelistPage freelist_fits_def finish_page_ok)
qed

lemma decode_freelist_ok:
  assumes "freelist_fits ps f"
  shows "decode_page (freelist_bytes f ps) = Inr (Freelist f)"
proof (cases f)
  case (FreelistPage l nxt ids)
  let ?h = "header_vals FREELIST (length ids) 0 0 l nxt"
  have hdr: "parses (read_struct PAGE_HEADER) (page_header FREELIST (length ids) 0 0 l nxt) ?h"
    using assms by (intro parses_read_struct [of PAGE_HEADER ?h, unfolded header_bytes] header_vals_exact)
      (auto simp: freelist_fits_def FreelistPage freelist_capacity)
  have ids: "parses (read_page_ids (length ids)) (ids_bytes ids) ids"
    using assms by (intro parses_page_ids) (simp add: freelist_fits_def FreelistPage)
  have "parses (read_page_body (freelist_bytes f ps))
      (page_header FREELIST (length ids) 0 0 l nxt @ ids_bytes ids) (Freelist f)"
    unfolding read_page_body_def
    by (rule parses_bind [OF hdr])
       (auto simp: FreelistPage header_vals_def intro!: parses_bind_ret [OF ids])
  from run_reader_parses [OF this] show ?thesis
    by (simp add: FreelistPage decode_page_def)
qed

lemma length_freelist_bytes [len_simps]:
  "freelist_fits ps f \<Longrightarrow> length (freelist_bytes f ps) = ps"
  using freelist_fits_room [of ps f] by (cases f) simp

section \<open>What a wire format promises\<close>

text \<open>
  The contract the pager, the buffer pool and the log rely on: everything that fits is encoded, and
  decoding the encoding gives it back.
\<close>

locale wire_format =
  fixes encode :: "'a \<Rightarrow> bytes result"
    and decode :: "bytes \<Rightarrow> 'a result"
    and fits :: "'a \<Rightarrow> bool"
  assumes encode_total: "fits x \<Longrightarrow> \<exists>b. encode x = Inr b"
    and decode_encode: "fits x \<Longrightarrow> encode x = Inr b \<Longrightarrow> decode b = Inr x"
begin

lemma round_trip: "fits x \<Longrightarrow> bind_r (encode x) decode = Inr x"
  using encode_total [of x] by (auto simp: decode_encode)

lemma encode_inj: "fits x \<Longrightarrow> fits y \<Longrightarrow> encode x = encode y \<Longrightarrow> x = y"
  using encode_total [of x] by (metis decode_encode sum.inject(2))

end

fun page_fits :: "nat \<Rightarrow> page \<Rightarrow> bool" where
  "page_fits ps (Node n) = node_fits ps n"
| "page_fits ps (Freelist f) = freelist_fits ps f"

fun page_bytes :: "page \<Rightarrow> nat \<Rightarrow> bytes" where
  "page_bytes (Node n) ps = node_bytes n ps"
| "page_bytes (Freelist f) ps = freelist_bytes f ps"

lemma encode_page_ok: "page_fits ps p \<Longrightarrow> encode_page p ps = Inr (page_bytes p ps)"
  by (cases p) (simp_all add: encode_node_ok encode_freelist_ok)

lemma decode_page_ok: "page_fits ps p \<Longrightarrow> decode_page (page_bytes p ps) = Inr p"
  by (cases p) (simp_all add: decode_node_ok decode_freelist_ok)

lemma length_page_bytes [len_simps]: "page_fits ps p \<Longrightarrow> length (page_bytes p ps) = ps"
  by (cases p) (simp_all add: length_node_bytes length_freelist_bytes)

interpretation wal_format: wire_format encode_wal_record decode_wal_record wal_ok
  by unfold_locales (auto simp: encode_wal_record_ok decode_wal_record_ok)

interpretation meta_format: wire_format encode_meta_page decode_meta_page meta_ok
proof unfold_locales
  fix x b assume "meta_ok x" "encode_meta_page x = Inr b"
  then show "decode_meta_page b = Inr x"
    using decode_meta_page_ok [of x "[]"] by (simp add: encode_meta_page_ok)
qed (simp add: encode_meta_page_ok)

interpretation page_format: wire_format "\<lambda>p. encode_page p ps" decode_page "page_fits ps" for ps
  by unfold_locales (auto simp: encode_page_ok decode_page_ok)

section \<open>Encoding failures\<close>

text \<open>Outside its range every field makes the encoder raise \<^verbatim>\<open>struct.error\<close>.\<close>

definition fails :: "(buffer_writer, unit) op \<Rightarrow> bool" where
  "fails m \<longleftrightarrow> (\<forall>w. \<exists>w'. m w = (Inl StructError, w'))"

lemma failsE: "fails m \<Longrightarrow> (\<And>w'. m w = (Inl StructError, w') \<Longrightarrow> P) \<Longrightarrow> P"
  by (auto simp: fails_def)

lemma fails_bind1: "fails m \<Longrightarrow> fails (bind_op m f)"
  unfolding fails_def by (metis bind_op_Inl)

lemma fails_bind2: "emits m b \<Longrightarrow> fails (f ()) \<Longrightarrow> fails (bind_op m f)"
  by (simp add: fails_def emits_def bind_op_def)

lemma fails_struct: "\<not> list_all2 field_ok st vs \<Longrightarrow> fails (write_struct st vs)"
  by (simp add: fails_def pack_def write_struct_def)

lemma run_writer_fails: "fails m \<Longrightarrow> run_writer m = Inl StructError"
  by (erule failsE [where w = BufferWriter]) (simp add: run_writer_def)

lemma fails_lp: "256 ^ 4 \<le> length b \<Longrightarrow> fails (write_length_prefixed_bytes b LENGTH_FIELD)"
  unfolding write_length_prefixed_bytes_def
  by (intro fails_bind1 fails_struct) (simp add: struct_defs)

lemma fails_uint64: "256 ^ 8 \<le> v \<Longrightarrow> fails (write_struct UINT64_FIELD [VInt v])"
  by (intro fails_struct) (simp add: struct_defs)

text \<open>Either the payload is written in full, or writing it raises.\<close>

lemma write_wal_payload_cases:
  "wal_fields_ok rec \<and> emits (write_wal_payload rec) (wal_payload rec) \<or>
   fails (write_wal_payload rec)"
proof (cases rec)
  case (WALPutRecord l k v)
  have "emits (write_length_prefixed_bytes b LENGTH_FIELD) (lp b) \<or>
      fails (write_length_prefixed_bytes b LENGTH_FIELD)" for b
    by (metis emits_lp fails_lp linorder_not_less)
  from this [of k] this [of v] show ?thesis
    by (auto simp: WALPutRecord intro: emits_bind fails_bind1 fails_bind2)
next
  case (WALDeleteRecord l k)
  show ?thesis
    using emits_lp [of k] fails_lp [of k] by (cases "length k < 256 ^ 4") (auto simp: WALDeleteRecord)
next
  case (WALCheckpointRecord l a b c)
  have u: "v < 256 ^ 8 \<Longrightarrow> emits (write_struct UINT64_FIELD [VInt v]) (le_enc 8 v)" for v
    by (intro emits_struct pack_uint)
  show ?thesis
    using u [of a] u [of b] u [of c] fails_uint64 [of a] fails_uint64 [of b] fails_uint64 [of c]
    by (cases "a < 256 ^ 8"; cases "b < 256 ^ 8"; cases "c < 256 ^ 8")
       (auto simp: WALCheckpointRecord intro!: emits_bind intro: fails_bind1 fails_bind2)
qed

lemma encode_wal_record_fails:
  assumes "\<not> wal_ok rec"
  shows "encode_wal_record rec = Inl StructError"
proof (cases "fails (write_wal_payload rec)")
  case True
  then show ?thesis by (simp add: encode_wal_record_def run_writer_fails)
next
  case False
  then have flds: "wal_fields_ok rec" and payload: "emits (write_wal_payload rec) (wal_payload rec)"
    using write_wal_payload_cases by blast+
  show ?thesis
  proof (cases "lsn rec < 256 ^ 8")
    case False
    then have "fails (write_struct WAL_RECORD_HEADER
        [VInt (lsn rec), VInt (wal_op_code (wal_op_type rec))])"
      by (intro fails_struct) (simp add: struct_defs)
    then show ?thesis
      by (simp add: encode_wal_record_def run_writer_fails run_writer_emits [OF payload])
  next
    case lsn: True
    have header: "emits (write_struct WAL_RECORD_HEADER
        [VInt (lsn rec), VInt (wal_op_code (wal_op_type rec))]) (wal_header rec)"
      using lsn by (intro emits_struct pack_wal_header)
    have "256 ^ 4 \<le> length (wal_header rec) + length (wal_payload rec) + 4"
      using assms lsn flds by (simp add: wal_ok_def length_wal_body)
    then have "fails (write_struct LENGTH_FIELD
        [VInt (length (wal_header rec) + length (wal_payload rec) + 4)])"
      by (intro fails_struct) (simp add: struct_defs)
    then show ?thesis
      by (simp add: encode_wal_record_def run_writer_emits [OF payload] run_writer_emits [OF header]
          run_writer_fails fails_bind1)
  qed
qed

section \<open>Properties of the codec\<close>

text \<open>
  C14: every log record whose fields fit their on-disk widths is encoded, decoding the bytes gives the
  record back, and reading from a file that continues with anything stops right after the record.
\<close>

theorem wal_record_round_trip:
  assumes "wal_ok rec"
  shows "\<exists>b. encode_wal_record rec = Inr b \<and> decode_wal_record b = Inr rec \<and>
     decode_next_wal_record_from_file (b @ rest) = (Inr rec, rest)"
  using encode_wal_record_ok [OF assms] wal_format.decode_encode [OF assms] decode_next_ok [OF assms]
  by blast

theorem wal_record_round_trip_witness:
  "\<exists>b. encode_wal_record (WALPutRecord 7 [104, 105] []) = Inr b \<and>
     decode_wal_record b = Inr (WALPutRecord 7 [104, 105] []) \<and>
     decode_next_wal_record_from_file (b @ [0]) = (Inr (WALPutRecord 7 [104, 105] []), [0])"
  by (rule wal_record_round_trip) (simp add: wal_ok_def wal_body_def wal_header_def lp_def)

text \<open>
  C22: a record cut short at any byte, as a crash in the middle of an append leaves it, is reported as
  the end of the file, never as a record and never as another error.
\<close>

theorem torn_wal_record_is_eof:
  assumes "encode_wal_record rec = Inr b" and "n < length b"
  shows "fst (decode_next_wal_record_from_file (take n b)) = Inl EOFError"
proof -
  have "wal_ok rec" using assms(1) encode_wal_record_fails by fastforce
  moreover have "wal_bytes rec = take n b @ drop n b"
    using assms(1) encode_wal_record_ok [OF calculation] by simp
  ultimately show ?thesis by (rule decode_next_torn) (use assms(2) in simp)
qed

theorem torn_wal_record_is_eof_witness:
  "\<exists>b. encode_wal_record (WALDeleteRecord 3 [1]) = Inr b \<and>
     fst (decode_next_wal_record_from_file (take 20 b)) = Inl EOFError"
proof -
  have ok: "wal_ok (WALDeleteRecord 3 [1])" by (simp add: wal_ok_def wal_body_def wal_header_def lp_def)
  have "20 < length (wal_bytes (WALDeleteRecord 3 [1]))" by (simp add: length_wal_bytes)
  from torn_wal_record_is_eof [OF encode_wal_record_ok [OF ok] this] encode_wal_record_ok [OF ok]
  show ?thesis by blast
qed

text \<open>
  C21: changing any one byte of an encoded record to any other value makes decoding it raise
  \<^verbatim>\<open>DBChecksumError\<close>; the CRC-32 misses no single-byte corruption.
\<close>

theorem corrupt_wal_record_detected:
  assumes "encode_wal_record rec = Inr b" and "i < length b" and "x \<noteq> b ! i"
  shows "\<exists>stored actual. decode_wal_record (b[i := x]) = Inl (DBChecksumError stored actual)"
proof -
  have "wal_ok rec" using assms(1) encode_wal_record_fails by fastforce
  then have "wal_bytes rec = take i b @ b ! i # drop (Suc i) b"
    using assms(1,2) encode_wal_record_ok [of rec] by (simp add: id_take_nth_drop [symmetric])
  from decode_wal_record_corrupt [OF this, of x] assms(2,3) show ?thesis
    by (auto simp: upd_conv_take_nth_drop)
qed

theorem corrupt_wal_record_detected_witness:
  "\<exists>b stored actual. encode_wal_record (WALDeleteRecord 3 [1]) = Inr b \<and>
     decode_wal_record (b[0 := b ! 0 + 1]) = Inl (DBChecksumError stored actual)"
proof -
  have ok: "wal_ok (WALDeleteRecord 3 [1])" by (simp add: wal_ok_def wal_body_def wal_header_def lp_def)
  have "0 < length (wal_bytes (WALDeleteRecord 3 [1]))" by (simp add: length_wal_bytes)
  from corrupt_wal_record_detected [OF encode_wal_record_ok [OF ok] this] encode_wal_record_ok [OF ok]
  show ?thesis by (metis add_cancel_left_right zero_neq_one)
qed

text \<open>
  C28: a log that ends in four zero bytes, as a file system that extended the file before its data
  reached the disk leaves it, is not treated as a torn tail: the empty frame passes the checksum test
  (the CRC-32 of no bytes is zero) and unpacking its header raises \<^verbatim>\<open>struct.error\<close>.
\<close>

theorem zero_filled_tail_raises_struct_error:
  "decode_next_wal_record_from_file (replicate 4 0 @ rest) = (Inl StructError, rest)"
proof -
  have "decode_wal_record (replicate 4 0) = Inl StructError"
    using verify_crc32_append [of "replicate 4 0" "[]"]
    by (simp add: decode_wal_record_def crc32_Nil read_wal_body_def run_reader_def BufferReader_def
        bind_op_def op_simps eval_nat_numeral unpack_from_def struct_defs py_slice_def)
  then show ?thesis
    by (simp add: decode_next_wal_record_from_file_def unpack_def struct_defs eval_nat_numeral)
qed

text \<open>
  The meta page survives its page on disk: its encoding is exactly one page long and decodes to
  the same meta page, whatever follows it in the buffer.
\<close>

lemma meta_page_round_trip:
  assumes "meta_ok m"
  shows "\<exists>b. encode_meta_page m = Inr b \<and> length b = page_size_bytes m \<and>
     decode_meta_page (b @ rest) = Inr m"
  using assms by (simp add: encode_meta_page_ok decode_meta_page_ok length_meta_bytes)

text \<open>
  C15: a tree node whose computed size is at most the page size, or a freelist page within its capacity,
  is encoded to exactly one page and decoded back to itself. The sizes the tree bases its split and
  merge decisions on are therefore the sizes the encoder needs.
\<close>

theorem page_round_trip:
  assumes "page_fits ps p"
  shows "\<exists>b. encode_page p ps = Inr b \<and> length b = ps \<and> decode_page b = Inr p"
  using assms page_format.encode_total page_format.decode_encode
  by (metis encode_page_ok length_page_bytes)

theorem page_round_trip_witness:
  "\<exists>b. encode_page (Node (LeafPage 5 0 [LeafSlot [1] [2, 3], LeafSlot [4] []])) 128 = Inr b \<and>
     length b = 128 \<and> decode_page b = Inr (Node (LeafPage 5 0 [LeafSlot [1] [2, 3], LeafSlot [4] []]))"
  by (rule page_round_trip)
     (simp add: node_fits_def calculate_page_size_sum calculate_leaf_slot_size_def)

text \<open>
  The record size limit leaves room for five records: any leaf holding up to five records, each no
  larger than the limit, is encodable on one page.
\<close>

lemma five_maximal_records_fit:
  assumes "\<forall>s \<in> set slots. int (calculate_leaf_record_size (lkey s) (lvalue s)) \<le> get_max_leaf_record_size ps"
    and "length slots \<le> 5" and "32 \<le> ps" and "ps < 256 ^ 4" and "l < 256 ^ 8" and "r < 256 ^ 8"
  shows "\<exists>b. encode_page (Node (LeafPage l r slots)) ps = Inr b \<and> length b = ps"
proof -
  let ?q = "nat ((int ps - 32) div 5)"
  have each: "calculate_leaf_slot_size s True \<le> ?q" if "s \<in> set slots" for s
    using assms(1) that
    by (auto simp: calculate_leaf_record_size_def get_max_leaf_record_size_def calculate_leaf_slot_size_def)
  have "sum_list (map (\<lambda>s. calculate_leaf_slot_size s True) slots) \<le> sum_list (map (\<lambda>s. ?q) slots)"
    using each by (rule sum_list_mono)
  also have "\<dots> \<le> 5 * ?q" using assms(2) by (simp add: sum_list_triv)
  also have "\<dots> \<le> ps - 32" using assms(3) by simp
  finally have "node_fits ps (LeafPage l r slots)"
    using assms(3-) by (simp add: node_fits_def calculate_page_size_sum)
  then show ?thesis using encode_node_ok length_node_bytes by blast
qed

end
