(* ===== verification/Pager.thy ===== *)
theory Pager
  imports Codec
begin

text \<open>
  The pager of \<^verbatim>\<open>src/bptreedb/pager.py\<close>: a file of fixed-size pages, the in-memory meta page, and
  the allocator with its on-disk freelist.

  The state is the record \<open>pager\<close>, one field per attribute. The page file is a byte string, present
  or not (\<open>pg_disk\<close>); \<open>pg_durable\<close> is its contents at the last \<^verbatim>\<open>fsync\<close>, what a crash is
  guaranteed to leave. The record is extensible and every method is polymorphic in the extension, so
  the buffer pool and the tree, which hold a reference to the pager, extend its state.

  The lemmas show that pages are independent (writing one leaves the others), that the allocator
  refines a set of free page IDs plus a bump pointer (\<open>pager_ok\<close>), and that flushing the freelist
  makes the file agree with memory. The locale \<open>page_allocator\<close> states what the tree needs of
  allocation: a page handed out is in nobody's use.
\<close>

section \<open>State\<close>

definition META_PAGE_ID :: nat where "META_PAGE_ID = 0"
definition DEFAULT_ROOT_PAGE_ID :: nat where "DEFAULT_ROOT_PAGE_ID = 1"

record pager_stats =
  page_reads :: nat
  page_writes :: nat
  pages_allocated :: nat
  pages_freed :: nat
  pages_reused_from_freelist :: nat
  meta_flushes :: nat
  fsyncs :: nat

definition fresh_pager_stats :: pager_stats where
  "fresh_pager_stats = \<lparr>page_reads = 0, page_writes = 0, pages_allocated = 0, pages_freed = 0,
     pages_reused_from_freelist = 0, meta_flushes = 0, fsyncs = 0\<rparr>"

text \<open>\<^verbatim>\<open>PagerStats.reset\<close>: every counter back to its initial value.\<close>

definition pager_stats_reset :: "pager_stats \<Rightarrow> pager_stats" where
  "pager_stats_reset st = st\<lparr>page_reads := 0, page_writes := 0, pages_allocated := 0,
     pages_freed := 0, pages_reused_from_freelist := 0, meta_flushes := 0, fsyncs := 0\<rparr>"

record pager =
  pg_disk :: "bytes option"
  pg_durable :: "bytes option"
  pg_open :: bool
  pg_page_size :: nat
  pg_meta :: "meta_page option"
  pg_is_meta_dirty :: bool
  pg_freelist_cache :: "nat \<rightharpoonup> freelist_page"
  pg_dirty_freelist_page_ids :: "nat set"
  pg_stats :: pager_stats

text \<open>\<^verbatim>\<open>Pager(path, page_size_bytes=...)\<close>, given what is at the path.\<close>

definition Pager_init :: "bytes option \<Rightarrow> nat \<Rightarrow> pager result" where
  "Pager_init path_contents ps =
     (if ps < MIN_PAGE_SIZE then Inl ValueError
      else Inr \<lparr>pg_disk = path_contents, pg_durable = path_contents, pg_open = False,
                pg_page_size = ps, pg_meta = None, pg_is_meta_dirty = False,
                pg_freelist_cache = Map.empty, pg_dirty_freelist_page_ids = {},
                pg_stats = fresh_pager_stats\<rparr>)"

definition pg_bump_stat :: "(pager_stats \<Rightarrow> pager_stats) \<Rightarrow> ('z pager_scheme, unit) op" where
  "pg_bump_stat f = modify_op (\<lambda>s. s\<lparr>pg_stats := f (pg_stats s)\<rparr>)"

definition file_bytes :: "'z pager_scheme \<Rightarrow> bytes" where
  "file_bytes s = (case pg_disk s of None \<Rightarrow> [] | Some b \<Rightarrow> b)"

definition require_open :: "('z pager_scheme, unit) op" where
  "require_open = bind_op (gets_op pg_open) assert_op"

text \<open>\<^verbatim>\<open>assert self._meta_page is not None\<close>, giving the page.\<close>

definition require_meta :: "('z pager_scheme, meta_page) op" where
  "require_meta = bind_op (gets_op pg_meta) (\<lambda>m.
     case m of None \<Rightarrow> raise AssertionError | Some m \<Rightarrow> ret m)"

section \<open>File access\<close>

text \<open>Writing at a position of a file: a gap past the end reads as zeros.\<close>

definition write_at :: "nat \<Rightarrow> bytes \<Rightarrow> bytes \<Rightarrow> bytes" where
  "write_at off data file =
     take off file @ replicate (off - length file) 0 @ data @ drop (off + length data) file"

definition read_page :: "nat \<Rightarrow> ('z pager_scheme, bytes) op" where
  "read_page page_id =
     bind_op require_open (\<lambda>_.
     bind_op (gets_op (\<lambda>s. py_slice (page_id * pg_page_size s)
                (page_id * pg_page_size s + pg_page_size s) (file_bytes s))) (\<lambda>data.
     bind_op (gets_op pg_page_size) (\<lambda>ps.
     if page_id \<noteq> META_PAGE_ID \<and> length data \<noteq> ps
     then raise (DBCorruptedError ''Unexpected end of file while reading page'')
     else bind_op (pg_bump_stat (\<lambda>st. st\<lparr>page_reads := page_reads st + 1\<rparr>)) (\<lambda>_.
          ret data))))"

definition write_page :: "nat \<Rightarrow> bytes \<Rightarrow> ('z pager_scheme, unit) op" where
  "write_page page_id data =
     bind_op require_open (\<lambda>_.
     bind_op (modify_op (\<lambda>s. s\<lparr>pg_disk :=
                Some (write_at (page_id * pg_page_size s) data (file_bytes s))\<rparr>)) (\<lambda>_.
     pg_bump_stat (\<lambda>st. st\<lparr>page_writes := page_writes st + 1\<rparr>)))"

definition fsync :: "('z pager_scheme, unit) op" where
  "fsync =
     bind_op require_open (\<lambda>_.
     bind_op (modify_op (\<lambda>s. s\<lparr>pg_durable := pg_disk s\<rparr>)) (\<lambda>_.
     pg_bump_stat (\<lambda>st. st\<lparr>fsyncs := fsyncs st + 1\<rparr>)))"

definition extend_file_by_one_page :: "('z pager_scheme, unit) op" where
  "extend_file_by_one_page =
     bind_op require_open (\<lambda>_.
     modify_op (\<lambda>s. s\<lparr>pg_disk := Some (file_bytes s @ replicate (pg_page_size s) 0)\<rparr>))"

section \<open>The meta page\<close>

definition page_count :: "('z pager_scheme, nat) op" where
  "page_count = bind_op require_meta (\<lambda>m. ret (next_page_id m))"

definition get_meta :: "('z pager_scheme, meta_page) op" where
  "get_meta = require_meta"

text \<open>\<^verbatim>\<open>update_meta(**fields)\<close>: the assignments to the given fields are the function argument.\<close>

definition update_meta :: "(meta_page \<Rightarrow> meta_page) \<Rightarrow> ('z pager_scheme, unit) op" where
  "update_meta assign =
     bind_op require_meta (\<lambda>m.
     modify_op (\<lambda>s. s\<lparr>pg_meta := Some (assign m), pg_is_meta_dirty := True\<rparr>))"

definition flush_meta :: "('z pager_scheme, unit) op" where
  "flush_meta =
     bind_op require_meta (\<lambda>m.
     bind_op (lift_r (encode_meta_page m)) (\<lambda>data.
     bind_op (write_page META_PAGE_ID data) (\<lambda>_.
     bind_op (modify_op (\<lambda>s. s\<lparr>pg_is_meta_dirty := False\<rparr>)) (\<lambda>_.
     pg_bump_stat (\<lambda>st. st\<lparr>meta_flushes := meta_flushes st + 1\<rparr>)))))"

section \<open>The freelist and the allocator\<close>

definition get_freelist_page :: "nat \<Rightarrow> ('z pager_scheme, freelist_page) op" where
  "get_freelist_page page_id =
     bind_op (gets_op (\<lambda>s. pg_freelist_cache s page_id)) (\<lambda>cached.
     case cached of
       Some page \<Rightarrow> ret page
     | None \<Rightarrow>
         bind_op (read_page page_id) (\<lambda>data.
         bind_op (lift_r (decode_page data)) (\<lambda>page.
         case page of
           Node _ \<Rightarrow> raise AssertionError
         | Freelist f \<Rightarrow>
             bind_op (modify_op (\<lambda>s. s\<lparr>pg_freelist_cache := (pg_freelist_cache s)(page_id \<mapsto> f)\<rparr>))
               (\<lambda>_. ret f))))"

definition read_freelist_head_page :: "('z pager_scheme, freelist_page) op" where
  "read_freelist_head_page =
     bind_op require_meta (\<lambda>m. get_freelist_page (freelist_head_page_id m))"

definition mark_freelist_page_dirty :: "nat \<Rightarrow> freelist_page \<Rightarrow> ('z pager_scheme, unit) op" where
  "mark_freelist_page_dirty page_id page = modify_op (\<lambda>s.
     s\<lparr>pg_freelist_cache := (pg_freelist_cache s)(page_id \<mapsto> page),
       pg_dirty_freelist_page_ids := insert page_id (pg_dirty_freelist_page_ids s)\<rparr>)"

definition forget_freelist_page :: "nat \<Rightarrow> ('z pager_scheme, unit) op" where
  "forget_freelist_page page_id = modify_op (\<lambda>s.
     s\<lparr>pg_freelist_cache := (pg_freelist_cache s)(page_id := None),
       pg_dirty_freelist_page_ids := pg_dirty_freelist_page_ids s - {page_id}\<rparr>)"

fun flush_freelist_ids :: "nat list \<Rightarrow> ('z pager_scheme, unit) op" where
  "flush_freelist_ids [] = ret ()"
| "flush_freelist_ids (page_id # ids) =
     bind_op (gets_op (\<lambda>s. pg_freelist_cache s page_id)) (\<lambda>cached.
     case cached of
       None \<Rightarrow> flush_freelist_ids ids
     | Some page \<Rightarrow>
         bind_op (gets_op pg_page_size) (\<lambda>ps.
         bind_op (lift_r (encode_page (Freelist page) ps)) (\<lambda>data.
         bind_op (write_page page_id data) (\<lambda>_.
         flush_freelist_ids ids))))"

definition flush_dirty_freelist_pages :: "('z pager_scheme, unit) op" where
  "flush_dirty_freelist_pages =
     bind_op (gets_op (\<lambda>s. sorted_list_of_set (pg_dirty_freelist_page_ids s))) (\<lambda>ids.
     bind_op (flush_freelist_ids ids) (\<lambda>_.
     modify_op (\<lambda>s. s\<lparr>pg_dirty_freelist_page_ids := {}\<rparr>)))"

definition bump_allocate_one_page :: "('z pager_scheme, nat) op" where
  "bump_allocate_one_page =
     bind_op require_meta (\<lambda>m.
     let page_id = next_page_id m in
     bind_op extend_file_by_one_page (\<lambda>_.
     bind_op (update_meta (next_page_id_update (\<lambda>_. page_id + 1))) (\<lambda>_.
     bind_op (pg_bump_stat (\<lambda>st. st\<lparr>pages_allocated := pages_allocated st + 1\<rparr>)) (\<lambda>_.
     ret page_id))))"

definition allocate_page :: "('z pager_scheme, nat) op" where
  "allocate_page =
     bind_op require_meta (\<lambda>m.
     if freelist_head_page_id m \<noteq> 0 then
       bind_op read_freelist_head_page (\<lambda>fl.
       if freed_page_ids fl \<noteq> [] then
         (let page_id = last (freed_page_ids fl);
              fl' = FreelistPage (fl_last_modified_lsn fl) (next_freelist_page_id fl)
                      (butlast (freed_page_ids fl))
          in bind_op (mark_freelist_page_dirty (freelist_head_page_id m) fl') (\<lambda>_.
             bind_op (forget_freelist_page page_id) (\<lambda>_.
             bind_op (pg_bump_stat (\<lambda>st. st\<lparr>pages_reused_from_freelist :=
               pages_reused_from_freelist st + 1\<rparr>)) (\<lambda>_.
             ret page_id))))
       else
         (let page_id = freelist_head_page_id m
          in bind_op (update_meta (freelist_head_page_id_update (\<lambda>_. next_freelist_page_id fl))) (\<lambda>_.
             bind_op (forget_freelist_page page_id) (\<lambda>_.
             bind_op (pg_bump_stat (\<lambda>st. st\<lparr>pages_reused_from_freelist :=
               pages_reused_from_freelist st + 1\<rparr>)) (\<lambda>_.
             ret page_id)))))
     else bump_allocate_one_page)"

text \<open>The second half of \<^verbatim>\<open>free_page\<close>: no room in the head page, so a new head page is bump-allocated.\<close>

definition free_page_new_head :: "nat \<Rightarrow> ('z pager_scheme, unit) op" where
  "free_page_new_head page_id =
     bind_op bump_allocate_one_page (\<lambda>new_head_page_id.
     bind_op require_meta (\<lambda>m.
     bind_op (mark_freelist_page_dirty new_head_page_id
               (FreelistPage 0 (freelist_head_page_id m) [page_id])) (\<lambda>_.
     update_meta (freelist_head_page_id_update (\<lambda>_. new_head_page_id)))))"

definition free_page :: "nat \<Rightarrow> ('z pager_scheme, unit) op" where
  "free_page page_id =
     bind_op require_meta (\<lambda>m.
     bind_op (pg_bump_stat (\<lambda>st. st\<lparr>pages_freed := pages_freed st + 1\<rparr>)) (\<lambda>_.
     if freelist_head_page_id m \<noteq> 0 then
       bind_op read_freelist_head_page (\<lambda>fl.
       bind_op (gets_op (\<lambda>s. get_max_freed_ids_per_freelist_page (pg_page_size s))) (\<lambda>max_entries.
       if int (length (freed_page_ids fl)) < max_entries then
         mark_freelist_page_dirty (freelist_head_page_id m)
           (FreelistPage (fl_last_modified_lsn fl) (next_freelist_page_id fl)
              (freed_page_ids fl @ [page_id]))
       else free_page_new_head page_id))
     else free_page_new_head page_id))"

section \<open>Opening and closing\<close>

definition bootstrap_initial_db :: "('z pager_scheme, unit) op" where
  "bootstrap_initial_db =
     bind_op (modify_op (\<lambda>s. s\<lparr>pg_meta := Some \<lparr>page_size_bytes = pg_page_size s,
       root_page_id = DEFAULT_ROOT_PAGE_ID, next_page_id = DEFAULT_ROOT_PAGE_ID,
       freelist_head_page_id = 0, last_checkpoint_lsn = 0\<rparr>\<rparr>)) (\<lambda>_.
     bind_op allocate_page (\<lambda>leaf_page_id.
     bind_op (gets_op pg_page_size) (\<lambda>ps.
     bind_op (lift_r (encode_page (Node (LeafPage 0 0 [])) ps)) (\<lambda>data.
     bind_op (write_page leaf_page_id data) (\<lambda>_.
     bind_op flush_meta (\<lambda>_.
     fsync))))))"

definition pager_open :: "('z pager_scheme, unit) op" where
  "pager_open =
     bind_op (gets_op pg_open) (\<lambda>is_open.
     if is_open then ret ()
     else bind_op (gets_op (\<lambda>s. pg_disk s \<noteq> None)) (\<lambda>file_already_existed.
       bind_op (modify_op (\<lambda>s. s\<lparr>pg_disk := Some (file_bytes s), pg_open := True\<rparr>)) (\<lambda>_.
       if \<not> file_already_existed then bootstrap_initial_db
       else bind_op (read_page META_PAGE_ID) (\<lambda>data.
            bind_op (lift_r (decode_meta_page data)) (\<lambda>m.
            modify_op (\<lambda>s. s\<lparr>pg_meta := Some m, pg_page_size := page_size_bytes m\<rparr>))))))"

definition pager_close :: "('z pager_scheme, unit) op" where
  "pager_close =
     bind_op (gets_op pg_open) (\<lambda>is_open.
     if \<not> is_open then ret ()
     else bind_op (bind_op (gets_op pg_dirty_freelist_page_ids) (\<lambda>d.
            if d \<noteq> {} then flush_dirty_freelist_pages else ret ())) (\<lambda>_.
          bind_op (bind_op (gets_op pg_is_meta_dirty) (\<lambda>d. if d then flush_meta else ret ())) (\<lambda>_.
          bind_op fsync (\<lambda>_.
          modify_op (\<lambda>s. s\<lparr>pg_open := False, pg_freelist_cache := Map.empty,
                           pg_dirty_freelist_page_ids := {}\<rparr>)))))"

definition pager_enter :: "('z pager_scheme, unit) op" where
  "pager_enter = pager_open"

definition pager_exit :: "('z pager_scheme, bool) op" where
  "pager_exit = bind_op pager_close (\<lambda>_. ret False)"

section \<open>Pages of a file are independent\<close>

definition disk_page :: "nat \<Rightarrow> bytes \<Rightarrow> nat \<Rightarrow> bytes option" where
  "disk_page ps file p =
     (let d = py_slice (p * ps) (p * ps + ps) file in if length d = ps then Some d else None)"

lemma disk_page_Some:
  "disk_page ps file p = Some d \<longleftrightarrow> p * ps + ps \<le> length file + (if ps = 0 then p * ps else 0) \<and>
     d = take ps (drop (p * ps) file)"
  by (auto simp: disk_page_def py_slice_def Let_def)

lemma disk_page_covered:
  "0 < ps \<Longrightarrow> p < n \<Longrightarrow> n * ps \<le> length file \<Longrightarrow> disk_page ps file p = Some (take ps (drop (p * ps) file))"
proof -
  assume "0 < ps" "p < n" "n * ps \<le> length file"
  moreover have "(p + 1) * ps \<le> n * ps" using \<open>p < n\<close> by (intro mult_le_mono1) simp
  ultimately show ?thesis by (simp add: disk_page_Some)
qed

lemma disk_page_append: "0 < ps \<Longrightarrow> disk_page ps file p = Some d \<Longrightarrow> disk_page ps (file @ ext) p = Some d"
  by (auto simp: disk_page_Some)

lemma disk_page_write_same:
  "length data = ps \<Longrightarrow> disk_page ps (write_at (p * ps) data file) p = Some data"
  by (simp add: disk_page_def write_at_def py_slice_def Let_def)

lemma pages_disjoint: "p \<noteq> q \<Longrightarrow> p * ps + ps \<le> q * ps \<or> q * ps + ps \<le> p * (ps::nat)"
proof -
  have "a < b \<Longrightarrow> a * ps + ps \<le> b * ps" for a b :: nat
    using mult_le_mono1 [of "a + 1" b ps] by simp
  then show "p \<noteq> q \<Longrightarrow> p * ps + ps \<le> q * ps \<or> q * ps + ps \<le> p * ps"
    by (meson linorder_neqE_nat)
qed

lemma cut_before:
  assumes "a + n \<le> off" and "a + n \<le> length file"
  shows "take n (drop a (take off file @ rest)) = take n (drop a file)"
proof -
  have "n \<le> length (drop a (take off file))" using assms by simp
  then have "take n (drop a (take off file @ rest)) = take n (drop a (take off file))"
    using assms by simp
  also have "\<dots> = take n (drop a file)" using assms by (simp add: drop_take)
  finally show ?thesis .
qed

lemma cut_after:
  "off + length data \<le> a \<Longrightarrow> a \<le> length file \<Longrightarrow>
     drop a (take off file @ replicate (off - length file) x @ data @ drop (off + length data) file) =
     drop a file"
  by simp

lemma disk_page_write_other:
  assumes "0 < ps" and "p \<noteq> q" and "length data = ps" and "disk_page ps file p = Some d"
  shows "disk_page ps (write_at (q * ps) data file) p = Some d"
proof -
  have len: "p * ps + ps \<le> length file" and d: "d = take ps (drop (p * ps) file)"
    using assms(1,4) by (simp_all add: disk_page_Some)
  from pages_disjoint [OF assms(2), of ps] show ?thesis
  proof
    assume before: "p * ps + ps \<le> q * ps"
    then have "take ps (drop (p * ps) (write_at (q * ps) data file)) = d"
      using len d by (simp add: write_at_def cut_before del: drop_append)
    then show ?thesis using len before assms(1,3) by (auto simp: disk_page_Some write_at_def)
  next
    assume after: "q * ps + ps \<le> p * ps"
    have "drop (p * ps) (write_at (q * ps) data file) = drop (p * ps) file"
      unfolding write_at_def by (rule cut_after) (use after len assms(3) in simp_all)
    then show ?thesis using len after d assms(1,3) by (auto simp: disk_page_Some write_at_def)
  qed
qed

lemma length_write_at: "length (write_at off data file) = max (off + length data) (length file)"
  by (simp add: write_at_def)

section \<open>Evaluating the pager's methods\<close>

text \<open>States that differ in the statistics only.\<close>

definition same_files :: "'z pager_scheme \<Rightarrow> 'z pager_scheme \<Rightarrow> bool" where
  "same_files s s' \<longleftrightarrow> (\<exists>st. s' = s\<lparr>pg_stats := st\<rparr>)"

lemma require_open_eval [op_simps]:
  "require_open s = (if pg_open s then Inr () else Inl AssertionError, s)"
  by (simp add: require_open_def)

lemma require_meta_eval [op_simps]:
  "require_meta s = (case pg_meta s of None \<Rightarrow> Inl AssertionError | Some m \<Rightarrow> Inr m, s)"
  by (simp add: require_meta_def split: option.split)

lemma bump_stat_eval [op_simps]: "pg_bump_stat f s = (Inr (), s\<lparr>pg_stats := f (pg_stats s)\<rparr>)"
  by (simp add: pg_bump_stat_def)

lemma read_page_ok:
  assumes "pg_open s" and "disk_page (pg_page_size s) (file_bytes s) p = Some d"
  shows "read_page p s = (Inr d, s\<lparr>pg_stats := (pg_stats s)\<lparr>page_reads := page_reads (pg_stats s) + 1\<rparr>\<rparr>)"
  using assms
  by (auto simp: read_page_def bind_op_def op_simps disk_page_def Let_def split: if_splits)

lemma read_page_short:
  assumes "pg_open s" and "p \<noteq> META_PAGE_ID" and "disk_page (pg_page_size s) (file_bytes s) p = None"
  shows "read_page p s = (Inl (DBCorruptedError ''Unexpected end of file while reading page''), s)"
  using assms
  by (simp add: read_page_def bind_op_def op_simps disk_page_def Let_def split: if_splits)

lemma write_page_ok:
  assumes "pg_open s"
  shows "write_page p data s = (Inr (), s\<lparr>pg_disk := Some (write_at (p * pg_page_size s) data (file_bytes s)),
     pg_stats := (pg_stats s)\<lparr>page_writes := page_writes (pg_stats s) + 1\<rparr>\<rparr>)"
  using assms by (simp add: write_page_def bind_op_def op_simps)

lemma fsync_ok:
  assumes "pg_open s"
  shows "fsync s = (Inr (), s\<lparr>pg_durable := pg_disk s,
     pg_stats := (pg_stats s)\<lparr>fsyncs := fsyncs (pg_stats s) + 1\<rparr>\<rparr>)"
  using assms by (simp add: fsync_def bind_op_def op_simps)

lemma update_meta_ok:
  "pg_meta s = Some m \<Longrightarrow> update_meta f s = (Inr (), s\<lparr>pg_meta := Some (f m), pg_is_meta_dirty := True\<rparr>)"
  by (simp add: update_meta_def bind_op_def op_simps)

lemma file_bytes_simps [simp]:
  "file_bytes (s\<lparr>pg_disk := Some b\<rparr>) = b"
  "file_bytes (s\<lparr>pg_stats := st\<rparr>) = file_bytes s"
  "file_bytes (s\<lparr>pg_meta := mo\<rparr>) = file_bytes s"
  "file_bytes (s\<lparr>pg_is_meta_dirty := d\<rparr>) = file_bytes s"
  "file_bytes (s\<lparr>pg_freelist_cache := c\<rparr>) = file_bytes s"
  "file_bytes (s\<lparr>pg_dirty_freelist_page_ids := ds\<rparr>) = file_bytes s"
  "file_bytes (s\<lparr>pg_durable := b'\<rparr>) = file_bytes s"
  "file_bytes (s\<lparr>pg_page_size := n\<rparr>) = file_bytes s"
  "file_bytes (s\<lparr>pg_open := opn\<rparr>) = file_bytes s"
  by (simp_all add: file_bytes_def)

lemma bump_allocate_ok:
  assumes "pg_open s" and "pg_meta s = Some m"
  shows "bump_allocate_one_page s = (Inr (next_page_id m),
     s\<lparr>pg_disk := Some (file_bytes s @ replicate (pg_page_size s) 0),
       pg_meta := Some (m\<lparr>next_page_id := next_page_id m + 1\<rparr>), pg_is_meta_dirty := True,
       pg_stats := (pg_stats s)\<lparr>pages_allocated := pages_allocated (pg_stats s) + 1\<rparr>\<rparr>)"
  using assms
  by (simp add: bump_allocate_one_page_def bind_op_def op_simps extend_file_by_one_page_def
      update_meta_def Let_def)

section \<open>The freelist as a chain of pages\<close>

definition disk_freelist :: "'z pager_scheme \<Rightarrow> nat \<Rightarrow> freelist_page option" where
  "disk_freelist s p = (case disk_page (pg_page_size s) (file_bytes s) p of
     None \<Rightarrow> None
   | Some d \<Rightarrow> (case decode_page d of Inr (Freelist f) \<Rightarrow> Some f | _ \<Rightarrow> None))"

definition fl_page :: "'z pager_scheme \<Rightarrow> nat \<Rightarrow> freelist_page option" where
  "fl_page s p = (case pg_freelist_cache s p of Some f \<Rightarrow> Some f | None \<Rightarrow> disk_freelist s p)"

fun fl_chain :: "(nat \<Rightarrow> freelist_page option) \<Rightarrow> nat \<Rightarrow> (nat \<times> freelist_page) list \<Rightarrow> bool" where
  "fl_chain look h [] \<longleftrightarrow> h = 0"
| "fl_chain look h ((p, f) # rest) \<longleftrightarrow>
     h = p \<and> p \<noteq> 0 \<and> look p = Some f \<and> fl_chain look (next_freelist_page_id f) rest"

definition fl_ids :: "(nat \<times> freelist_page) list \<Rightarrow> nat list" where
  "fl_ids chain = concat (map (\<lambda>(p, f). p # freed_page_ids f) chain)"

text \<open>Walking the freelist from its head, with a bound on the number of pages visited.\<close>

fun fl_walk :: "nat \<Rightarrow> (nat \<Rightarrow> freelist_page option) \<Rightarrow> nat \<Rightarrow> (nat \<times> freelist_page) list" where
  "fl_walk 0 look h = []"
| "fl_walk (Suc n) look h =
     (if h = 0 then [] else case look h of
        None \<Rightarrow> []
      | Some f \<Rightarrow> (h, f) # fl_walk n look (next_freelist_page_id f))"

lemma fl_ids_simps [simp]:
  "fl_ids [] = []" "fl_ids ((p, f) # rest) = p # freed_page_ids f @ fl_ids rest"
  by (simp_all add: fl_ids_def)

lemma fl_chain_pids: "fst ` set chain \<subseteq> set (fl_ids chain)"
  by (induction chain) auto

lemma length_fl_chain: "length chain \<le> length (fl_ids chain)"
  by (induction chain) auto

lemma fl_chain_walk: "fl_chain look h chain \<Longrightarrow> length chain < n \<Longrightarrow> fl_walk n look h = chain"
proof (induction chain arbitrary: h n)
  case Nil
  then show ?case by (cases n) auto
next
  case (Cons pf rest)
  then show ?case by (cases pf; cases n) auto
qed

lemma fl_chain_cong:
  "(\<And>p. p \<in> fst ` set chain \<Longrightarrow> look' p = look p) \<Longrightarrow> fl_chain look' h chain = fl_chain look h chain"
  by (induction chain arbitrary: h) auto

lemma fl_chain_look: "fl_chain look h chain \<Longrightarrow> (p, f) \<in> set chain \<Longrightarrow> look p = Some f"
  by (induction chain arbitrary: h) auto

section \<open>The allocator's invariant\<close>

definition fl_pages_ok :: "nat \<Rightarrow> (nat \<times> freelist_page) list \<Rightarrow> bool" where
  "fl_pages_ok ps chain \<longleftrightarrow> (\<forall>(p, f) \<in> set chain. fl_last_modified_lsn f < 256 ^ 8 \<and>
     int (length (freed_page_ids f)) \<le> get_max_freed_ids_per_freelist_page ps)"

definition pager_inv :: "'z pager_scheme \<Rightarrow> meta_page \<Rightarrow> (nat \<times> freelist_page) list \<Rightarrow> bool" where
  "pager_inv s m chain \<longleftrightarrow>
     pg_open s \<and> pg_meta s = Some m \<and> page_size_bytes m = pg_page_size s \<and>
     MIN_PAGE_SIZE \<le> pg_page_size s \<and> pg_page_size s < 256 ^ 4 \<and>
     1 \<le> next_page_id m \<and> next_page_id m * pg_page_size s \<le> length (file_bytes s) \<and>
     fl_chain (fl_page s) (freelist_head_page_id m) chain \<and>
     distinct (fl_ids chain) \<and> (\<forall>p \<in> set (fl_ids chain). 0 < p \<and> p < next_page_id m) \<and>
     fl_pages_ok (pg_page_size s) chain \<and>
     finite (pg_dirty_freelist_page_ids s) \<and>
     pg_dirty_freelist_page_ids s \<subseteq> dom (pg_freelist_cache s) \<and>
     dom (pg_freelist_cache s) \<subseteq> fst ` set chain \<and>
     (\<forall>p \<in> dom (pg_freelist_cache s) - pg_dirty_freelist_page_ids s.
        disk_freelist s p = pg_freelist_cache s p)"

definition pager_chain :: "'z pager_scheme \<Rightarrow> (nat \<times> freelist_page) list" where
  "pager_chain s = (case pg_meta s of None \<Rightarrow> []
     | Some m \<Rightarrow> fl_walk (next_page_id m) (fl_page s) (freelist_head_page_id m))"

definition pager_ok :: "'z pager_scheme \<Rightarrow> bool" where
  "pager_ok s \<longleftrightarrow> (\<exists>m. pg_meta s = Some m \<and> pager_inv s m (pager_chain s))"

definition free_ids :: "'z pager_scheme \<Rightarrow> nat set" where
  "free_ids s = set (fl_ids (pager_chain s))"

definition page_limit :: "'z pager_scheme \<Rightarrow> nat" where
  "page_limit s = (case pg_meta s of None \<Rightarrow> 0 | Some m \<Rightarrow> next_page_id m)"

lemma pager_inv_short_chain:
  assumes "pager_inv s m chain"
  shows "length chain < next_page_id m"
proof -
  have "set (fl_ids chain) \<subseteq> {1..<next_page_id m}" using assms by (auto simp: pager_inv_def)
  then have "card (set (fl_ids chain)) \<le> next_page_id m - 1"
    using card_mono [of "{1..<next_page_id m}"] by simp
  moreover have "card (set (fl_ids chain)) = length (fl_ids chain)"
    using assms by (simp add: pager_inv_def distinct_card)
  moreover have "1 \<le> next_page_id m" using assms by (simp add: pager_inv_def)
  ultimately show ?thesis
    using length_fl_chain [of chain] by linarith
qed

lemma pager_inv_chain: "pager_inv s m chain \<Longrightarrow> pager_chain s = chain"
  using pager_inv_short_chain [of s m chain]
  by (simp add: pager_chain_def fl_chain_walk pager_inv_def)

lemma pager_invI: "pager_inv s m chain \<Longrightarrow> pager_ok s \<and> free_ids s = set (fl_ids chain) \<and>
    page_limit s = next_page_id m"
  using pager_inv_chain [of s m chain]
  by (auto simp: pager_ok_def free_ids_def page_limit_def pager_inv_def)

lemma pager_okE:
  assumes "pager_ok s"
  obtains m where "pager_inv s m (pager_chain s)" "pg_meta s = Some m"
  using assms by (auto simp: pager_ok_def)

section \<open>Allocation and release\<close>

lemma disk_freelist_stats [simp]:
  "disk_freelist (s\<lparr>pg_stats := st\<rparr>) = disk_freelist s"
  "disk_freelist (s\<lparr>pg_meta := mo\<rparr>) = disk_freelist s"
  "disk_freelist (s\<lparr>pg_is_meta_dirty := d\<rparr>) = disk_freelist s"
  "disk_freelist (s\<lparr>pg_freelist_cache := c\<rparr>) = disk_freelist s"
  "disk_freelist (s\<lparr>pg_dirty_freelist_page_ids := ds\<rparr>) = disk_freelist s"
  "disk_freelist (s\<lparr>pg_open := opn\<rparr>) = disk_freelist s"
  "disk_freelist (s\<lparr>pg_durable := dur\<rparr>) = disk_freelist s"
  by (simp_all add: disk_freelist_def fun_eq_iff)

text \<open>Reading the head page of a non-empty freelist: only the cache and the statistics change.\<close>

lemma read_freelist_head_ok:
  assumes "pager_inv s m ((p, f) # rest)"
  shows "\<exists>s'. read_freelist_head_page s = (Inr f, s') \<and> pager_inv s' m ((p, f) # rest) \<and>
     pg_freelist_cache s' p = Some f \<and> file_bytes s' = file_bytes s \<and> pg_page_size s' = pg_page_size s \<and>
     pager.more s' = pager.more s \<and> pg_durable s' = pg_durable s"
proof (cases "pg_freelist_cache s p")
  case (Some g)
  have "fl_page s p = Some f" using assms by (auto simp: pager_inv_def)
  with Some have "g = f" by (simp add: fl_page_def)
  with Some assms show ?thesis
    by (intro exI [of _ s])
       (auto simp: read_freelist_head_page_def get_freelist_page_def bind_op_def op_simps pager_inv_def)
next
  case None
  have "fl_page s p = Some f" using assms by (auto simp: pager_inv_def)
  with None have dsk: "disk_freelist s p = Some f" by (simp add: fl_page_def)
  then obtain d where d: "disk_page (pg_page_size s) (file_bytes s) p = Some d"
      and dec: "decode_page d = Inr (Freelist f)"
    by (auto simp: disk_freelist_def split: option.splits sum.splits page.splits)
  let ?s = "s\<lparr>pg_stats := (pg_stats s)\<lparr>page_reads := page_reads (pg_stats s) + 1\<rparr>,
      pg_freelist_cache := (pg_freelist_cache s)(p \<mapsto> f)\<rparr>"
  have run: "read_freelist_head_page s = (Inr f, ?s)"
    using assms None read_page_ok [of s p d] d dec
    by (simp add: read_freelist_head_page_def get_freelist_page_def bind_op_def op_simps pager_inv_def)
  have "fl_page ?s q = fl_page s q" for q
    using dsk None by (simp add: fl_page_def split: option.split)
  then have "fl_page ?s = fl_page s" by (rule ext)
  then have "pager_inv ?s m ((p, f) # rest)"
    using assms dsk by (auto simp: pager_inv_def)
  with run show ?thesis by (intro exI [of _ ?s]) simp
qed

lemma max_freed_pos: "MIN_PAGE_SIZE \<le> ps \<Longrightarrow> 1 \<le> get_max_freed_ids_per_freelist_page ps"
  by (simp add: get_max_freed_ids_per_freelist_page_def)

text \<open>A page popped off the head freelist page.\<close>

lemma pop_freed_inv:
  assumes inv: "pager_inv s m ((h, f) # rest)" and f: "freed_page_ids f = ids @ [p]"
    and f': "f' = FreelistPage (fl_last_modified_lsn f) (next_freelist_page_id f) ids"
  shows "pager_inv (s\<lparr>pg_freelist_cache := ((pg_freelist_cache s)(h \<mapsto> f'))(p := None),
      pg_dirty_freelist_page_ids := insert h (pg_dirty_freelist_page_ids s) - {p},
      pg_stats := st\<rparr>) m ((h, f') # rest)"
proof -
  let ?s = "s\<lparr>pg_freelist_cache := ((pg_freelist_cache s)(h \<mapsto> f'))(p := None),
      pg_dirty_freelist_page_ids := insert h (pg_dirty_freelist_page_ids s) - {p}, pg_stats := st\<rparr>"
  have dist: "distinct (h # (ids @ [p]) @ fl_ids rest)" using inv f by (simp add: pager_inv_def)
  have dom: "dom (pg_freelist_cache s) \<subseteq> insert h (fst ` set rest)"
    using inv by (simp add: pager_inv_def)
  have p: "p \<noteq> h" "p \<notin> fst ` set rest" using dist fl_chain_pids [of rest] by auto
  have "fl_page ?s q = fl_page s q" if "q \<in> fst ` set rest" for q
    using that p dist fl_chain_pids [of rest] by (auto simp: fl_page_def split: option.split)
  then have "fl_chain (fl_page ?s) (next_freelist_page_id f) rest"
    using inv fl_chain_cong [of rest "fl_page ?s" "fl_page s"] by (simp add: pager_inv_def)
  moreover have "fl_page ?s h = Some f'" using p by (simp add: fl_page_def)
  moreover have "fl_pages_ok (pg_page_size s) ((h, f') # rest)"
    using inv f f' by (auto simp: pager_inv_def fl_pages_ok_def)
  moreover have "p \<notin> dom (pg_freelist_cache s)" using p dom by auto
  ultimately show ?thesis
    using inv f f' dist p dom unfolding pager_inv_def
    by (auto simp: dom_def)
qed

text \<open>An exhausted head page recycled as the allocated page.\<close>

lemma recycle_head_inv:
  assumes inv: "pager_inv s m ((h, f) # rest)" and "freed_page_ids f = []"
  shows "pager_inv (s\<lparr>pg_meta := Some (m\<lparr>freelist_head_page_id := next_freelist_page_id f\<rparr>),
      pg_is_meta_dirty := True, pg_freelist_cache := (pg_freelist_cache s)(h := None),
      pg_dirty_freelist_page_ids := pg_dirty_freelist_page_ids s - {h}, pg_stats := st\<rparr>)
    (m\<lparr>freelist_head_page_id := next_freelist_page_id f\<rparr>) rest"
    (is "pager_inv ?s ?m rest")
proof -
  have h: "h \<notin> fst ` set rest"
    using inv fl_chain_pids [of rest] by (auto simp: pager_inv_def)
  have "fl_page ?s q = fl_page s q" if "q \<in> fst ` set rest" for q
    using that h by (auto simp: fl_page_def split: option.split)
  then have "fl_chain (fl_page ?s) (next_freelist_page_id f) rest"
    using inv fl_chain_cong [of rest "fl_page ?s" "fl_page s"] by (simp add: pager_inv_def)
  then show ?thesis
    using inv h unfolding pager_inv_def by (auto simp: fl_pages_ok_def)
qed

text \<open>Growing the file by one page keeps every page there was.\<close>

lemma extend_keeps_freelist:
  assumes "0 < pg_page_size s" and "disk_freelist s p = Some f"
  shows "disk_freelist (s\<lparr>pg_disk := Some (file_bytes s @ ext)\<rparr>) p = Some f"
  using assms disk_page_append [of "pg_page_size s" "file_bytes s" p]
  by (auto simp: disk_freelist_def split: option.splits)

lemma bump_inv:
  assumes inv: "pager_inv s m chain"
  shows "pager_inv (s\<lparr>pg_disk := Some (file_bytes s @ replicate (pg_page_size s) 0),
      pg_meta := Some (m\<lparr>next_page_id := next_page_id m + 1\<rparr>), pg_is_meta_dirty := True,
      pg_stats := st\<rparr>) (m\<lparr>next_page_id := next_page_id m + 1\<rparr>) chain"
    (is "pager_inv ?s ?m chain")
proof -
  have ps: "0 < pg_page_size s" using inv by (simp add: pager_inv_def)
  have dsk: "disk_freelist ?s p = Some f" if "disk_freelist s p = Some f" for p f
    using extend_keeps_freelist [OF ps that] by simp
  have "fl_page ?s p = fl_page s p" if "p \<in> fst ` set chain" for p
  proof -
    from that obtain f where "fl_page s p = Some f"
      using inv fl_chain_look [of "fl_page s" "freelist_head_page_id m" chain p]
      by (auto simp: pager_inv_def)
    then show ?thesis using dsk by (auto simp: fl_page_def split: option.splits)
  qed
  then have "fl_chain (fl_page ?s) (freelist_head_page_id m) chain"
    using inv fl_chain_cong [of chain "fl_page ?s" "fl_page s"] by (simp add: pager_inv_def)
  moreover have "\<forall>p \<in> dom (pg_freelist_cache s) - pg_dirty_freelist_page_ids s.
      disk_freelist ?s p = pg_freelist_cache s p"
  proof
    fix p assume p: "p \<in> dom (pg_freelist_cache s) - pg_dirty_freelist_page_ids s"
    then obtain f where "pg_freelist_cache s p = Some f" by blast
    with p inv have "disk_freelist s p = Some f" by (auto simp: pager_inv_def)
    then show "disk_freelist ?s p = pg_freelist_cache s p"
      using dsk \<open>pg_freelist_cache s p = Some f\<close> by simp
  qed
  ultimately show ?thesis using inv unfolding pager_inv_def by auto
qed

text \<open>
  What a method of the allocator may change besides the freelist: pages are added at the end of the
  file, the root pointer and the last checkpoint stay, and so does everything above the pager.
\<close>

definition alloc_frame :: "'z pager_scheme \<Rightarrow> 'z pager_scheme \<Rightarrow> bool" where
  "alloc_frame s s' \<longleftrightarrow> pg_page_size s' = pg_page_size s \<and> pg_durable s' = pg_durable s \<and>
     pager.more s' = pager.more s \<and> (\<exists>ext. file_bytes s' = file_bytes s @ ext) \<and>
     map_option root_page_id (pg_meta s') = map_option root_page_id (pg_meta s) \<and>
     map_option last_checkpoint_lsn (pg_meta s') = map_option last_checkpoint_lsn (pg_meta s)"

lemma alloc_frame_trans: "alloc_frame s s1 \<Longrightarrow> alloc_frame s1 s2 \<Longrightarrow> alloc_frame s s2"
  by (auto simp: alloc_frame_def)

lemma allocate_page_ok:
  assumes "pager_inv s m chain"
  shows "\<exists>p s' m' chain'. allocate_page s = (Inr p, s') \<and> pager_inv s' m' chain' \<and>
     alloc_frame s s' \<and> p < next_page_id m' \<and> set (fl_ids chain') = set (fl_ids chain) - {p} \<and>
     (if chain = [] then p = next_page_id m \<and> next_page_id m' = p + 1
      else p \<in> set (fl_ids chain) \<and> next_page_id m' = next_page_id m)"
proof (cases chain)
  case Nil
  then have "freelist_head_page_id m = 0" using assms by (simp add: pager_inv_def)
  then show ?thesis
    using assms bump_inv [OF assms] Nil
    by (intro exI conjI) (auto simp: allocate_page_def bind_op_def op_simps bump_allocate_ok pager_inv_def alloc_frame_def)
next
  case (Cons hf rest)
  then obtain h f where chain: "chain = (h, f) # rest" by (cases hf) auto
  with assms have inv: "pager_inv s m ((h, f) # rest)" by simp
  then have head: "freelist_head_page_id m = h" "h \<noteq> 0" and meta: "pg_meta s = Some m"
    by (auto simp: pager_inv_def)
  from read_freelist_head_ok [OF inv] obtain s1 where
    s1: "read_freelist_head_page s = (Inr f, s1)" and inv1: "pager_inv s1 m ((h, f) # rest)"
    and fr1: "file_bytes s1 = file_bytes s" "pg_page_size s1 = pg_page_size s"
      "pager.more s1 = pager.more s" "pg_durable s1 = pg_durable s"
    by auto
  have meta1: "pg_meta s1 = Some m" using inv1 by (simp add: pager_inv_def)
  have dist: "distinct (fl_ids ((h, f) # rest))" and
    bnd: "\<forall>p \<in> set (fl_ids ((h, f) # rest)). p < next_page_id m"
    using inv by (auto simp: pager_inv_def)
  show ?thesis
  proof (cases "freed_page_ids f" rule: rev_cases)
    case Nil
    show ?thesis
      using s1 head meta meta1 Nil recycle_head_inv [OF inv1 Nil] dist bnd fr1
      by (intro exI conjI) (auto simp: chain allocate_page_def bind_op_def op_simps update_meta_ok
          forget_freelist_page_def Let_def alloc_frame_def)
  next
    case (snoc ids p)
    show ?thesis
      using s1 head meta meta1 snoc pop_freed_inv [OF inv1 snoc refl] dist bnd fr1
      by (intro exI conjI) (auto simp: chain allocate_page_def bind_op_def op_simps update_meta_ok
          forget_freelist_page_def mark_freelist_page_dirty_def Let_def alloc_frame_def)
  qed
qed

text \<open>Releasing a page: it goes on the head freelist page, or on a new one.\<close>

lemma push_freed_inv:
  assumes inv: "pager_inv s m ((h, f) # rest)" and p: "p \<notin> set (fl_ids ((h, f) # rest))"
    and range: "0 < p" "p < next_page_id m"
    and room: "int (length (freed_page_ids f)) < get_max_freed_ids_per_freelist_page (pg_page_size s)"
    and f': "f' = FreelistPage (fl_last_modified_lsn f) (next_freelist_page_id f) (freed_page_ids f @ [p])"
  shows "pager_inv (s\<lparr>pg_freelist_cache := (pg_freelist_cache s)(h \<mapsto> f'),
      pg_dirty_freelist_page_ids := insert h (pg_dirty_freelist_page_ids s)\<rparr>) m ((h, f') # rest)"
    (is "pager_inv ?s m _")
proof -
  have h: "h \<notin> fst ` set rest"
    using inv fl_chain_pids [of rest] by (auto simp: pager_inv_def)
  have "fl_page ?s q = fl_page s q" if "q \<in> fst ` set rest" for q
    using that h by (auto simp: fl_page_def split: option.split)
  then have "fl_chain (fl_page ?s) (next_freelist_page_id f) rest"
    using inv fl_chain_cong [of rest "fl_page ?s" "fl_page s"] by (simp add: pager_inv_def)
  moreover have "fl_page ?s h = Some f'" by (simp add: fl_page_def)
  moreover have "fl_pages_ok (pg_page_size s) ((h, f') # rest)"
    using inv f' room by (auto simp: pager_inv_def fl_pages_ok_def)
  ultimately show ?thesis
    using inv f' p range unfolding pager_inv_def by auto
qed

lemma new_head_inv:
  assumes inv: "pager_inv s m chain" and p: "p \<notin> set (fl_ids chain)"
    and range: "0 < p" "p < next_page_id m" and new: "n \<notin> set (fl_ids chain)" "n \<noteq> p"
    and nrange: "0 < n" "n < next_page_id m"
  shows "pager_inv (s\<lparr>pg_freelist_cache := (pg_freelist_cache s)(n \<mapsto> FreelistPage 0 (freelist_head_page_id m) [p]),
      pg_dirty_freelist_page_ids := insert n (pg_dirty_freelist_page_ids s),
      pg_meta := Some (m\<lparr>freelist_head_page_id := n\<rparr>), pg_is_meta_dirty := True\<rparr>)
     (m\<lparr>freelist_head_page_id := n\<rparr>) ((n, FreelistPage 0 (freelist_head_page_id m) [p]) # chain)"
    (is "pager_inv ?s ?m (?hf # chain)")
proof -
  have n: "n \<notin> fst ` set chain" using new(1) fl_chain_pids [of chain] by auto
  have "fl_page ?s q = fl_page s q" if "q \<in> fst ` set chain" for q
    using that n by (auto simp: fl_page_def split: option.split)
  then have "fl_chain (fl_page ?s) (freelist_head_page_id m) chain"
    using inv fl_chain_cong [of chain "fl_page ?s" "fl_page s"] by (simp add: pager_inv_def)
  moreover have "fl_page ?s n = Some (snd ?hf)" by (simp add: fl_page_def)
  moreover have "fl_pages_ok (pg_page_size s) (?hf # chain)"
    using inv max_freed_pos [of "pg_page_size s"] by (auto simp: pager_inv_def fl_pages_ok_def)
  ultimately show ?thesis
    using inv p new range nrange unfolding pager_inv_def by auto
qed

lemma free_page_new_head_ok:
  assumes inv: "pager_inv s m chain" and p: "p \<notin> set (fl_ids chain)" "0 < p" "p < next_page_id m"
  shows "\<exists>s' m' chain'. free_page_new_head p s = (Inr (), s') \<and> pager_inv s' m' chain' \<and>
     alloc_frame s s' \<and> next_page_id m' = next_page_id m + 1 \<and>
     set (fl_ids chain') = set (fl_ids chain) \<union> {p, next_page_id m}"
proof -
  let ?m1 = "m\<lparr>next_page_id := next_page_id m + 1\<rparr>"
  let ?s1 = "s\<lparr>pg_disk := Some (file_bytes s @ replicate (pg_page_size s) 0), pg_meta := Some ?m1,
      pg_is_meta_dirty := True,
      pg_stats := (pg_stats s)\<lparr>pages_allocated := pages_allocated (pg_stats s) + 1\<rparr>\<rparr>"
  have open1: "pg_open s" "pg_meta s = Some m" using inv by (auto simp: pager_inv_def)
  have inv1: "pager_inv ?s1 ?m1 chain" by (rule bump_inv [OF inv])
  have fresh: "next_page_id m \<notin> set (fl_ids chain)" using inv by (auto simp: pager_inv_def)
  show ?thesis
    using new_head_inv [OF inv1, of p "next_page_id m"] p fresh open1 bump_allocate_ok [OF open1]
    by (intro exI conjI) (auto simp: free_page_new_head_def bind_op_def op_simps update_meta_ok
        mark_freelist_page_dirty_def alloc_frame_def)
qed

lemma free_page_ok:
  assumes inv: "pager_inv s m chain" and p: "p \<notin> set (fl_ids chain)" "0 < p" "p < next_page_id m"
  shows "\<exists>s' m' chain'. free_page p s = (Inr (), s') \<and> pager_inv s' m' chain' \<and>
     alloc_frame s s' \<and> next_page_id m \<le> next_page_id m' \<and>
     set (fl_ids chain') = insert p (set (fl_ids chain) \<union> {next_page_id m..<next_page_id m'})"
proof -
  let ?s0 = "s\<lparr>pg_stats := (pg_stats s)\<lparr>pages_freed := pages_freed (pg_stats s) + 1\<rparr>\<rparr>"
  have "fl_page ?s0 = fl_page s" by (simp add: fl_page_def fun_eq_iff split: option.split)
  then have inv0: "pager_inv ?s0 m chain" using inv by (simp add: pager_inv_def)
  have meta: "pg_meta s = Some m" using inv by (simp add: pager_inv_def)
  have new_head: "\<exists>s' m' chain'. free_page_new_head p s1 = (Inr (), s') \<and> pager_inv s' m' chain' \<and>
      alloc_frame s s' \<and> next_page_id m \<le> next_page_id m' \<and>
      set (fl_ids chain') = insert p (set (fl_ids chain) \<union> {next_page_id m..<next_page_id m'})"
    if "pager_inv s1 m chain" "alloc_frame s s1" for s1
  proof -
    from free_page_new_head_ok [OF that(1) p] obtain s' m' chain' where
      "free_page_new_head p s1 = (Inr (), s')" "pager_inv s' m' chain'" "alloc_frame s1 s'"
      "next_page_id m' = next_page_id m + 1"
      "set (fl_ids chain') = set (fl_ids chain) \<union> {p, next_page_id m}"
      by blast
    then show ?thesis
      using alloc_frame_trans [OF that(2)] by (intro exI [of _ s'] exI [of _ m'] exI [of _ chain']) auto
  qed
  show ?thesis
  proof (cases chain)
    case Nil
    then have "freelist_head_page_id m = 0" using inv by (simp add: pager_inv_def)
    then show ?thesis
      using new_head [OF inv0] meta
      by (simp add: free_page_def bind_op_def op_simps alloc_frame_def)
  next
    case (Cons hf rest)
    then obtain h f where chain: "chain = (h, f) # rest" by (cases hf) auto
    with inv have head: "freelist_head_page_id m = h" "h \<noteq> 0" by (auto simp: pager_inv_def)
    from read_freelist_head_ok [OF inv0 [unfolded chain]] obtain s1 where
      s1: "read_freelist_head_page ?s0 = (Inr f, s1)" and inv1: "pager_inv s1 m ((h, f) # rest)"
      and fr1: "file_bytes s1 = file_bytes s" "pg_page_size s1 = pg_page_size s"
        "pager.more s1 = pager.more s" "pg_durable s1 = pg_durable s"
      by auto
    have meta1: "pg_meta s1 = Some m" using inv1 by (simp add: pager_inv_def)
    show ?thesis
    proof (cases "int (length (freed_page_ids f)) < get_max_freed_ids_per_freelist_page (pg_page_size s1)")
      case True
      show ?thesis
        using s1 head meta meta1 True fr1 p push_freed_inv [OF inv1 p(1) [unfolded chain] p(2,3) True refl]
        by (intro exI conjI) (auto simp: chain free_page_def bind_op_def op_simps
            mark_freelist_page_dirty_def alloc_frame_def)
    next
      case False
      then have "free_page p s = free_page_new_head p s1"
        using s1 head meta by (simp add: free_page_def bind_op_def op_simps)
      then show ?thesis
        using new_head [of s1] inv1 fr1 meta meta1 by (simp add: chain alloc_frame_def)
    qed
  qed
qed

section \<open>Writing the freelist back\<close>

text \<open>
  What flushing pages may change: bytes of the written pages and statistics, nothing in memory.
\<close>

definition flush_frame :: "nat set \<Rightarrow> 'z pager_scheme \<Rightarrow> 'z pager_scheme \<Rightarrow> bool" where
  "flush_frame W s s' \<longleftrightarrow> pg_page_size s' = pg_page_size s \<and> pg_durable s' = pg_durable s \<and>
     pager.more s' = pager.more s \<and> pg_meta s' = pg_meta s \<and> pg_open s' = pg_open s \<and>
     pg_is_meta_dirty s' = pg_is_meta_dirty s \<and>
     length (file_bytes s) \<le> length (file_bytes s') \<and> pg_freelist_cache s' = pg_freelist_cache s \<and>
     (\<forall>q d. q \<notin> W \<longrightarrow> disk_page (pg_page_size s) (file_bytes s) q = Some d \<longrightarrow>
        disk_page (pg_page_size s) (file_bytes s') q = Some d)"

lemma flush_frame_refl [simp]: "flush_frame W s s"
  by (simp add: flush_frame_def)

lemma flush_frame_trans: "flush_frame W s s1 \<Longrightarrow> flush_frame W' s1 s2 \<Longrightarrow> flush_frame (W \<union> W') s s2"
  by (auto simp: flush_frame_def)

lemma disk_freelist_frame:
  assumes "flush_frame W s s'" and "q \<notin> W" and "disk_freelist s q = Some f"
  shows "disk_freelist s' q = Some f"
  using assms by (auto simp: disk_freelist_def flush_frame_def split: option.splits)

lemma chain_page_fits:
  assumes inv: "pager_inv s m chain" and lim: "next_page_id m \<le> 256 ^ 8" and pf: "(p, f) \<in> set chain"
  shows "freelist_fits (pg_page_size s) f"
proof -
  have ids: "set (freed_page_ids f) \<subseteq> set (fl_ids chain)" using pf by (force simp: fl_ids_def)
  have nxt: "fl_chain look h c \<Longrightarrow> (q, g) \<in> set c \<Longrightarrow> next_freelist_page_id g \<in> insert 0 (fst ` set c)"
    for look h c q g
  proof (induction c arbitrary: h)
    case Nil
    then show ?case by simp
  next
    case (Cons a c)
    then show ?case by (cases a; cases c) fastforce+
  qed
  have "next_freelist_page_id f \<in> insert 0 (set (fl_ids chain))"
    using nxt [of "fl_page s" "freelist_head_page_id m" chain p f] inv pf fl_chain_pids [of chain]
    by (auto simp: pager_inv_def)
  moreover have bnd: "q < 256 ^ 8" if "q \<in> insert 0 (set (fl_ids chain))" for q
  proof (cases "q = 0")
    case False
    then have "q < next_page_id m" using inv that by (auto simp: pager_inv_def)
    then show ?thesis using lim by (rule less_le_trans)
  qed simp
  moreover have "fl_last_modified_lsn f < 256 ^ 8 \<and>
      int (length (freed_page_ids f)) \<le> get_max_freed_ids_per_freelist_page (pg_page_size s)"
    using inv pf by (auto simp: pager_inv_def fl_pages_ok_def)
  moreover have "32 \<le> pg_page_size s" "pg_page_size s < 256 ^ 4" using inv by (auto simp: pager_inv_def)
  ultimately show ?thesis using ids by (auto simp: freelist_fits_def list_all_iff)
qed

lemma flush_one_freelist_page:
  assumes inv: "pager_inv s m chain" and lim: "next_page_id m \<le> 256 ^ 8"
    and cached: "pg_freelist_cache s p = Some f"
    and s': "s' = s\<lparr>pg_disk := Some (write_at (p * pg_page_size s) (freelist_bytes f (pg_page_size s)) (file_bytes s)),
      pg_stats := st\<rparr>"
  shows "freelist_fits (pg_page_size s) f" and "flush_frame {p} s s'"
    and "pager_inv s' m chain" and "disk_freelist s' p = Some f"
proof -
  have "p \<in> fst ` set chain" using inv cached by (auto simp: pager_inv_def)
  then have pf: "(p, f) \<in> set chain"
    using inv cached fl_chain_look [of "fl_page s" "freelist_head_page_id m" chain p]
    by (force simp: pager_inv_def fl_page_def)
  show fits: "freelist_fits (pg_page_size s) f" by (rule chain_page_fits [OF inv lim pf])
  then have len: "length (freelist_bytes f (pg_page_size s)) = pg_page_size s" by (simp add: len_simps)
  have ps: "0 < pg_page_size s" using inv by (simp add: pager_inv_def)
  show frame: "flush_frame {p} s s'"
    using disk_page_write_other [OF ps _ len] by (auto simp: flush_frame_def s' length_write_at)
  show here: "disk_freelist s' p = Some f"
    using disk_page_write_same [OF len] decode_freelist_ok [OF fits] by (simp add: disk_freelist_def s')
  have cache: "pg_freelist_cache s' = pg_freelist_cache s" by (simp add: s')
  have same: "disk_freelist s' q = Some g" if "fl_page s q = Some g" "disk_freelist s q = Some g" for q g
    using that here cached disk_freelist_frame [OF frame, of q g] by (cases "q = p") (auto simp: fl_page_def)
  have "fl_page s' q = fl_page s q" if "q \<in> fst ` set chain" for q
  proof -
    from that obtain g where g: "fl_page s q = Some g"
      using inv fl_chain_look [of "fl_page s" "freelist_head_page_id m" chain q] by (auto simp: pager_inv_def)
    then show ?thesis using same [OF g] by (auto simp: fl_page_def cache split: option.splits)
  qed
  then have "fl_chain (fl_page s') (freelist_head_page_id m) chain"
    using inv fl_chain_cong [of chain "fl_page s'" "fl_page s"] by (simp add: pager_inv_def)
  moreover have "\<forall>q \<in> dom (pg_freelist_cache s) - pg_dirty_freelist_page_ids s.
      disk_freelist s' q = pg_freelist_cache s q"
    using inv same by (auto simp: pager_inv_def fl_page_def dom_def)
  ultimately show "pager_inv s' m chain"
    using inv frame unfolding pager_inv_def by (auto simp: s' flush_frame_def length_write_at)
qed

lemma flush_freelist_ids_ok:
  assumes "pager_inv s m chain" and lim: "next_page_id m \<le> 256 ^ 8" and "set ids \<subseteq> dom (pg_freelist_cache s)"
  shows "\<exists>s'. flush_freelist_ids ids s = (Inr (), s') \<and> pager_inv s' m chain \<and>
     flush_frame (set ids) s s' \<and> pg_dirty_freelist_page_ids s' = pg_dirty_freelist_page_ids s \<and>
     (\<forall>p \<in> set ids. disk_freelist s' p = pg_freelist_cache s p)"
  using assms(1,3)
proof (induction ids arbitrary: s)
  case Nil
  then show ?case by simp
next
  case (Cons p ids)
  then obtain f where f: "pg_freelist_cache s p = Some f" by auto
  let ?s = "s\<lparr>pg_disk := Some (write_at (p * pg_page_size s) (freelist_bytes f (pg_page_size s)) (file_bytes s)),
      pg_stats := (pg_stats s)\<lparr>page_writes := page_writes (pg_stats s) + 1\<rparr>\<rparr>"
  note one = flush_one_freelist_page [OF Cons.prems(1) lim f refl]
  have opn: "pg_open s" using Cons.prems(1) by (simp add: pager_inv_def)
  have run: "flush_freelist_ids (p # ids) s = flush_freelist_ids ids ?s"
    using f encode_freelist_ok [OF one(1)]
    by (simp add: bind_op_def write_page_ok [OF opn] del: encode_page.simps)
  from Cons.IH [of ?s] one Cons.prems(2) obtain s' where
    s': "flush_freelist_ids ids ?s = (Inr (), s')" "pager_inv s' m chain" "flush_frame (set ids) ?s s'"
      "pg_dirty_freelist_page_ids s' = pg_dirty_freelist_page_ids s"
      "\<forall>q \<in> set ids. disk_freelist s' q = pg_freelist_cache s q"
    by auto
  have "disk_freelist s' p = pg_freelist_cache s p"
    using s'(5) disk_freelist_frame [OF s'(3), of p f] one(4) f by (cases "p \<in> set ids") auto
  with run s' flush_frame_trans [OF one(2) s'(3)] show ?case by auto
qed

lemma flush_dirty_freelist_ok:
  assumes inv: "pager_inv s m chain" and lim: "next_page_id m \<le> 256 ^ 8"
  shows "\<exists>s'. flush_dirty_freelist_pages s = (Inr (), s') \<and> pager_inv s' m chain \<and>
     flush_frame (free_ids s) s s' \<and> pg_dirty_freelist_page_ids s' = {}"
proof -
  let ?ids = "sorted_list_of_set (pg_dirty_freelist_page_ids s)"
  have fin: "finite (pg_dirty_freelist_page_ids s)" and dom: "pg_dirty_freelist_page_ids s \<subseteq> dom (pg_freelist_cache s)"
    and chain: "dom (pg_freelist_cache s) \<subseteq> fst ` set chain"
    using inv by (auto simp: pager_inv_def)
  from flush_freelist_ids_ok [OF inv lim, of ?ids] fin dom obtain s1 where
    s1: "flush_freelist_ids ?ids s = (Inr (), s1)" "pager_inv s1 m chain"
      "flush_frame (pg_dirty_freelist_page_ids s) s s1"
      "pg_dirty_freelist_page_ids s1 = pg_dirty_freelist_page_ids s"
      "\<forall>p \<in> pg_dirty_freelist_page_ids s. disk_freelist s1 p = pg_freelist_cache s p"
    by auto
  let ?s = "s1\<lparr>pg_dirty_freelist_page_ids := {}\<rparr>"
  have cache: "pg_freelist_cache s1 = pg_freelist_cache s" using s1(3) by (simp add: flush_frame_def)
  have "fl_page ?s = fl_page s1" by (simp add: fl_page_def fun_eq_iff split: option.split)
  moreover have "\<forall>p \<in> dom (pg_freelist_cache s1). disk_freelist s1 p = pg_freelist_cache s1 p"
    using s1(2,4,5) by (auto simp: cache pager_inv_def)
  ultimately have "pager_inv ?s m chain" using s1(2) by (simp add: pager_inv_def)
  moreover have "pg_dirty_freelist_page_ids s \<subseteq> free_ids s"
    using dom chain fl_chain_pids [of chain] pager_invI [OF inv] by blast
  then have "flush_frame (free_ids s) s ?s" using s1(3) by (auto simp: flush_frame_def)
  ultimately show ?thesis
    using s1(1) by (intro exI [of _ ?s]) (simp add: flush_dirty_freelist_pages_def bind_op_def)
qed

lemma flush_meta_ok:
  assumes inv: "pager_inv s m chain" and ok: "meta_ok m"
  shows "\<exists>s'. flush_meta s = (Inr (), s') \<and> pager_inv s' m chain \<and> \<not> pg_is_meta_dirty s' \<and>
     disk_page (pg_page_size s) (file_bytes s') META_PAGE_ID = Some (meta_bytes m) \<and>
     flush_frame {META_PAGE_ID} s (s'\<lparr>pg_is_meta_dirty := pg_is_meta_dirty s\<rparr>) \<and>
     pg_dirty_freelist_page_ids s' = pg_dirty_freelist_page_ids s"
proof -
  let ?f = "write_at (META_PAGE_ID * pg_page_size s) (meta_bytes m) (file_bytes s)"
  let ?st = "pg_stats s"
  let ?s = "s\<lparr>pg_disk := Some ?f, pg_is_meta_dirty := False,
     pg_stats := ?st\<lparr>page_writes := page_writes ?st + 1, meta_flushes := meta_flushes ?st + 1\<rparr>\<rparr>"
  have opn: "pg_open s" and meta: "pg_meta s = Some m" and ps: "0 < pg_page_size s"
    and size: "page_size_bytes m = pg_page_size s" using inv by (auto simp: pager_inv_def)
  have len: "length (meta_bytes m) = pg_page_size s" using ok size by (simp add: len_simps)
  have run: "flush_meta s = (Inr (), ?s)"
    using meta encode_meta_page_ok [OF ok] write_page_ok [OF opn]
    by (simp add: flush_meta_def bind_op_def op_simps)
  have frame: "flush_frame {META_PAGE_ID} s (?s\<lparr>pg_is_meta_dirty := pg_is_meta_dirty s\<rparr>)"
    using disk_page_write_other [OF ps _ len] by (auto simp: flush_frame_def length_write_at)
  have other: "disk_freelist ?s q = Some f" if "q \<noteq> 0" "disk_freelist s q = Some f" for q f
    using disk_freelist_frame [OF frame _ that(2)] that(1) by (simp add: META_PAGE_ID_def)
  have nz: "0 \<notin> fst ` set chain" using inv fl_chain_pids [of chain] by (fastforce simp: pager_inv_def)
  have "fl_page ?s q = fl_page s q" if "q \<in> fst ` set chain" for q
  proof -
    from that obtain g where g: "fl_page s q = Some g"
      using inv fl_chain_look [of "fl_page s" "freelist_head_page_id m" chain q] by (auto simp: pager_inv_def)
    have "q \<noteq> 0" using that nz by metis
    then show ?thesis using g other [of q g] by (auto simp: fl_page_def split: option.splits)
  qed
  then have "fl_chain (fl_page ?s) (freelist_head_page_id m) chain"
    using inv fl_chain_cong [of chain "fl_page ?s" "fl_page s"] by (simp add: pager_inv_def)
  moreover have "\<forall>q \<in> dom (pg_freelist_cache s) - pg_dirty_freelist_page_ids s.
      disk_freelist ?s q = pg_freelist_cache s q"
  proof
    fix q assume q: "q \<in> dom (pg_freelist_cache s) - pg_dirty_freelist_page_ids s"
    then have "disk_freelist s q = pg_freelist_cache s q" "q \<in> fst ` set chain" using inv by (auto simp: pager_inv_def)
    with q nz show "disk_freelist ?s q = pg_freelist_cache s q"
      by (metis DiffD1 domD other)
  qed
  ultimately have "pager_inv ?s m chain"
    using inv unfolding pager_inv_def by (auto simp: length_write_at)
  with run frame disk_page_write_same [OF len, of META_PAGE_ID] show ?thesis
    by (intro exI [of _ ?s]) simp
qed

section \<open>Opening, closing and reopening\<close>

lemma pager_truncate [simp]: "pager.truncate s = s"
  by (cases s) (simp add: pager.truncate_def)

lemma pager_bootstrap_ok:
  assumes init: "Pager_init None ps = Inr (pager.truncate s0)" and ps: "ps < 256 ^ 4"
  shows "\<exists>s m. pager_open s0 = (Inr (), s) \<and> pager_inv s m [] \<and> pg_durable s = pg_disk s \<and>
     m = \<lparr>page_size_bytes = ps, root_page_id = 1, next_page_id = 2, freelist_head_page_id = 0,
          last_checkpoint_lsn = 0\<rparr> \<and> pg_page_size s = ps \<and> \<not> pg_is_meta_dirty s \<and>
     pager.more s = pager.more s0 \<and> disk_page ps (file_bytes s) 0 = Some (meta_bytes m) \<and>
     disk_page ps (file_bytes s) 1 = Some (node_bytes (LeafPage 0 0 []) ps)"
proof -
  let ?m = "\<lparr>page_size_bytes = ps, root_page_id = 1, next_page_id = 2, freelist_head_page_id = 0,
     last_checkpoint_lsn = 0\<rparr>"
  let ?leaf = "node_bytes (LeafPage 0 0 []) ps"
  let ?f1 = "write_at (1 * ps) ?leaf (replicate ps 0)"
  let ?f2 = "write_at (0 * ps) (meta_bytes ?m) ?f1"
  have min: "52 \<le> ps" using init by (simp add: Pager_init_def split: if_splits)
  have s0: "pg_disk s0 = None" "pg_durable s0 = None" "\<not> pg_open s0" "pg_page_size s0 = ps" "pg_meta s0 = None"
    "\<not> pg_is_meta_dirty s0" "pg_freelist_cache s0 = Map.empty" "pg_dirty_freelist_page_ids s0 = {}"
    "pg_stats s0 = fresh_pager_stats"
    using init by (auto simp: Pager_init_def pager.truncate_def split: if_splits)
  have fits: "node_fits ps (LeafPage 0 0 [])" using min ps by (simp add: node_fits_def calculate_page_size_sum)
  have meta: "meta_ok ?m" using min ps by (simp add: meta_ok_def)
  have len: "length ?leaf = ps" "length (meta_bytes ?m) = ps"
    using length_node_bytes [OF fits] length_meta_bytes [OF meta] by simp_all
  have enc: "encode_page (Node (LeafPage 0 0 [])) ps = Inr ?leaf" by (rule encode_node_ok [OF fits])
  let ?s = "s0\<lparr>pg_disk := Some ?f2, pg_durable := Some ?f2, pg_open := True, pg_meta := Some ?m,
     pg_is_meta_dirty := False, pg_stats := fresh_pager_stats\<lparr>page_writes := 2, pages_allocated := 1, meta_flushes := 1, fsyncs := 1\<rparr>\<rparr>"
  have run: "pager_open s0 = (Inr (), ?s)"
    using enc encode_meta_page_ok [OF meta]
    by (simp add: s0 pager_open_def bootstrap_initial_db_def allocate_page_def bump_allocate_one_page_def
        bind_op_def op_simps file_bytes_def DEFAULT_ROOT_PAGE_ID_def META_PAGE_ID_def flush_meta_def
        extend_file_by_one_page_def update_meta_def write_page_def fsync_def Let_def
        fresh_pager_stats_def numeral_2_eq_2 del: encode_page.simps node_bytes.simps)
  have d1: "disk_page ps ?f2 1 = Some ?leaf"
    by (rule disk_page_write_other [OF _ _ len(2) disk_page_write_same [OF len(1)]]) (use min in auto)
  have d0: "disk_page ps ?f2 0 = Some (meta_bytes ?m)" by (rule disk_page_write_same [OF len(2)])
  have "pager_inv ?s ?m []"
    using len min ps by (simp add: pager_inv_def s0 file_bytes_def length_write_at fl_pages_ok_def)
  with run d0 d1 show ?thesis
    by (intro exI [of _ ?s] exI [of _ ?m]) (simp add: s0 file_bytes_def del: node_bytes.simps)
qed

text \<open>The meta page on disk is the one in memory whenever the latter is not marked dirty.\<close>

definition meta_synced :: "'z pager_scheme \<Rightarrow> bool" where
  "meta_synced s \<longleftrightarrow> (pg_is_meta_dirty s \<or>
     disk_page (pg_page_size s) (file_bytes s) META_PAGE_ID = map_option meta_bytes (pg_meta s))"

text \<open>What closing does, in one step: the file holds the whole state, and the handle is gone.\<close>

lemma pager_close_ok:
  assumes inv: "pager_inv s m chain" and ok: "meta_ok m" and sync: "meta_synced s"
  shows "\<exists>s1. pager_close s = (Inr (), s1) \<and> \<not> pg_open s1 \<and> pg_disk s1 \<noteq> None \<and> pg_durable s1 = pg_disk s1 \<and>
     pg_page_size s1 = pg_page_size s \<and> pager.more s1 = pager.more s \<and>
     disk_page (pg_page_size s) (file_bytes s1) META_PAGE_ID = Some (meta_bytes m) \<and>
     pager_inv (s1\<lparr>pg_open := True\<rparr>) m chain \<and>
     (\<forall>q d. q \<notin> free_ids s \<longrightarrow> q \<noteq> META_PAGE_ID \<longrightarrow> disk_page (pg_page_size s) (file_bytes s) q = Some d \<longrightarrow>
        disk_page (pg_page_size s) (file_bytes s1) q = Some d)"
proof -
  have lim: "next_page_id m \<le> 256 ^ 8" using ok by (simp add: meta_ok_def)
  have opn: "pg_open s" and metas: "pg_meta s = Some m" using inv by (auto simp: pager_inv_def)
  have free0: "0 \<notin> free_ids s" using inv pager_invI [OF inv] by (auto simp: pager_inv_def)
  have one: "\<exists>s1. (if pg_dirty_freelist_page_ids s \<noteq> {} then flush_dirty_freelist_pages else ret ()) s = (Inr (), s1) \<and>
     pager_inv s1 m chain \<and> flush_frame (free_ids s) s s1 \<and> pg_dirty_freelist_page_ids s1 = {}"
    using flush_dirty_freelist_ok [OF inv lim] inv by (cases "pg_dirty_freelist_page_ids s = {}") auto
  then obtain s1 where s1: "(if pg_dirty_freelist_page_ids s \<noteq> {} then flush_dirty_freelist_pages else ret ()) s = (Inr (), s1)"
     "pager_inv s1 m chain" "flush_frame (free_ids s) s s1" "pg_dirty_freelist_page_ids s1 = {}" by blast
  have "\<exists>s2. (if pg_is_meta_dirty s1 then flush_meta else ret ()) s1 = (Inr (), s2) \<and> pager_inv s2 m chain \<and>
     disk_page (pg_page_size s) (file_bytes s2) META_PAGE_ID = Some (meta_bytes m) \<and>
     flush_frame {META_PAGE_ID} s1 (s2\<lparr>pg_is_meta_dirty := pg_is_meta_dirty s1\<rparr>) \<and>
     pg_dirty_freelist_page_ids s2 = {}"
  proof (cases "pg_is_meta_dirty s1")
    case True
    then show ?thesis using flush_meta_ok [OF s1(2) ok] s1(3,4) by (auto simp: flush_frame_def)
  next
    case False
    then have "disk_page (pg_page_size s) (file_bytes s) META_PAGE_ID = Some (meta_bytes m)"
      using sync s1(3) metas by (simp add: meta_synced_def flush_frame_def)
    then have "disk_page (pg_page_size s) (file_bytes s1) META_PAGE_ID = Some (meta_bytes m)"
      using s1(3) free0 by (simp add: flush_frame_def META_PAGE_ID_def)
    then show ?thesis using s1(2,4) False by (intro exI [of _ s1]) (simp add: flush_frame_def)
  qed
  then obtain s2 where s2: "(if pg_is_meta_dirty s1 then flush_meta else ret ()) s1 = (Inr (), s2)"
     "pager_inv s2 m chain" "disk_page (pg_page_size s) (file_bytes s2) META_PAGE_ID = Some (meta_bytes m)"
     "flush_frame {META_PAGE_ID} s1 (s2\<lparr>pg_is_meta_dirty := pg_is_meta_dirty s1\<rparr>)"
     "pg_dirty_freelist_page_ids s2 = {}" by blast
  let ?s3 = "s2\<lparr>pg_durable := pg_disk s2,
     pg_stats := (pg_stats s2)\<lparr>fsyncs := fsyncs (pg_stats s2) + 1\<rparr>,
     pg_open := False, pg_freelist_cache := Map.empty, pg_dirty_freelist_page_ids := {}\<rparr>"
  have opn2: "pg_open s2" using s2(2) by (simp add: pager_inv_def)
  have run: "pager_close s = (Inr (), ?s3)"
    using opn s1(1) s2(1) fsync_ok [OF opn2] by (simp add: pager_close_def bind_op_def)
  have agree: "fl_page (?s3\<lparr>pg_open := True\<rparr>) q = fl_page s2 q" if "q \<in> fst ` set chain" for q
  proof -
    have "\<forall>q \<in> dom (pg_freelist_cache s2). disk_freelist s2 q = pg_freelist_cache s2 q"
      using s2(2,5) by (simp add: pager_inv_def)
    then show ?thesis by (cases "pg_freelist_cache s2 q") (force simp: fl_page_def)+
  qed
  have "fl_chain (fl_page (?s3\<lparr>pg_open := True\<rparr>)) (freelist_head_page_id m) chain"
    using s2(2) fl_chain_cong [OF agree] by (simp add: pager_inv_def)
  then have "pager_inv (?s3\<lparr>pg_open := True\<rparr>) m chain"
    using s2(2) unfolding pager_inv_def by simp
  moreover have "pg_disk s2 \<noteq> None"
    using s2(2) by (cases "pg_disk s2") (auto simp: pager_inv_def file_bytes_def)
  ultimately show ?thesis
    using run s1(3) s2(3,4) by (intro exI [of _ ?s3]) (auto simp: flush_frame_def)
qed

lemma pager_reopen_ok:
  assumes closed: "\<not> pg_open s1" "pg_disk s1 \<noteq> None" and inv: "pager_inv (s1\<lparr>pg_open := True\<rparr>) m chain"
    and meta: "disk_page (pg_page_size s1) (file_bytes s1) META_PAGE_ID = Some (meta_bytes m)"
    and ok: "meta_ok m"
  shows "\<exists>s2. pager_open s1 = (Inr (), s2) \<and> pager_inv s2 m chain \<and> file_bytes s2 = file_bytes s1 \<and>
     pg_page_size s2 = pg_page_size s1"
proof -
  obtain b where b: "pg_disk s1 = Some b" using closed(2) by auto
  let ?s = "s1\<lparr>pg_open := True\<rparr>"
  have s: "s1\<lparr>pg_disk := Some b, pg_open := True\<rparr> = ?s" using b by simp
  let ?s2 = "?s\<lparr>pg_stats := (pg_stats s1)\<lparr>page_reads := page_reads (pg_stats s1) + 1\<rparr>\<rparr>"
  have rd: "read_page META_PAGE_ID ?s = (Inr (meta_bytes m), ?s2)"
    using read_page_ok [of ?s META_PAGE_ID "meta_bytes m"] meta by simp
  have sz: "page_size_bytes m = pg_page_size s1" "pg_meta s1 = Some m" using inv by (auto simp: pager_inv_def)
  have same: "?s2\<lparr>pg_meta := Some m, pg_page_size := page_size_bytes m\<rparr> = ?s2" using sz by simp
  have "pager_open s1 = (Inr (), ?s2\<lparr>pg_meta := Some m, pg_page_size := page_size_bytes m\<rparr>)"
    using closed(1) b rd [folded s] decode_meta_page_ok [OF ok, of "[]"]
    by (simp add: pager_open_def bind_op_def file_bytes_def)
  moreover have "fl_page ?s2 = fl_page ?s" by (simp add: fl_page_def fun_eq_iff split: option.split)
  then have "pager_inv ?s2 m chain" using inv by (simp add: pager_inv_def)
  ultimately show ?thesis unfolding same by (intro exI [of _ ?s2]) simp
qed

section \<open>What the pager promises its users\<close>

text \<open>
  The allocator as its clients see it. A client keeps a set of live pages: below the limit, none of
  them free. The locale's lemmas say that the sets stay that way, whatever the order of requests.
\<close>

locale page_allocator =
  fixes alloc :: "('s, nat) op"
    and release :: "nat \<Rightarrow> ('s, unit) op"
    and inv :: "'s \<Rightarrow> bool"
    and free_set :: "'s \<Rightarrow> nat set"
    and limit :: "'s \<Rightarrow> nat"
  assumes alloc_law: "inv s \<Longrightarrow> \<exists>p s'. alloc s = (Inr p, s') \<and> inv s' \<and> limit s \<le> limit s' \<and>
      p < limit s' \<and> 0 < p \<and> (p \<in> free_set s \<or> limit s \<le> p) \<and> free_set s' = free_set s - {p}"
    and release_law: "inv s \<Longrightarrow> 0 < p \<Longrightarrow> p < limit s \<Longrightarrow> p \<notin> free_set s \<Longrightarrow>
      \<exists>s'. release p s = (Inr (), s') \<and> inv s' \<and> limit s \<le> limit s' \<and>
        free_set s' = insert p (free_set s \<union> {limit s..<limit s'})"
begin

definition live :: "nat set \<Rightarrow> 's \<Rightarrow> bool" where
  "live L s \<longleftrightarrow> inv s \<and> L \<subseteq> {0<..<limit s} \<and> L \<inter> free_set s = {}"

lemma alloc_live:
  assumes "live L s"
  obtains p s' where "alloc s = (Inr p, s')" "p \<notin> L" "live (insert p L) s'"
proof -
  from assms have "inv s" by (simp add: live_def)
  from alloc_law [OF this] obtain p s' where *: "alloc s = (Inr p, s')" "inv s'" "limit s \<le> limit s'"
    "p < limit s'" "0 < p" "p \<in> free_set s \<or> limit s \<le> p" "free_set s' = free_set s - {p}"
    by blast
  show thesis
  proof (rule that [OF *(1)])
    show "p \<notin> L" using assms *(6) by (auto simp: live_def)
    show "live (insert p L) s'" using assms * by (auto simp: live_def)
  qed
qed

lemma release_live:
  assumes "live L s" and "p \<in> L"
  obtains s' where "release p s = (Inr (), s')" "live (L - {p}) s'" "p \<in> free_set s'"
proof -
  have "inv s" "0 < p" "p < limit s" "p \<notin> free_set s" using assms by (auto simp: live_def)
  from release_law [OF this] obtain s' where *: "release p s = (Inr (), s')" "inv s'"
    "limit s \<le> limit s'" "free_set s' = insert p (free_set s \<union> {limit s..<limit s'})"
    by blast
  show thesis
  proof (rule that [OF *(1)])
    show "live (L - {p}) s'" using assms * by (auto simp: live_def)
    show "p \<in> free_set s'" using * by simp
  qed
qed

text \<open>Any number of allocations in a row hand out pairwise different pages, none of them live.\<close>

fun alloc_many :: "nat \<Rightarrow> ('s, nat list) op" where
  "alloc_many 0 = ret []"
| "alloc_many (Suc n) = bind_op alloc (\<lambda>p. bind_op (alloc_many n) (\<lambda>ps. ret (p # ps)))"

lemma alloc_many_live:
  "live L s \<Longrightarrow> \<exists>ps s'. alloc_many n s = (Inr ps, s') \<and> length ps = n \<and> distinct ps \<and>
     set ps \<inter> L = {} \<and> live (L \<union> set ps) s'"
proof (induction n arbitrary: L s)
  case 0
  then show ?case by simp
next
  case (Suc n)
  from alloc_live [OF Suc.prems] obtain p s1 where
    p: "alloc s = (Inr p, s1)" "p \<notin> L" "live (insert p L) s1" .
  from Suc.IH [OF p(3)] obtain ps s2 where
    "alloc_many n s1 = (Inr ps, s2)" "length ps = n" "distinct ps" "set ps \<inter> insert p L = {}"
    "live (insert p L \<union> set ps) s2" by blast
  with p show ?case by (auto simp: bind_op_def)
qed

end

interpretation pager_alloc: page_allocator allocate_page free_page
  "pager_ok :: 'z pager_scheme \<Rightarrow> bool" free_ids page_limit
proof unfold_locales
  fix s :: "'z pager_scheme" assume "pager_ok s"
  then obtain m where inv: "pager_inv s m (pager_chain s)" by (rule pager_okE)
  from allocate_page_ok [OF this] obtain p s' m' chain' where
    *: "allocate_page s = (Inr p, s')" "pager_inv s' m' chain'" "p < next_page_id m'"
      "set (fl_ids chain') = set (fl_ids (pager_chain s)) - {p}"
      "if pager_chain s = [] then p = next_page_id m \<and> next_page_id m' = p + 1
       else p \<in> set (fl_ids (pager_chain s)) \<and> next_page_id m' = next_page_id m" by blast
  have "0 < p" using inv * by (auto simp: pager_inv_def split: if_splits)
  then show "\<exists>p s'. allocate_page s = (Inr p, s') \<and> pager_ok s' \<and> page_limit s \<le> page_limit s' \<and>
      p < page_limit s' \<and> 0 < p \<and> (p \<in> free_ids s \<or> page_limit s \<le> p) \<and>
      free_ids s' = free_ids s - {p}"
    using * pager_invI [OF inv] pager_invI [OF *(2)]
    by (intro exI [of _ p] exI [of _ s']) (auto split: if_splits)
next
  fix s :: "'z pager_scheme" and p
  assume "pager_ok s" and p: "0 < p" "p < page_limit s" "p \<notin> free_ids s"
  then obtain m where inv: "pager_inv s m (pager_chain s)" using pager_okE by blast
  from pager_invI [OF inv] p have p': "p \<notin> set (fl_ids (pager_chain s))" "p < next_page_id m" by auto
  from free_page_ok [OF inv p'(1) p(1) p'(2)] obtain s' m' chain' where
    "free_page p s = (Inr (), s')" "pager_inv s' m' chain'" "next_page_id m \<le> next_page_id m'"
    "set (fl_ids chain') = insert p (set (fl_ids (pager_chain s)) \<union> {next_page_id m..<next_page_id m'})"
    by blast
  then show "\<exists>s'. free_page p s = (Inr (), s') \<and> pager_ok s' \<and> page_limit s \<le> page_limit s' \<and>
      free_ids s' = insert p (free_ids s \<union> {page_limit s..<page_limit s'})"
    using pager_invI [OF inv] pager_invI by (metis)
qed

section \<open>Properties of the pager\<close>

text \<open>
  A client of the allocator: it allocates and releases in any order, keeps the set of the pages it
  holds, releases only pages it holds, and stops with an assertion if it is handed one it still holds.
\<close>

datatype alloc_request = Allocate | Release nat

fun client_run :: "alloc_request list \<Rightarrow> nat set \<Rightarrow> ('z pager_scheme, nat set) op" where
  "client_run [] held = ret held"
| "client_run (Allocate # rs) held =
     bind_op allocate_page (\<lambda>p.
     if p \<in> held then raise AssertionError else client_run rs (insert p held))"
| "client_run (Release p # rs) held =
     (if p \<in> held then bind_op (free_page p) (\<lambda>_. client_run rs (held - {p}))
      else client_run rs held)"

lemma client_run_live:
  "pager_alloc.live held s \<Longrightarrow>
     \<exists>held' s'. client_run rs held s = (Inr held', s') \<and> pager_alloc.live held' s'"
proof (induction rs held arbitrary: s rule: client_run.induct)
  case (1 held)
  then show ?case by simp
next
  case (2 rs held)
  from pager_alloc.alloc_live [OF 2(2)] obtain p s' where
    "allocate_page s = (Inr p, s')" "p \<notin> held" "pager_alloc.live (insert p held) s'" .
  with 2(1) [of p s'] show ?case by (simp add: bind_op_def)
next
  case (3 p rs held)
  show ?case
  proof (cases "p \<in> held")
    case True
    from pager_alloc.release_live [OF 3(3) True] obtain s' where
      "free_page p s = (Inr (), s')" "pager_alloc.live (held - {p}) s'" .
    with 3(1) [OF True, of s'] True show ?thesis by (simp add: bind_op_def)
  next
    case False
    with 3 show ?thesis by simp
  qed
qed

text \<open>
  C16: whatever sequence of allocations and releases a client issues, every request returns, no page
  is handed out that the client still holds, and the pages it holds stay below the high-water mark
  and off the freelist.
\<close>

theorem allocator_never_shares_a_page:
  fixes s :: "'z pager_scheme"
  assumes "pager_ok s" and "held \<subseteq> {0<..<page_limit s}" and "held \<inter> free_ids s = {}"
  shows "\<exists>held' s'. client_run rs held s = (Inr held', s') \<and> pager_ok s' \<and>
     held' \<subseteq> {0<..<page_limit s'} \<and> held' \<inter> free_ids s' = {}"
  using client_run_live [of held s rs] assms by (auto simp: pager_alloc.live_def)

lemma bootstrapped_pager:
  obtains s0 s :: pager where "Pager_init None 64 = Inr s0" "pager_open s0 = (Inr (), s)" "pager_ok s"
    "page_limit s = 2" "free_ids s = {}" "pg_page_size s = 64"
    "pg_meta s = Some \<lparr>page_size_bytes = 64, root_page_id = 1, next_page_id = 2,
       freelist_head_page_id = 0, last_checkpoint_lsn = 0\<rparr>"
    "meta_synced s"
proof -
  obtain s0 :: pager where s0: "Pager_init None 64 = Inr s0" by (simp add: Pager_init_def)
  from pager_bootstrap_ok [of 64 s0] s0 obtain s m where s: "pager_open s0 = (Inr (), s)" "pager_inv s m []"
    "m = \<lparr>page_size_bytes = 64, root_page_id = 1, next_page_id = 2, freelist_head_page_id = 0,
       last_checkpoint_lsn = 0\<rparr>" "pg_page_size s = 64"
    "disk_page 64 (file_bytes s) 0 = Some (meta_bytes m)" by auto
  then have "meta_synced s" by (simp add: meta_synced_def META_PAGE_ID_def pager_inv_def)
  with that [OF s0 s(1)] s pager_invI [OF s(2)] show thesis by (simp add: pager_inv_def)
qed

theorem allocator_never_shares_a_page_witness:
  "\<exists>(s :: pager) held' s'. pager_ok s \<and>
     client_run [Allocate, Release 1, Allocate, Allocate] {1} s = (Inr held', s') \<and>
     held' \<inter> free_ids s' = {}"
proof -
  obtain s :: pager where s: "pager_ok s" "page_limit s = 2" "free_ids s = {}"
    using bootstrapped_pager by blast
  then have "{1} \<subseteq> {0<..<page_limit s}" "{1} \<inter> free_ids s = {}" by auto
  from allocator_never_shares_a_page [OF s(1) this, of "[Allocate, Release 1, Allocate, Allocate]"] s(1)
  show ?thesis by blast
qed

text \<open>What \<^verbatim>\<open>free_page\<close> leaves at the head of the freelist: a cached page ending in the freed ID.\<close>

lemma free_page_head:
  assumes inv: "pager_inv s m chain" and run: "free_page p s = (Inr u, s')"
  shows "\<exists>m' f' ids. pg_meta s' = Some m' \<and> freelist_head_page_id m' \<noteq> 0 \<and>
     pg_freelist_cache s' (freelist_head_page_id m') = Some f' \<and> freed_page_ids f' = ids @ [p]"
proof -
  have meta: "pg_meta s = Some m" "pg_open s" "next_page_id m \<noteq> 0" using inv by (auto simp: pager_inv_def)
  let ?s0 = "s\<lparr>pg_stats := (pg_stats s)\<lparr>pages_freed := pages_freed (pg_stats s) + 1\<rparr>\<rparr>"
  have "fl_page ?s0 = fl_page s" by (simp add: fl_page_def fun_eq_iff split: option.split)
  then have inv0: "pager_inv ?s0 m chain" using inv by (simp add: pager_inv_def)
  have new_head: ?thesis if "free_page_new_head p s1 = (Inr u, s')" "pg_meta s1 = Some m" "pg_open s1" for s1
    using that meta bump_allocate_ok [OF that(3,2)]
    by (auto simp: free_page_new_head_def bind_op_def op_simps update_meta_ok mark_freelist_page_dirty_def)
  show ?thesis
  proof (cases chain)
    case Nil
    then have "freelist_head_page_id m = 0" using inv by (simp add: pager_inv_def)
    then show ?thesis using new_head [of ?s0] run meta by (simp add: free_page_def bind_op_def op_simps)
  next
    case (Cons hf rest)
    then obtain h f where chain: "chain = (h, f) # rest" by (cases hf) auto
    with inv have head: "freelist_head_page_id m = h" "h \<noteq> 0" by (auto simp: pager_inv_def)
    from read_freelist_head_ok [OF inv0 [unfolded chain]] obtain s1 where
      s1: "read_freelist_head_page ?s0 = (Inr f, s1)" and inv1: "pager_inv s1 m ((h, f) # rest)" by blast
    have meta1: "pg_meta s1 = Some m" "pg_open s1" using inv1 by (auto simp: pager_inv_def)
    show ?thesis
      using run s1 head meta meta1 new_head [of s1]
      by (auto simp: free_page_def bind_op_def op_simps mark_freelist_page_dirty_def split: if_splits)
  qed
qed

text \<open>
  Releasing a page and allocating again hands back that same page, whatever the state of the
  freelist: a freed page is reused before the file grows.
\<close>

lemma freed_page_is_reused_first:
  assumes "pager_ok s" and "0 < p" and "p < page_limit s" and "p \<notin> free_ids s"
  shows "\<exists>s1 s2. free_page p s = (Inr (), s1) \<and> p \<in> free_ids s1 \<and>
     allocate_page s1 = (Inr p, s2) \<and> pager_ok s2 \<and> p \<notin> free_ids s2"
proof -
  from assms(1) obtain m where inv: "pager_inv s m (pager_chain s)" by (rule pager_okE)
  from pager_alloc.release_law [OF assms] obtain s1 where s1: "free_page p s = (Inr (), s1)" "pager_ok s1"
    "p \<in> free_ids s1" by blast
  from free_page_head [OF inv s1(1)] have "fst (allocate_page s1) = Inr p"
    by (auto simp: allocate_page_def read_freelist_head_page_def get_freelist_page_def bind_op_def op_simps
        Let_def mark_freelist_page_dirty_def forget_freelist_page_def)
  with pager_alloc.alloc_law [OF s1(2)] s1 show ?thesis by fastforce
qed

text \<open>
  Opening a path where there is no file creates a consistent, durable database: the meta page
  and one empty root leaf at page 1, an empty freelist, and the allocator's invariant.
\<close>

lemma open_bootstraps_empty_database:
  assumes "Pager_init None ps = Inr s0" and "ps < 256 ^ 4"
  shows "\<exists>s d. pager_open s0 = (Inr (), s) \<and> pager_ok s \<and> free_ids s = {} \<and> pg_durable s = pg_disk s \<and>
     pg_meta s = Some \<lparr>page_size_bytes = ps, root_page_id = 1, next_page_id = 2,
       freelist_head_page_id = 0, last_checkpoint_lsn = 0\<rparr> \<and>
     fst (read_page 1 s) = Inr d \<and> decode_page d = Inr (Node (LeafPage 0 0 []))"
proof -
  have "Pager_init None ps = Inr (pager.truncate s0)" using assms(1) by simp
  from pager_bootstrap_ok [OF this assms(2)] obtain s m where s: "pager_open s0 = (Inr (), s)" "pager_inv s m []"
    "pg_durable s = pg_disk s" "m = \<lparr>page_size_bytes = ps, root_page_id = 1, next_page_id = 2,
       freelist_head_page_id = 0, last_checkpoint_lsn = 0\<rparr>" "pg_page_size s = ps"
    "disk_page ps (file_bytes s) 1 = Some (node_bytes (LeafPage 0 0 []) ps)" by blast
  have "node_fits ps (LeafPage 0 0 [])"
    using s(2,5) assms(2) by (simp add: node_fits_def calculate_page_size_sum pager_inv_def)
  from decode_node_ok [OF this] s pager_invI [OF s(2)] read_page_ok [of s 1]
  show ?thesis by (auto simp: pager_inv_def simp del: node_bytes.simps)
qed

text \<open>
  C17: closing the pager and opening the file again loses nothing: the meta page, the freelist and
  the invariant are what they were, every byte is durable, and every page off the freelist is unchanged.
\<close>

theorem close_open_round_trip:
  assumes "pager_ok s" and "pg_meta s = Some m" and "meta_ok m" and "meta_synced s"
  shows "\<exists>s1 s2. pager_close s = (Inr (), s1) \<and> pg_durable s1 = pg_disk s1 \<and> pager_open s1 = (Inr (), s2) \<and>
     pager_ok s2 \<and> pg_meta s2 = Some m \<and> free_ids s2 = free_ids s \<and>
     (\<forall>q d. q \<notin> free_ids s \<and> q \<noteq> META_PAGE_ID \<and> disk_page (pg_page_size s) (file_bytes s) q = Some d \<longrightarrow>
        disk_page (pg_page_size s) (file_bytes s2) q = Some d)"
proof -
  from assms(1,2) have inv: "pager_inv s m (pager_chain s)" by (auto elim: pager_okE)
  from pager_close_ok [OF inv assms(3,4)] obtain s1 where s1: "pager_close s = (Inr (), s1)" "\<not> pg_open s1"
    "pg_disk s1 \<noteq> None" "pg_durable s1 = pg_disk s1" "pg_page_size s1 = pg_page_size s"
    "disk_page (pg_page_size s) (file_bytes s1) META_PAGE_ID = Some (meta_bytes m)"
    "pager_inv (s1\<lparr>pg_open := True\<rparr>) m (pager_chain s)"
    "\<forall>q d. q \<notin> free_ids s \<longrightarrow> q \<noteq> META_PAGE_ID \<longrightarrow> disk_page (pg_page_size s) (file_bytes s) q = Some d \<longrightarrow>
        disk_page (pg_page_size s) (file_bytes s1) q = Some d" by blast
  from pager_reopen_ok [OF s1(2,3,7) _ assms(3)] s1(5,6) obtain s2 where
    "pager_open s1 = (Inr (), s2)" "pager_inv s2 m (pager_chain s)" "file_bytes s2 = file_bytes s1" by auto
  with s1 pager_invI [OF inv] pager_invI [OF this(2)] show ?thesis
    by (intro exI [of _ s1] exI [of _ s2]) (simp add: pager_inv_def)
qed

theorem close_open_round_trip_witness:
  "\<exists>(s :: pager) s1 s2. pager_close s = (Inr (), s1) \<and> pager_open s1 = (Inr (), s2) \<and> pager_ok s2"
proof -
  obtain s :: pager where s: "pager_ok s" "meta_synced s"
    "pg_meta s = Some \<lparr>page_size_bytes = 64, root_page_id = 1, next_page_id = 2,
       freelist_head_page_id = 0, last_checkpoint_lsn = 0\<rparr>"
    using bootstrapped_pager by blast
  from close_open_round_trip [OF s(1,3) _ s(2)] show ?thesis by (auto simp: meta_ok_def)
qed

text \<open>
  C26: a data file that exists but holds no meta page, which is what a crash between creating the
  file and the first meta flush leaves, is refused with \<^verbatim>\<open>DBCorruptedError\<close>; it is not bootstrapped again.
\<close>

theorem empty_data_file_is_refused:
  assumes "\<not> pg_open s" and "pg_disk s = Some []"
  shows "fst (pager_open s) = Inl (DBCorruptedError ''Magic prefix not found'')"
  using assms
  by (simp add: pager_open_def bind_op_def read_page_def op_simps file_bytes_def decode_meta_page_def
      py_slice_def DATA_FILE_MAGIC_PREFIX_def)

theorem empty_data_file_is_refused_witness:
  "\<exists>s. Pager_init (Some []) 4096 = Inr s \<and>
     fst (pager_open s) = Inl (DBCorruptedError ''Magic prefix not found'')"
proof -
  obtain s where s: "Pager_init (Some []) 4096 = Inr s" by (simp add: Pager_init_def)
  then have "\<not> pg_open s" "pg_disk s = Some []" by (auto simp: Pager_init_def)
  from empty_data_file_is_refused [OF this] s show ?thesis by blast
qed

end
