(* ===== verification/Cache.thy ===== *)
theory Cache
  imports Pager
begin

text \<open>
  The buffer pool of \<^verbatim>\<open>src/bptreedb/cache.py\<close>: an LRU cache of decoded tree pages over the pager.

  The state \<open>buffer_pool\<close> extends the pager's: the ordered dictionary \<^verbatim>\<open>_cache\<close> is an association
  list from the least to the most recently used entry. Pages are values, so the one thing Python code
  can do to a page besides calling the pool's methods, assigning to the attributes of the object it
  got from \<^verbatim>\<open>get\<close>, is the operation \<open>mutate_page\<close>: it changes the cached object if the page is
  still cached; if the page was evicted in between the assignment is lost to the pool.

  The section on the abstract store specifies the pool: a map of page contents, a set of pages that
  are safe from eviction, a set of pages that were modified and not yet marked dirty, and a budget of
  pool operations that can still be made before an eviction can hit a page in use. \<open>pool_ok\<close> relates
  it to the pool's state and the laws say what each method does to it.
\<close>

section \<open>State\<close>

datatype cached_page = CachedPage (cp_page: node) (is_dirty: bool)

record pool_stats =
  cache_hits :: nat
  cache_misses :: nat
  evictions :: nat
  flushes :: nat
  dirty_pages_flushed :: nat

definition fresh_pool_stats :: pool_stats where
  "fresh_pool_stats = \<lparr>cache_hits = 0, cache_misses = 0, evictions = 0, flushes = 0,
     dirty_pages_flushed = 0\<rparr>"

definition pool_stats_reset :: "pool_stats \<Rightarrow> pool_stats" where
  "pool_stats_reset st = st\<lparr>cache_hits := 0, cache_misses := 0, evictions := 0, flushes := 0,
     dirty_pages_flushed := 0\<rparr>"

type_synonym cache = "(nat \<times> cached_page) list"

record buffer_pool = pager +
  bp_cache :: cache
  bp_capacity_pages :: nat
  bp_eviction_enabled :: bool
  bp_stats :: pool_stats

text \<open>\<^verbatim>\<open>BufferPool(pager, capacity_pages)\<close>.\<close>

definition BufferPool_init :: "pager \<Rightarrow> nat \<Rightarrow> buffer_pool" where
  "BufferPool_init p capacity = pager.extend p
     \<lparr>bp_cache = [], bp_capacity_pages = capacity, bp_eviction_enabled = True,
      bp_stats = fresh_pool_stats\<rparr>"

definition bp_bump_stat :: "(pool_stats \<Rightarrow> pool_stats) \<Rightarrow> ('z buffer_pool_scheme, unit) op" where
  "bp_bump_stat f = modify_op (\<lambda>s. s\<lparr>bp_stats := f (bp_stats s)\<rparr>)"

section \<open>The ordered dictionary\<close>

definition cache_del :: "nat \<Rightarrow> cache \<Rightarrow> cache" where
  "cache_del p c = filter (\<lambda>(q, _). q \<noteq> p) c"

definition cache_update :: "nat \<Rightarrow> (cached_page \<Rightarrow> cached_page) \<Rightarrow> cache \<Rightarrow> cache" where
  "cache_update p f c = map (\<lambda>(q, e). (q, if q = p then f e else e)) c"

definition move_to_end :: "nat \<Rightarrow> cache \<Rightarrow> cache" where
  "move_to_end p c = (case map_of c p of None \<Rightarrow> c | Some e \<Rightarrow> cache_del p c @ [(p, e)])"

fun first_clean :: "cache \<Rightarrow> nat option" where
  "first_clean [] = None"
| "first_clean ((p, e) # c) = (if \<not> is_dirty e then Some p else first_clean c)"

section \<open>Methods\<close>

text \<open>
  \<^verbatim>\<open>with self.eviction_disabled(): ...\<close>: the flag is restored when the block is left, also by an
  exception.
\<close>

definition with_eviction_disabled ::
  "('z buffer_pool_scheme, 'a) op \<Rightarrow> ('z buffer_pool_scheme, 'a) op" where
  "with_eviction_disabled body s =
     (case body (s\<lparr>bp_eviction_enabled := False\<rparr>) of
        (r, s') \<Rightarrow> (r, s'\<lparr>bp_eviction_enabled := bp_eviction_enabled s\<rparr>))"

definition dirty_entries :: "cache \<Rightarrow> nat" where
  "dirty_entries c = length (filter (\<lambda>(_, e). is_dirty e) c)"

definition dirty_count :: "'z buffer_pool_scheme \<Rightarrow> nat" where
  "dirty_count s = dirty_entries (bp_cache s)"

text \<open>
  \<^verbatim>\<open>dirty_ratio > num / den\<close>, the only use made of the ratio. The comparison is exact here; the
  division raises when the capacity is zero.
\<close>

definition dirty_ratio_above :: "nat \<Rightarrow> nat \<Rightarrow> ('z buffer_pool_scheme, bool) op" where
  "dirty_ratio_above num den =
     bind_op (gets_op bp_capacity_pages) (\<lambda>capacity.
     if capacity = 0 then raise ZeroDivisionError
     else gets_op (\<lambda>s. num * capacity < dirty_count s * den))"

definition evict_oldest_clean_page_if_full :: "('z buffer_pool_scheme, unit) op" where
  "evict_oldest_clean_page_if_full =
     bind_op (gets_op bp_eviction_enabled) (\<lambda>enabled.
     if \<not> enabled then ret ()
     else bind_op (gets_op (\<lambda>s. bp_capacity_pages s \<le> length (bp_cache s))) (\<lambda>full.
       if full then
         bind_op (gets_op (\<lambda>s. first_clean (bp_cache s))) (\<lambda>found.
         case found of
           None \<Rightarrow> raise DBBufferPoolOverflowError
         | Some page_id \<Rightarrow>
             bind_op (modify_op (\<lambda>s. s\<lparr>bp_cache := cache_del page_id (bp_cache s)\<rparr>)) (\<lambda>_.
             bp_bump_stat (\<lambda>st. st\<lparr>evictions := evictions st + 1\<rparr>)))
       else ret ()))"

definition pool_get :: "nat \<Rightarrow> ('z buffer_pool_scheme, node) op" where
  "pool_get page_id =
     bind_op (gets_op (\<lambda>s. map_of (bp_cache s) page_id)) (\<lambda>cached.
     case cached of
       Some e \<Rightarrow>
         bind_op (modify_op (\<lambda>s. s\<lparr>bp_cache := move_to_end page_id (bp_cache s)\<rparr>)) (\<lambda>_.
         bind_op (bp_bump_stat (\<lambda>st. st\<lparr>cache_hits := cache_hits st + 1\<rparr>)) (\<lambda>_.
         ret (cp_page e)))
     | None \<Rightarrow>
         bind_op evict_oldest_clean_page_if_full (\<lambda>_.
         bind_op (read_page page_id) (\<lambda>data.
         bind_op (lift_r (decode_page data)) (\<lambda>page.
         case page of
           Freelist _ \<Rightarrow> raise AssertionError
         | Node n \<Rightarrow>
             bind_op (modify_op (\<lambda>s. s\<lparr>bp_cache := bp_cache s @ [(page_id, CachedPage n False)]\<rparr>)) (\<lambda>_.
             bind_op (bp_bump_stat (\<lambda>st. st\<lparr>cache_misses := cache_misses st + 1\<rparr>)) (\<lambda>_.
             ret n))))))"

definition pool_insert :: "nat \<Rightarrow> node \<Rightarrow> nat \<Rightarrow> ('z buffer_pool_scheme, unit) op" where
  "pool_insert page_id page l =
     bind_op (bind_op (gets_op (\<lambda>s. map_of (bp_cache s) page_id = None)) assert_op) (\<lambda>_.
     bind_op evict_oldest_clean_page_if_full (\<lambda>_.
     modify_op (\<lambda>s. s\<lparr>bp_cache := bp_cache s @ [(page_id, CachedPage (set_lsn l page) True)]\<rparr>)))"

definition mark_entry_dirty :: "nat \<Rightarrow> cached_page \<Rightarrow> cached_page" where
  "mark_entry_dirty l e =
     CachedPage (set_lsn (max (last_modified_lsn (cp_page e)) l) (cp_page e)) True"

definition pool_mark_dirty :: "nat \<Rightarrow> nat \<Rightarrow> ('z buffer_pool_scheme, unit) op" where
  "pool_mark_dirty page_id l =
     bind_op (gets_op (\<lambda>s. map_of (bp_cache s) page_id)) (\<lambda>cached.
     case cached of
       None \<Rightarrow> raise KeyError
     | Some _ \<Rightarrow>
         modify_op (\<lambda>s. s\<lparr>bp_cache := cache_update page_id (mark_entry_dirty l) (bp_cache s)\<rparr>))"

definition pool_delete :: "nat \<Rightarrow> ('z buffer_pool_scheme, unit) op" where
  "pool_delete page_id = modify_op (\<lambda>s. s\<lparr>bp_cache := cache_del page_id (bp_cache s)\<rparr>)"

fun flush_entries :: "cache \<Rightarrow> ('z buffer_pool_scheme, unit) op" where
  "flush_entries [] = ret ()"
| "flush_entries ((page_id, e) # entries) =
     (if is_dirty e then
        bind_op (gets_op pg_page_size) (\<lambda>ps.
        bind_op (lift_r (encode_page (Node (cp_page e)) ps)) (\<lambda>data.
        bind_op (write_page page_id data) (\<lambda>_.
        bind_op (modify_op (\<lambda>s. s\<lparr>bp_cache :=
                   cache_update page_id (\<lambda>e. CachedPage (cp_page e) False) (bp_cache s)\<rparr>)) (\<lambda>_.
        bind_op (bp_bump_stat (\<lambda>st. st\<lparr>dirty_pages_flushed := dirty_pages_flushed st + 1\<rparr>)) (\<lambda>_.
        flush_entries entries)))))
      else flush_entries entries)"

definition flush_all :: "('z buffer_pool_scheme, unit) op" where
  "flush_all =
     bind_op (bp_bump_stat (\<lambda>st. st\<lparr>flushes := flushes st + 1\<rparr>)) (\<lambda>_.
     bind_op (gets_op bp_cache) flush_entries)"

definition get_dirty_page_ids :: "'z buffer_pool_scheme \<Rightarrow> nat list" where
  "get_dirty_page_ids s = map fst (filter (\<lambda>(_, e). is_dirty e) (bp_cache s))"

text \<open>
  Assigning the attributes \<^verbatim>\<open>slots\<close>, \<^verbatim>\<open>leftmost_child_page_id\<close> or \<^verbatim>\<open>right_sibling_page_id\<close> of the page
  object with the given ID, or mutating its list of slots: the cached object is that object as long as
  the page is in the cache. The dirty bit and \<^verbatim>\<open>last_modified_lsn\<close> are the pool's and stay.
\<close>

definition mutate_entry :: "node \<Rightarrow> cached_page \<Rightarrow> cached_page" where
  "mutate_entry page e = CachedPage (set_lsn (last_modified_lsn (cp_page e)) page) (is_dirty e)"

definition mutate_page :: "nat \<Rightarrow> node \<Rightarrow> ('z buffer_pool_scheme, unit) op" where
  "mutate_page page_id page =
     modify_op (\<lambda>s. s\<lparr>bp_cache := cache_update page_id (mutate_entry page) (bp_cache s)\<rparr>)"

section \<open>Lemmas on the ordered dictionary\<close>

lemma map_of_cache_del: "map_of (cache_del p c) q = (if q = p then None else map_of c q)"
  by (induction c) (auto simp: cache_del_def)

lemma map_of_cache_update:
  "map_of (cache_update p f c) q = (if q = p then map_option f (map_of c q) else map_of c q)"
  by (induction c) (auto simp: cache_update_def)

lemma keys_cache_del: "fst ` set (cache_del p c) = fst ` set c - {p}"
  by (force simp: cache_del_def)

lemma distinct_cache_del: "distinct (map fst c) \<Longrightarrow> distinct (map fst (cache_del p c))"
  by (simp add: cache_del_def distinct_map_filter)

lemma keys_cache_update [simp]: "map fst (cache_update p f c) = map fst c"
  by (induction c) (auto simp: cache_update_def)

lemma keys_set_cache_update [simp]: "fst ` set (cache_update p f c) = fst ` set c"
  by (metis keys_cache_update list.set_map)

lemma length_cache_update [simp]: "length (cache_update p f c) = length c"
  by (simp add: cache_update_def)

lemma cache_key: "map_of c p = Some e \<Longrightarrow> p \<in> fst ` set c"
  by (force dest: map_of_SomeD)

lemma cache_absent: "map_of c p = None \<longleftrightarrow> p \<notin> fst ` set c"
  by (simp add: map_of_eq_None_iff)

lemma set_cache_update:
  "(q, e) \<in> set (cache_update p f c) \<longleftrightarrow> (\<exists>e0. (q, e0) \<in> set c \<and> e = (if q = p then f e0 else e0))"
  by (force simp: cache_update_def)

lemma length_cache_del:
  assumes "distinct (map fst c)"
  shows "length (cache_del p c) = length c - (if p \<in> fst ` set c then 1 else 0)"
  using assms
proof (induction c)
  case Nil
  then show ?case by (simp add: cache_del_def)
next
  case (Cons a c)
  have "p \<notin> fst ` set c \<Longrightarrow> cache_del p c = c" by (force simp: cache_del_def filter_id_conv)
  moreover have "p \<in> fst ` set c \<Longrightarrow> 0 < length c" by auto
  ultimately show ?case using Cons by (cases a) (auto simp: cache_del_def)
qed

lemma first_clean_Some:
  "first_clean c = Some p \<Longrightarrow> \<exists>e pre post. c = pre @ (p, e) # post \<and> \<not> is_dirty e \<and> (\<forall>x \<in> set pre. is_dirty (snd x))"
proof (induction c)
  case Nil
  then show ?case by simp
next
  case (Cons a c)
  obtain q e where a: "a = (q, e)" by (cases a)
  show ?case
  proof (cases "is_dirty e")
    case True
    with Cons a obtain e' pre post where
      "c = pre @ (p, e') # post" "\<not> is_dirty e'" "\<forall>x \<in> set pre. is_dirty (snd x)" by auto
    with True a show ?thesis by (intro exI [of _ e'] exI [of _ "a # pre"] exI [of _ post]) auto
  next
    case False
    with Cons a show ?thesis by (intro exI [of _ e] exI [of _ "[]"] exI [of _ c]) auto
  qed
qed


text \<open>How many clean entries are less recently used than a given page.\<close>

definition clean_before :: "nat \<Rightarrow> cache \<Rightarrow> nat" where
  "clean_before p c = length (filter (\<lambda>(_, e). \<not> is_dirty e) (takeWhile (\<lambda>(q, _). q \<noteq> p) c))"

lemma clean_before_simps [simp]:
  "clean_before p [] = 0"
  "clean_before p ((q, e) # c) = (if q = p then 0 else (if is_dirty e then 0 else 1) + clean_before p c)"
  by (simp_all add: clean_before_def)

lemma clean_before_append:
  "clean_before p (c @ d) =
     (if p \<in> fst ` set c then clean_before p c
      else length (filter (\<lambda>(_, e). \<not> is_dirty e) c) + clean_before p d)"
  by (induction c) fastforce+

lemma clean_before_del_le:
  "distinct (map fst c) \<Longrightarrow> p \<noteq> q \<Longrightarrow> clean_before p c \<le> clean_before p (cache_del q c) + 1"
proof (induction c)
  case Nil
  then show ?case by simp
next
  case (Cons a c)
  have id: "q \<notin> fst ` set c \<Longrightarrow> cache_del q c = c"
    by (force simp: cache_del_def filter_id_conv)
  show ?case using Cons id by (cases a) (auto simp: cache_del_def)
qed

lemma clean_before_update_le:
  "distinct (map fst c) \<Longrightarrow> clean_before p c \<le> clean_before p (cache_update q f c) + 1"
proof (induction c)
  case Nil
  then show ?case by simp
next
  case (Cons a c)
  have id: "q \<notin> fst ` set c \<Longrightarrow> cache_update q f c = c"
    by (induction c) (auto simp: cache_update_def)
  show ?case using Cons id by (cases a) (auto simp: cache_update_def)
qed

lemma clean_before_update_same:
  "(\<And>e. is_dirty (f e) = is_dirty e) \<Longrightarrow> clean_before p (cache_update q f c) = clean_before p c"
  by (induction c) (auto simp: cache_update_def)

lemma clean_plus_dirty: "length (filter (\<lambda>(_, e). \<not> is_dirty e) c) + dirty_entries c = length c"
  by (induction c) (auto simp: dirty_entries_def)

lemma dirty_entries_simps [simp]:
  "dirty_entries [] = 0"
  "dirty_entries ((q, e) # c) = (if is_dirty e then 1 else 0) + dirty_entries c"
  "dirty_entries (c @ d) = dirty_entries c + dirty_entries d"
  by (simp_all add: dirty_entries_def)

lemma dirty_entries_del_le: "dirty_entries (cache_del p c) \<le> dirty_entries c"
  by (induction c) (auto simp: cache_del_def)

lemma dirty_entries_update_le:
  "distinct (map fst c) \<Longrightarrow> dirty_entries (cache_update p f c) \<le> dirty_entries c + 1"
proof (induction c)
  case Nil
  then show ?case by (simp add: cache_update_def)
next
  case (Cons a c)
  have id: "p \<notin> fst ` set c \<Longrightarrow> cache_update p f c = c"
    by (induction c) (auto simp: cache_update_def)
  show ?case using Cons id by (cases a) (auto simp: cache_update_def)
qed

lemma dirty_entries_update_same:
  "(\<And>e. is_dirty (f e) = is_dirty e) \<Longrightarrow> dirty_entries (cache_update p f c) = dirty_entries c"
  by (induction c) (auto simp: cache_update_def)

lemma cache_del_entry:
  "distinct (map fst c) \<Longrightarrow> map_of c p = Some e \<Longrightarrow>
     dirty_entries (cache_del p c) + (if is_dirty e then 1 else 0) = dirty_entries c"
proof (induction c)
  case Nil
  then show ?case by simp
next
  case (Cons a c)
  have id: "p \<notin> fst ` set c \<Longrightarrow> cache_del p c = c" by (force simp: cache_del_def filter_id_conv)
  show ?case using Cons id by (cases a) (auto simp: cache_del_def)
qed

lemma map_of_snoc:
  "p \<notin> fst ` set c \<Longrightarrow> map_of (c @ [(p, e)]) q = (if q = p then Some e else map_of c q)"
  by (induction c) auto

lemma first_clean_all_dirty: "first_clean c = None \<Longrightarrow> dirty_entries c = length c"
  by (induction c) (auto split: if_splits)

section \<open>The pool as an abstract store\<close>

text \<open>A node without its LSN stamp: the contents the tree works with.\<close>

definition strip :: "node \<Rightarrow> node" where
  "strip n = set_lsn 0 n"

lemma strip_simps [simp]:
  "strip (InternalPage l c ss) = InternalPage 0 c ss"
  "strip (LeafPage l r ls) = LeafPage 0 r ls"
  "strip (set_lsn l n) = strip n"
  "strip (strip n) = strip n"
  by (cases n; simp add: strip_def)+

lemma strip_size [simp]: "calculate_page_size (strip n) = calculate_page_size n"
  by (cases n) (simp_all add: calculate_page_size_def)

text \<open>What is on disk and what users of the pool see.\<close>

definition disk_node :: "'z pager_scheme \<Rightarrow> nat \<Rightarrow> node option" where
  "disk_node s p = (case disk_page (pg_page_size s) (file_bytes s) p of
     None \<Rightarrow> None
   | Some d \<Rightarrow> (case decode_page d of Inr (Node n) \<Rightarrow> Some n | _ \<Rightarrow> None))"

definition pool_view :: "'z buffer_pool_scheme \<Rightarrow> nat \<Rightarrow> node option" where
  "pool_view s p = (case map_of (bp_cache s) p of
     Some e \<Rightarrow> Some (strip (cp_page e))
   | None \<Rightarrow> map_option strip (disk_node s p))"

text \<open>
  The abstract store: the contents of the pages in use (\<open>st_pages\<close>), pages allocated or dropped whose
  contents are not defined (\<open>st_reserved\<close>), pages that stay cached for the next \<open>st_budget\<close> pool
  operations (\<open>st_hot\<close>), pages modified in memory and not yet marked dirty (\<open>st_unsaved\<close>), and the
  parameters that only some operations change.
\<close>

record store =
  st_pages :: "nat \<rightharpoonup> node"
  st_reserved :: "nat set"
  st_hot :: "nat set"
  st_unsaved :: "nat set"
  st_budget :: nat
  st_root :: nat
  st_page_size :: nat
  st_capacity :: nat
  st_evicting :: bool
  st_durable :: "bytes option"
  st_checkpoint_lsn :: nat

definition stays_cached :: "nat \<Rightarrow> cache \<Rightarrow> nat \<Rightarrow> nat \<Rightarrow> bool" where
  "stays_cached capacity c n p \<longleftrightarrow>
     (\<exists>e. map_of c p = Some e \<and> is_dirty e) \<or> n + length c \<le> capacity + clean_before p c"

definition cache_ok :: "store \<Rightarrow> cache \<Rightarrow> bool" where
  "cache_ok a c \<longleftrightarrow> distinct (map fst c) \<and> fst ` set c \<subseteq> dom (st_pages a) \<and> st_hot a \<subseteq> fst ` set c \<and>
     st_unsaved a \<subseteq> st_hot a \<and>
     (st_evicting a \<longrightarrow> (st_budget a \<noteq> 0 \<longrightarrow> dirty_entries c + st_budget a \<le> st_capacity a) \<and>
        (\<forall>p \<in> st_hot a. stays_cached (st_capacity a) c (st_budget a) p))"

definition pool_ok :: "store \<Rightarrow> 'z buffer_pool_scheme \<Rightarrow> bool" where
  "pool_ok a s \<longleftrightarrow>
     pager_alloc.live (dom (st_pages a) \<union> st_reserved a) s \<and> dom (st_pages a) \<inter> st_reserved a = {} \<and>
     map_option root_page_id (pg_meta s) = Some (st_root a) \<and>
     map_option last_checkpoint_lsn (pg_meta s) = Some (st_checkpoint_lsn a) \<and>
     pg_page_size s = st_page_size a \<and> bp_capacity_pages s = st_capacity a \<and>
     bp_eviction_enabled s = st_evicting a \<and> pg_durable s = st_durable a \<and>
     cache_ok a (bp_cache s) \<and> st_pages a \<subseteq>\<^sub>m pool_view s \<and>
     (\<forall>p e. map_of (bp_cache s) p = Some e \<longrightarrow> \<not> is_dirty e \<longrightarrow> p \<notin> st_unsaved a \<longrightarrow>
        disk_node s p = Some (cp_page e))"

text \<open>States that agree on everything the pager's invariant speaks of.\<close>

definition pager_same :: "'z pager_scheme \<Rightarrow> 'z pager_scheme \<Rightarrow> bool" where
  "pager_same s s' \<longleftrightarrow> pg_disk s' = pg_disk s \<and> pg_open s' = pg_open s \<and> pg_page_size s' = pg_page_size s \<and>
     pg_meta s' = pg_meta s \<and> pg_freelist_cache s' = pg_freelist_cache s \<and>
     pg_dirty_freelist_page_ids s' = pg_dirty_freelist_page_ids s"

lemma pager_same_laws:
  assumes "pager_same s s'"
  shows "pager_alloc.live L s' = pager_alloc.live L s" and "disk_node s' = disk_node s"
    and "file_bytes s' = file_bytes s" and "pager_inv s' m chain = pager_inv s m chain"
proof -
  show fb: "file_bytes s' = file_bytes s" using assms by (simp add: pager_same_def file_bytes_def)
  show "disk_node s' = disk_node s"
    using assms fb by (simp add: fun_eq_iff disk_node_def pager_same_def)
  have df: "disk_freelist s' = disk_freelist s"
    using assms fb by (simp add: fun_eq_iff disk_freelist_def pager_same_def)
  have fl: "fl_page s' = fl_page s"
    using assms df by (intro ext) (simp add: fl_page_def pager_same_def split: option.split)
  show inv: "pager_inv s' m chain = pager_inv s m chain" for m chain
    using assms fb df fl by (simp add: pager_inv_def pager_same_def)
  have ch: "pager_chain s' = pager_chain s"
    using assms fl by (simp add: pager_chain_def pager_same_def split: option.split)
  show "pager_alloc.live L s' = pager_alloc.live L s"
    using assms inv ch
    by (simp add: pager_alloc.live_def pager_ok_def free_ids_def page_limit_def pager_same_def)
qed

lemma pool_view_same:
  "pager_same s s' \<Longrightarrow> bp_cache s' = bp_cache s \<Longrightarrow> pool_view s' = pool_view s"
  by (simp add: fun_eq_iff pool_view_def pager_same_laws split: option.split)

lemma disk_node_simps [simp]:
  "disk_node (s\<lparr>pg_stats := st\<rparr>) = disk_node s"
  by (rule pager_same_laws) (simp add: pager_same_def)

lemma disk_node_pool [simp]:
  "disk_node (s\<lparr>bp_cache := c\<rparr>) = disk_node s"
  "disk_node (s\<lparr>bp_stats := pst\<rparr>) = disk_node s"
  "disk_node (s\<lparr>bp_eviction_enabled := ev\<rparr>) = disk_node s"
  by (rule pager_same_laws, simp add: pager_same_def)+

text \<open>
  Replacing the cache: the obligations that remain when only the cache and the abstract store's
  bookkeeping change.
\<close>

lemma pool_ok_recache:
  assumes ok: "pool_ok a s"
    and same: "pager_same s s'" "bp_capacity_pages s' = bp_capacity_pages s"
      "bp_eviction_enabled s' = bp_eviction_enabled s" "pg_durable s' = pg_durable s"
    and a': "a' = a\<lparr>st_pages := ps, st_hot := h, st_unsaved := u, st_budget := n\<rparr>"
    and dom: "dom ps = dom (st_pages a)"
    and cache: "cache_ok a' (bp_cache s')"
    and view: "\<And>p x. ps p = Some x \<Longrightarrow> pool_view s' p = Some x"
    and clean: "\<And>p e. map_of (bp_cache s') p = Some e \<Longrightarrow> \<not> is_dirty e \<Longrightarrow> p \<notin> u \<Longrightarrow>
       disk_node s p = Some (cp_page e)"
  shows "pool_ok a' s'"
proof -
  have "st_pages a' \<subseteq>\<^sub>m pool_view s'" using view by (auto simp: map_le_def a')
  then show ?thesis
    using ok same cache clean dom pager_same_laws [OF same(1)]
    unfolding pool_ok_def by (simp add: a' pager_same_def)
qed

lemma pool_okD:
  assumes "pool_ok a s"
  shows "cache_ok a (bp_cache s)" and "st_pages a p = Some x \<Longrightarrow> pool_view s p = Some x"
    and "bp_capacity_pages s = st_capacity a" and "bp_eviction_enabled s = st_evicting a"
    and "map_of (bp_cache s) p = Some e \<Longrightarrow> \<not> is_dirty e \<Longrightarrow> p \<notin> st_unsaved a \<Longrightarrow>
       disk_node s p = Some (cp_page e)"
    and "pg_page_size s = st_page_size a" and "\<exists>m. pager_inv s m (pager_chain s) \<and> root_page_id m = st_root a"
  using assms by (auto simp: pool_ok_def map_le_def dom_def pager_alloc.live_def elim!: pager_okE)

section \<open>Laws of the pool's methods\<close>

lemma more_pool:
  assumes "pager.more s' = pager.more s"
  shows "bp_cache s' = bp_cache s" "bp_capacity_pages s' = bp_capacity_pages s"
    "bp_eviction_enabled s' = bp_eviction_enabled s" "bp_stats s' = bp_stats s"
    "buffer_pool.more s' = buffer_pool.more s"
  using assms by (cases s; cases s'; simp)+

text \<open>
  Making room for one entry: at most the oldest clean entry goes, no page in use does, and the budget
  pays for it.
\<close>

lemma evict_ok:
  assumes ok: "pool_ok a s" and budget: "st_budget a = Suc n"
  shows "\<exists>s1 c1. evict_oldest_clean_page_if_full s = (Inr (), s1) \<and> bp_cache s1 = c1 \<and> pager_same s s1 \<and>
     bp_capacity_pages s1 = bp_capacity_pages s \<and> bp_eviction_enabled s1 = bp_eviction_enabled s \<and>
     pg_durable s1 = pg_durable s \<and> distinct (map fst c1) \<and> fst ` set c1 \<subseteq> fst ` set (bp_cache s) \<and>
     st_hot a \<subseteq> fst ` set c1 \<and>
     (\<forall>q. map_of c1 q = map_of (bp_cache s) q \<or> map_of c1 q = None \<and> q \<notin> st_hot a \<and>
        (\<exists>e. map_of (bp_cache s) q = Some e \<and> \<not> is_dirty e)) \<and>
     dirty_entries c1 = dirty_entries (bp_cache s) \<and>
     (st_evicting a \<longrightarrow> (\<forall>q \<in> st_hot a. (\<exists>e. map_of c1 q = Some e \<and> is_dirty e) \<or>
        n + length c1 + 1 \<le> st_capacity a + clean_before q c1))"
proof -
  let ?c = "bp_cache s"
  note d = pool_okD [OF ok]
  have c: "distinct (map fst ?c)" "st_hot a \<subseteq> fst ` set ?c" using d(1) by (auto simp: cache_ok_def)
  show ?thesis
  proof (cases "st_evicting a \<and> st_capacity a \<le> length ?c")
    case False
    then have "evict_oldest_clean_page_if_full s = (Inr (), s)"
      using d by (auto simp: evict_oldest_clean_page_if_full_def)
    moreover have "pager_same s s" by (simp add: pager_same_def)
    moreover have "st_evicting a \<longrightarrow> (\<forall>q \<in> st_hot a. (\<exists>e. map_of ?c q = Some e \<and> is_dirty e) \<or>
        n + length ?c + 1 \<le> st_capacity a + clean_before q ?c)"
      using d(1) budget by (auto simp: cache_ok_def stays_cached_def)
    ultimately show ?thesis using c by blast
  next
    case True
    then have room: "dirty_entries ?c + Suc n \<le> st_capacity a"
      and hot: "\<forall>q \<in> st_hot a. stays_cached (st_capacity a) ?c (Suc n) q"
      using d(1) budget by (auto simp: cache_ok_def)
    have "first_clean ?c \<noteq> None"
    proof
      assume "first_clean ?c = None"
      then have "dirty_entries ?c = length ?c" by (rule first_clean_all_dirty)
      with room True show False by simp
    qed
    then obtain p where p: "first_clean ?c = Some p" by auto
    from first_clean_Some [OF p] obtain e pre post where
      split: "?c = pre @ (p, e) # post" "\<not> is_dirty e" "\<forall>x \<in> set pre. is_dirty (snd x)" by blast
    have pe: "map_of ?c p = Some e" using split(1) by (intro map_of_is_SomeI [OF c(1)]) simp
    have "clean_before p ?c = 0"
      using split c(1) by (auto simp: clean_before_append filter_empty_conv)
    then have ph: "p \<notin> st_hot a" using hot True pe split(2) by (auto simp: stays_cached_def)
    let ?c1 = "cache_del p ?c"
    let ?s1 = "s\<lparr>bp_cache := ?c1, bp_stats := (bp_stats s)\<lparr>evictions := evictions (bp_stats s) + 1\<rparr>\<rparr>"
    have run: "evict_oldest_clean_page_if_full s = (Inr (), ?s1)"
      using d(3,4) True p by (simp add: evict_oldest_clean_page_if_full_def bp_bump_stat_def)
    have len: "Suc (length ?c1) = length ?c"
      using length_cache_del [OF c(1), of p] cache_key [OF pe] split(1) by simp
    have "(\<exists>e. map_of ?c1 q = Some e \<and> is_dirty e) \<or> n + length ?c1 + 1 \<le> st_capacity a + clean_before q ?c1"
      if q: "q \<in> st_hot a" for q
    proof -
      have "q \<noteq> p" using q ph by auto
      with hot q len clean_before_del_le [OF c(1), of q p] show ?thesis
        by (fastforce simp: stays_cached_def map_of_cache_del)
    qed
    moreover have "dirty_entries ?c1 = dirty_entries ?c"
      using cache_del_entry [OF c(1) pe] split(2) by simp
    moreover have "\<forall>q. map_of ?c1 q = map_of ?c q \<or> map_of ?c1 q = None \<and> q \<notin> st_hot a \<and>
        (\<exists>e. map_of ?c q = Some e \<and> \<not> is_dirty e)"
      using pe split(2) ph by (auto simp: map_of_cache_del)
    moreover have "fst ` set ?c1 \<subseteq> fst ` set ?c" "st_hot a \<subseteq> fst ` set ?c1"
      using keys_cache_del [of p ?c] c(2) ph by auto
    ultimately show ?thesis
      using run distinct_cache_del [OF c(1), of p] by (intro exI [of _ ?s1]) (simp add: pager_same_def)
  qed
qed

text \<open>Adding an entry to a cache that has room for it.\<close>

lemma cache_ok_append:
  assumes c1: "distinct (map fst c1)" "fst ` set c1 \<subseteq> dom (st_pages a)" "st_hot a \<subseteq> fst ` set c1"
    and p: "p \<notin> fst ` set c1" and ps: "dom ps = insert p (dom (st_pages a))"
    and u: "u \<subseteq> st_hot a"
    and room: "st_evicting a \<Longrightarrow> dirty_entries c1 + Suc n \<le> st_capacity a"
    and hot: "\<And>q. st_evicting a \<Longrightarrow> q \<in> st_hot a \<Longrightarrow> (\<exists>e. map_of c1 q = Some e \<and> is_dirty e) \<or>
        n + length c1 + 1 \<le> st_capacity a + clean_before q c1"
  shows "cache_ok (a\<lparr>st_pages := ps, st_hot := insert p (st_hot a), st_unsaved := u, st_budget := n\<rparr>)
     (c1 @ [(p, e)])"
proof -
  have "stays_cached (st_capacity a) (c1 @ [(p, e)]) n q" if ev: "st_evicting a" and q: "q \<in> insert p (st_hot a)" for q
  proof (cases "q = p")
    case True
    then show ?thesis
      using clean_plus_dirty [of c1] room [OF ev] p by (simp add: stays_cached_def clean_before_append)
  next
    case False
    then have "q \<in> st_hot a" using q by simp
    with hot [OF ev this] c1(3) False show ?thesis
      by (auto simp: stays_cached_def clean_before_append map_add_def split: option.splits)
  qed
  moreover have "st_evicting a \<longrightarrow> dirty_entries (c1 @ [(p, e)]) + n \<le> st_capacity a" using room by auto
  ultimately show ?thesis using c1 p ps u by (auto simp: cache_ok_def)
qed

lemma evict_keeps_view:
  assumes ok: "pool_ok a s"
    and look: "map_of c1 q = map_of (bp_cache s) q \<or> map_of c1 q = None \<and> q \<notin> st_hot a \<and>
        (\<exists>e. map_of (bp_cache s) q = Some e \<and> \<not> is_dirty e)"
    and s': "map_of (bp_cache s') q = map_of c1 q" "disk_node s' q = disk_node s q"
  shows "pool_view s' q = pool_view s q"
  using look
proof
  assume "map_of c1 q = map_of (bp_cache s) q"
  with s' show ?thesis by (simp add: pool_view_def split: option.split)
next
  assume "map_of c1 q = None \<and> q \<notin> st_hot a \<and> (\<exists>e. map_of (bp_cache s) q = Some e \<and> \<not> is_dirty e)"
  then obtain e where e: "map_of c1 q = None" "q \<notin> st_hot a" "map_of (bp_cache s) q = Some e" "\<not> is_dirty e"
    by blast
  have "st_unsaved a \<subseteq> st_hot a" using pool_okD(1) [OF ok] by (simp add: cache_ok_def)
  with e have "disk_node s q = Some (cp_page e)" using pool_okD(5) [OF ok, of q e] by blast
  with e s' show ?thesis by (simp add: pool_view_def)
qed

lemma pool_get_law:
  assumes ok: "pool_ok a s" and page: "st_pages a p = Some x" and budget: "st_budget a = Suc n"
  shows "\<exists>y s'. pool_get p s = (Inr y, s') \<and> strip y = x \<and>
     pool_ok (a\<lparr>st_hot := insert p (st_hot a), st_budget := n\<rparr>) s'"
proof (cases "map_of (bp_cache s) p")
  case (Some e)
  let ?c = "bp_cache s"
  note d = pool_okD [OF ok]
  have c: "distinct (map fst ?c)" using d(1) by (simp add: cache_ok_def)
  let ?c1 = "cache_del p ?c @ [(p, e)]"
  let ?s1 = "s\<lparr>bp_cache := ?c1, bp_stats := (bp_stats s)\<lparr>cache_hits := cache_hits (bp_stats s) + 1\<rparr>\<rparr>"
  have run: "pool_get p s = (Inr (cp_page e), ?s1)"
    using Some by (simp add: pool_get_def move_to_end_def bp_bump_stat_def)
  have x: "strip (cp_page e) = x" using d(2) [OF page] Some by (simp add: pool_view_def)
  have look: "map_of ?c1 q = map_of ?c q" for q
    using Some by (simp add: map_add_def map_of_cache_del split: option.split)
  have keys: "fst ` set ?c1 = fst ` set ?c" using keys_cache_del [of p ?c] cache_key [OF Some] by auto
  have len: "length ?c1 = length ?c"
    using length_cache_del [OF c, of p] cache_key [OF Some] by (cases ?c) auto
  have dirty: "dirty_entries ?c1 = dirty_entries ?c" using cache_del_entry [OF c Some] by simp
  have hot: "stays_cached (st_capacity a) ?c1 n q"
    if ev: "st_evicting a" and q: "q \<in> insert p (st_hot a)" for q
  proof (cases "q = p")
    case True
    have room: "dirty_entries ?c + Suc n \<le> st_capacity a" using d(1) ev budget by (auto simp: cache_ok_def)
    have "clean_before p ?c1 = length (filter (\<lambda>(_, e). \<not> is_dirty e) (cache_del p ?c))"
      by (simp add: clean_before_append keys_cache_del)
    with clean_plus_dirty [of "cache_del p ?c"] cache_del_entry [OF c Some] len room True look [of p] Some
    show ?thesis by (cases "is_dirty e") (auto simp: stays_cached_def)
  next
    case False
    then have "q \<in> st_hot a" using q by simp
    then have s0: "stays_cached (st_capacity a) ?c (Suc n) q" "q \<in> fst ` set ?c"
      using d(1) ev budget by (auto simp: cache_ok_def)
    have "clean_before q ?c1 = clean_before q (cache_del p ?c)"
      using s0(2) False by (simp add: clean_before_append keys_cache_del)
    with s0(1) clean_before_del_le [OF c False] len look [of q] show ?thesis
      by (auto simp: stays_cached_def)
  qed
  have "pool_ok (a\<lparr>st_hot := insert p (st_hot a), st_budget := n\<rparr>) ?s1"
  proof (rule pool_ok_recache [OF ok, where ps = "st_pages a" and u = "st_unsaved a" and n = n and h = "insert p (st_hot a)"])
    show "cache_ok (a\<lparr>st_hot := insert p (st_hot a), st_budget := n\<rparr>) (bp_cache ?s1)"
      using d(1) keys dirty hot budget c cache_key [OF Some] distinct_cache_del [OF c, of p] keys_cache_del [of p ?c]
      by (auto simp: cache_ok_def)
    show "pool_view ?s1 q = Some z" if "st_pages a q = Some z" for q z
      using d(2) [OF that] look [of q] by (simp add: pool_view_def split: option.splits)
    show "disk_node s q = Some (cp_page f)"
      if "map_of (bp_cache ?s1) q = Some f" "\<not> is_dirty f" "q \<notin> st_unsaved a" for q f
      using d(5) that look [of q] by simp
  qed (simp_all add: pager_same_def)
  with run x show ?thesis by blast
next
  case None
  note d = pool_okD [OF ok]
  have "map_option strip (disk_node s p) = Some x" using d(2) [OF page] None by (simp add: pool_view_def)
  then obtain y where y: "disk_node s p = Some y" "strip y = x" by auto
  from evict_ok [OF ok budget] obtain s1 c1 where e: "evict_oldest_clean_page_if_full s = (Inr (), s1)"
    "bp_cache s1 = c1" and same: "pager_same s s1" "bp_capacity_pages s1 = bp_capacity_pages s"
    "bp_eviction_enabled s1 = bp_eviction_enabled s" "pg_durable s1 = pg_durable s"
    and c1: "distinct (map fst c1)" "fst ` set c1 \<subseteq> fst ` set (bp_cache s)" "st_hot a \<subseteq> fst ` set c1"
    and look: "\<forall>q. map_of c1 q = map_of (bp_cache s) q \<or> map_of c1 q = None \<and> q \<notin> st_hot a \<and>
        (\<exists>e. map_of (bp_cache s) q = Some e \<and> \<not> is_dirty e)"
    and dirty: "dirty_entries c1 = dirty_entries (bp_cache s)"
    and hot: "st_evicting a \<longrightarrow> (\<forall>q \<in> st_hot a. (\<exists>e. map_of c1 q = Some e \<and> is_dirty e) \<or>
        n + length c1 + 1 \<le> st_capacity a + clean_before q c1)" by blast
  from y(1) obtain data where data: "disk_page (pg_page_size s) (file_bytes s) p = Some data"
      "decode_page data = Inr (Node y)"
    by (auto simp: disk_node_def split: option.splits sum.splits page.splits)
  obtain m where m: "pager_inv s m (pager_chain s)" using d(7) by blast
  let ?s2 = "s1\<lparr>pg_stats := (pg_stats s1)\<lparr>page_reads := page_reads (pg_stats s1) + 1\<rparr>\<rparr>"
  let ?s3 = "?s2\<lparr>bp_cache := c1 @ [(p, CachedPage y False)],
      bp_stats := (bp_stats s1)\<lparr>cache_misses := cache_misses (bp_stats s1) + 1\<rparr>\<rparr>"
  have "read_page p s1 = (Inr data, ?s2)"
    using same(1) data(1) m pager_same_laws(3) [OF same(1)]
    by (intro read_page_ok) (simp_all add: pager_same_def pager_inv_def)
  then have run: "pool_get p s = (Inr y, ?s3)"
    using None e data(2) by (simp add: pool_get_def bind_op_def bp_bump_stat_def)
  have p: "p \<notin> fst ` set c1" using None c1(2) by (auto simp: cache_absent)
  have keys: "fst ` set (bp_cache s) \<subseteq> dom (st_pages a)" "st_unsaved a \<subseteq> st_hot a"
    using d(1) by (auto simp: cache_ok_def)
  have room: "st_evicting a \<Longrightarrow> dirty_entries c1 + Suc n \<le> st_capacity a"
    using d(1) budget dirty by (simp add: cache_ok_def)
  have dn: "disk_node s1 = disk_node s" by (rule pager_same_laws(2) [OF same(1)])
  have lookq: "map_of (bp_cache ?s3) q = (if q = p then Some (CachedPage y False) else map_of c1 q)" for q
    using p by (simp add: map_of_snoc del: map_of_append)
  have "pool_ok (a\<lparr>st_pages := st_pages a, st_hot := insert p (st_hot a), st_unsaved := st_unsaved a, st_budget := n\<rparr>) ?s3"
  proof (rule pool_ok_recache [OF ok _ _ _ _ refl])
    show "cache_ok (a\<lparr>st_pages := st_pages a, st_hot := insert p (st_hot a), st_unsaved := st_unsaved a, st_budget := n\<rparr>)
        (bp_cache ?s3)"
      using cache_ok_append [OF c1(1) _ c1(3) p _ keys(2) room, of "st_pages a" "CachedPage y False"] c1(2) keys(1) hot page
      by auto
    show "pool_view ?s3 q = Some z" if "st_pages a q = Some z" for q z
    proof (cases "q = p")
      case True
      with that page y(2) lookq [of p] show ?thesis by (simp add: pool_view_def)
    next
      case False
      have "map_of (bp_cache ?s3) q = map_of c1 q" using lookq [of q] False by simp
      from evict_keeps_view [OF ok look [rule_format] this] dn d(2) [OF that] show ?thesis by simp
    qed
    show "disk_node s q = Some (cp_page f)"
      if "map_of (bp_cache ?s3) q = Some f" "\<not> is_dirty f" "q \<notin> st_unsaved a" for q f
      using d(5) [of q f] that lookq [of q] look [rule_format, of q] y(1) by (cases "q = p") auto
  qed (use same in \<open>auto simp: pager_same_def\<close>)
  with run y(2) show ?thesis by auto
qed


lemma pool_mutate_law:
  assumes ok: "pool_ok a s" and hot: "p \<in> st_hot a"
  shows "\<exists>s'. mutate_page p x s = (Inr (), s') \<and>
     pool_ok (a\<lparr>st_pages := (st_pages a)(p \<mapsto> strip x), st_unsaved := insert p (st_unsaved a)\<rparr>) s'"
proof -
  let ?c = "bp_cache s"
  let ?c1 = "cache_update p (mutate_entry x) ?c"
  let ?s1 = "s\<lparr>bp_cache := ?c1\<rparr>"
  note d = pool_okD [OF ok]
  have same: "is_dirty (mutate_entry x e) = is_dirty e" for e by (simp add: mutate_entry_def)
  have p: "p \<in> fst ` set ?c" using d(1) hot by (auto simp: cache_ok_def)
  have pd: "p \<in> dom (st_pages a)" using d(1) p unfolding cache_ok_def by blast
  from p obtain e where e: "map_of ?c p = Some e" using cache_absent [of ?c p] by auto
  have "pool_ok (a\<lparr>st_pages := (st_pages a)(p \<mapsto> strip x), st_hot := st_hot a,
      st_unsaved := insert p (st_unsaved a), st_budget := st_budget a\<rparr>) ?s1"
  proof (rule pool_ok_recache [OF ok _ _ _ _ refl])
    have stay: "stays_cached k ?c1 n q = stays_cached k ?c n q" for k n q
      using clean_before_update_same [OF same]
      by (auto simp: stays_cached_def map_of_cache_update same)
    show "cache_ok (a\<lparr>st_pages := (st_pages a)(p \<mapsto> strip x), st_hot := st_hot a,
        st_unsaved := insert p (st_unsaved a), st_budget := st_budget a\<rparr>) (bp_cache ?s1)"
      using d(1) hot stay
      by (auto simp: cache_ok_def dirty_entries_update_same [OF same])
    show "pool_view ?s1 q = Some z" if "((st_pages a)(p \<mapsto> strip x)) q = Some z" for q z
      using d(2) [of q z] that e
      by (auto simp: pool_view_def map_of_cache_update mutate_entry_def split: option.splits if_splits)
    show "disk_node s q = Some (cp_page f)"
      if "map_of (bp_cache ?s1) q = Some f" "\<not> is_dirty f" "q \<notin> insert p (st_unsaved a)" for q f
      using d(5) [of q f] that by (auto simp: map_of_cache_update)
  qed (use pd in \<open>auto simp: pager_same_def\<close>)
  then show ?thesis by (intro exI [of _ ?s1]) (simp add: mutate_page_def)
qed

text \<open>Assigning a page the contents it has changes nothing.\<close>

lemma mutate_entry_same: "strip (cp_page e) = strip x \<Longrightarrow> mutate_entry x e = e"
  by (cases e; cases "cp_page e"; cases x) (auto simp: mutate_entry_def)

lemma pool_restore_law:
  assumes ok: "pool_ok a s" and "st_pages a p = Some (strip x)"
  shows "mutate_page p x s = (Inr (), s)"
proof -
  have d: "distinct (map fst (bp_cache s))" using pool_okD(1) [OF ok] by (simp add: cache_ok_def)
  have "mutate_entry x e = e" if "(p, e) \<in> set (bp_cache s)" for e
    using map_of_is_SomeI [OF d that] pool_okD(2) [OF ok assms(2)] by (simp add: pool_view_def mutate_entry_same)
  then have "cache_update p (mutate_entry x) (bp_cache s) = bp_cache s"
    by (auto simp: cache_update_def intro!: map_idI)
  then show ?thesis by (simp add: mutate_page_def)
qed

lemma pool_mark_dirty_law:
  assumes ok: "pool_ok a s" and hot: "p \<in> st_hot a" and budget: "st_budget a = Suc n"
  shows "\<exists>s'. pool_mark_dirty p l s = (Inr (), s') \<and>
     pool_ok (a\<lparr>st_unsaved := st_unsaved a - {p}, st_budget := n\<rparr>) s'"
proof -
  let ?c = "bp_cache s"
  let ?c1 = "cache_update p (mark_entry_dirty l) ?c"
  let ?s1 = "s\<lparr>bp_cache := ?c1\<rparr>"
  note d = pool_okD [OF ok]
  have c: "distinct (map fst ?c)" using d(1) by (simp add: cache_ok_def)
  have "p \<in> fst ` set ?c" using d(1) hot by (auto simp: cache_ok_def)
  then obtain e where e: "map_of ?c p = Some e" using cache_absent [of ?c p] by auto
  have stay: "stays_cached (st_capacity a) ?c1 n q" if "stays_cached (st_capacity a) ?c (Suc n) q" for q
    using that clean_before_update_le [OF c, of q p "mark_entry_dirty l"]
    by (auto simp: stays_cached_def map_of_cache_update mark_entry_dirty_def)
  have "pool_ok (a\<lparr>st_pages := st_pages a, st_hot := st_hot a, st_unsaved := st_unsaved a - {p},
      st_budget := n\<rparr>) ?s1"
  proof (rule pool_ok_recache [OF ok _ _ _ _ refl])
    show "cache_ok (a\<lparr>st_pages := st_pages a, st_hot := st_hot a, st_unsaved := st_unsaved a - {p},
      st_budget := n\<rparr>) (bp_cache ?s1)"
      using d(1) dirty_entries_update_le [OF c, of p "mark_entry_dirty l"] stay budget
      by (auto simp: cache_ok_def)
    show "pool_view ?s1 q = Some z" if "st_pages a q = Some z" for q z
      using d(2) [OF that] by (auto simp: pool_view_def map_of_cache_update mark_entry_dirty_def split: option.splits)
    show "disk_node s q = Some (cp_page f)"
      if "map_of (bp_cache ?s1) q = Some f" "\<not> is_dirty f" "q \<notin> st_unsaved a - {p}" for q f
      using d(5) [of q f] that by (auto simp: map_of_cache_update mark_entry_dirty_def split: if_splits)
  qed (auto simp: pager_same_def)
  then show ?thesis using e by (intro exI [of _ ?s1]) (simp add: pool_mark_dirty_def)
qed


text \<open>The parameters of the abstract store and the fields they stand for are unchanged.\<close>

definition same_params :: "store \<Rightarrow> 'z buffer_pool_scheme \<Rightarrow> store \<Rightarrow> 'z buffer_pool_scheme \<Rightarrow> bool" where
  "same_params a s a' s' \<longleftrightarrow> st_root a' = st_root a \<and> st_page_size a' = st_page_size a \<and>
     st_capacity a' = st_capacity a \<and> st_evicting a' = st_evicting a \<and> st_durable a' = st_durable a \<and>
     st_checkpoint_lsn a' = st_checkpoint_lsn a \<and>
     map_option root_page_id (pg_meta s') = map_option root_page_id (pg_meta s) \<and>
     map_option last_checkpoint_lsn (pg_meta s') = map_option last_checkpoint_lsn (pg_meta s) \<and>
     pg_page_size s' = pg_page_size s \<and> bp_capacity_pages s' = bp_capacity_pages s \<and>
     bp_eviction_enabled s' = bp_eviction_enabled s \<and> pg_durable s' = pg_durable s"

lemma pool_ok_repages:
  assumes "pool_ok a s" and "same_params a s a' s'"
    and "pager_alloc.live (dom (st_pages a') \<union> st_reserved a') s'"
    and "dom (st_pages a') \<inter> st_reserved a' = {}"
    and "cache_ok a' (bp_cache s')" and "st_pages a' \<subseteq>\<^sub>m pool_view s'"
    and "\<And>p e. map_of (bp_cache s') p = Some e \<Longrightarrow> \<not> is_dirty e \<Longrightarrow> p \<notin> st_unsaved a' \<Longrightarrow>
       disk_node s' p = Some (cp_page e)"
  shows "pool_ok a' s'"
  using assms unfolding pool_ok_def same_params_def by simp

text \<open>Adding and dropping pages: the set of pages with contents changes.\<close>

lemma pool_insert_law:
  assumes ok: "pool_ok a s" and p: "p \<in> st_reserved a" and budget: "st_budget a = Suc n"
  shows "\<exists>s'. pool_insert p x l s = (Inr (), s') \<and>
     pool_ok (a\<lparr>st_pages := (st_pages a)(p \<mapsto> strip x), st_reserved := st_reserved a - {p},
        st_hot := insert p (st_hot a), st_budget := n\<rparr>) s'"
proof -
  note d = pool_okD [OF ok]
  have fresh: "p \<notin> dom (st_pages a)" using ok p by (auto simp: pool_ok_def)
  have keys: "fst ` set (bp_cache s) \<subseteq> dom (st_pages a)" "st_unsaved a \<subseteq> st_hot a"
    using d(1) by (auto simp: cache_ok_def)
  with fresh have None: "map_of (bp_cache s) p = None" by (auto simp: cache_absent)
  from evict_ok [OF ok budget] obtain s1 c1 where e: "evict_oldest_clean_page_if_full s = (Inr (), s1)"
    "bp_cache s1 = c1" and same: "pager_same s s1" "bp_capacity_pages s1 = bp_capacity_pages s"
    "bp_eviction_enabled s1 = bp_eviction_enabled s" "pg_durable s1 = pg_durable s"
    and c1: "distinct (map fst c1)" "fst ` set c1 \<subseteq> fst ` set (bp_cache s)" "st_hot a \<subseteq> fst ` set c1"
    and look: "\<forall>q. map_of c1 q = map_of (bp_cache s) q \<or> map_of c1 q = None \<and> q \<notin> st_hot a \<and>
        (\<exists>e. map_of (bp_cache s) q = Some e \<and> \<not> is_dirty e)"
    and dirty: "dirty_entries c1 = dirty_entries (bp_cache s)"
    and hot: "st_evicting a \<longrightarrow> (\<forall>q \<in> st_hot a. (\<exists>e. map_of c1 q = Some e \<and> is_dirty e) \<or>
        n + length c1 + 1 \<le> st_capacity a + clean_before q c1)" by blast
  let ?e = "CachedPage (set_lsn l x) True"
  let ?s3 = "s1\<lparr>bp_cache := c1 @ [(p, ?e)]\<rparr>"
  have run: "pool_insert p x l s = (Inr (), ?s3)"
    using None e by (simp add: pool_insert_def bind_op_def)
  have p1: "p \<notin> fst ` set c1" using None c1(2) by (auto simp: cache_absent)
  have room: "st_evicting a \<Longrightarrow> dirty_entries c1 + Suc n \<le> st_capacity a"
    using d(1) budget dirty by (simp add: cache_ok_def)
  have dn: "disk_node ?s3 = disk_node s" using pager_same_laws(2) [OF same(1)] by simp
  have lookq: "map_of (bp_cache ?s3) q = (if q = p then Some ?e else map_of c1 q)" for q
    using p1 by (simp add: map_of_snoc del: map_of_append)
  let ?a = "a\<lparr>st_pages := (st_pages a)(p \<mapsto> strip x), st_hot := insert p (st_hot a),
     st_unsaved := st_unsaved a, st_budget := n\<rparr>"
  let ?a' = "a\<lparr>st_pages := (st_pages a)(p \<mapsto> strip x), st_reserved := st_reserved a - {p},
     st_hot := insert p (st_hot a), st_budget := n\<rparr>"
  have cache: "cache_ok ?a (bp_cache ?s3)"
    using cache_ok_append [OF c1(1) _ c1(3) p1 _ keys(2) room, of "(st_pages a)(p \<mapsto> strip x)" ?e] c1(2) keys(1) hot
    by auto
  have view: "pool_view ?s3 q = Some z" if z: "((st_pages a)(p \<mapsto> strip x)) q = Some z" for q z
  proof (cases "q = p")
    case True
    with z lookq [of p] show ?thesis by (simp add: pool_view_def)
  next
    case False
    then have v: "pool_view s q = Some z" using z d(2) [of q z] by simp
    have "map_of (bp_cache ?s3) q = map_of c1 q" using lookq [of q] False by simp
    from evict_keeps_view [OF ok look [rule_format] this] dn v show ?thesis by simp
  qed
  have clean: "disk_node ?s3 q = Some (cp_page f)"
    if "map_of (bp_cache ?s3) q = Some f" "\<not> is_dirty f" "q \<notin> st_unsaved a" for q f
    using d(5) [of q f] that lookq [of q] look [rule_format, of q] dn by (cases "q = p") auto
  have "pager_same s ?s3" using same(1) by (simp add: pager_same_def)
  from pager_same_laws(1) [OF this] have live: "pager_alloc.live L ?s3 = pager_alloc.live L s" for L .
  have dom: "dom ((st_pages a)(p \<mapsto> strip x)) \<union> (st_reserved a - {p}) = dom (st_pages a) \<union> st_reserved a"
    using p by auto
  have "st_pages ?a' \<subseteq>\<^sub>m pool_view ?s3" using view by (auto simp: map_le_def)
  moreover have "dom (st_pages ?a') \<inter> st_reserved ?a' = {}" using ok by (auto simp: pool_ok_def)
  moreover have "pager_alloc.live (dom (st_pages ?a') \<union> st_reserved ?a') ?s3"
    using ok live dom by (simp add: pool_ok_def)
  moreover have "cache_ok ?a' (bp_cache ?s3)" using cache by (simp add: cache_ok_def)
  moreover have "same_params a s ?a' ?s3" using same by (simp add: same_params_def pager_same_def)
  ultimately have "pool_ok ?a' ?s3"
    using pool_ok_repages [OF ok, of ?a' ?s3] clean by simp
  with run show ?thesis by (intro exI [of _ ?s3]) simp
qed

lemma pool_delete_law:
  assumes ok: "pool_ok a s" and p: "p \<in> dom (st_pages a)"
  shows "\<exists>s'. pool_delete p s = (Inr (), s') \<and>
     pool_ok (a\<lparr>st_pages := (st_pages a)(p := None), st_reserved := insert p (st_reserved a),
        st_hot := st_hot a - {p}, st_unsaved := st_unsaved a - {p}\<rparr>) s'"
proof -
  let ?c = "bp_cache s"
  let ?s = "s\<lparr>bp_cache := cache_del p ?c\<rparr>"
  let ?a = "a\<lparr>st_pages := (st_pages a)(p := None), st_reserved := insert p (st_reserved a),
        st_hot := st_hot a - {p}, st_unsaved := st_unsaved a - {p}\<rparr>"
  note d = pool_okD [OF ok]
  have c: "distinct (map fst ?c)" using d(1) by (simp add: cache_ok_def)
  have "stays_cached (st_capacity a) (cache_del p ?c) n q" if "stays_cached (st_capacity a) ?c n q" "q \<noteq> p" for n q
  proof (cases "p \<in> fst ` set ?c")
    case True
    then have "Suc (length (cache_del p ?c)) = length ?c"
      using length_cache_del [OF c, of p] by (cases ?c) auto
    with that clean_before_del_le [OF c that(2)] show ?thesis
      by (auto simp: stays_cached_def map_of_cache_del)
  next
    case False
    then have "cache_del p ?c = ?c" by (force simp: cache_del_def filter_id_conv)
    with that show ?thesis by simp
  qed
  then have cache: "cache_ok ?a (cache_del p ?c)"
    using d(1) distinct_cache_del [OF c, of p] dirty_entries_del_le [of p ?c] keys_cache_del [of p ?c]
    by (auto simp: cache_ok_def)
  have view: "st_pages ?a \<subseteq>\<^sub>m pool_view ?s"
  proof -
    have "pool_view ?s q = pool_view s q" if "q \<noteq> p" for q
      using that by (simp add: pool_view_def map_of_cache_del split: option.split)
    then show ?thesis using d(2) by (auto simp: map_le_def)
  qed
  have clean: "disk_node ?s q = Some (cp_page f)"
    if "map_of (bp_cache ?s) q = Some f" "\<not> is_dirty f" "q \<notin> st_unsaved ?a" for q f
    using d(5) [of q f] that by (auto simp: map_of_cache_del split: if_splits)
  have live: "pager_alloc.live L ?s = pager_alloc.live L s" for L
    by (rule pager_same_laws) (simp add: pager_same_def)
  have dom: "dom ((st_pages a)(p := None)) \<union> insert p (st_reserved a) = dom (st_pages a) \<union> st_reserved a"
    using p by auto
  have "dom (st_pages ?a) \<inter> st_reserved ?a = {}" using ok by (auto simp: pool_ok_def)
  moreover have "pager_alloc.live (dom (st_pages ?a) \<union> st_reserved ?a) ?s"
    using ok live dom by (simp add: pool_ok_def)
  moreover have "same_params a s ?a ?s" by (simp add: same_params_def)
  ultimately have "pool_ok ?a ?s"
    using pool_ok_repages [OF ok, of ?a ?s] cache view clean by simp
  then show ?thesis by (intro exI [of _ ?s]) (simp add: pool_delete_def)
qed


text \<open>Allocation and release of pages leave the pages in use alone.\<close>

lemma allocate_page_frame:
  assumes "pager_ok s" and "allocate_page s = (Inr p, s')"
  shows "alloc_frame s s'"
proof -
  from assms(1) obtain m where "pager_inv s m (pager_chain s)" by (rule pager_okE)
  from allocate_page_ok [OF this] assms(2) show ?thesis by auto
qed

lemma free_page_frame:
  assumes "pager_ok s" and "0 < p" "p < page_limit s" "p \<notin> free_ids s" and "free_page p s = (Inr u, s')"
  shows "alloc_frame s s'"
proof -
  from assms(1) obtain m where m: "pager_inv s m (pager_chain s)" by (rule pager_okE)
  from pager_invI [OF m] assms have "p \<notin> set (fl_ids (pager_chain s))" "p < next_page_id m" by auto
  from free_page_ok [OF m this(1) assms(2) this(2)] assms(5) show ?thesis by auto
qed

lemma disk_node_frame:
  assumes "alloc_frame s s'" and "0 < pg_page_size s" and "disk_node s q = Some x"
  shows "disk_node s' q = Some x"
proof -
  from assms(1) obtain ext where ext: "file_bytes s' = file_bytes s @ ext" "pg_page_size s' = pg_page_size s"
    by (auto simp: alloc_frame_def)
  from assms(3) obtain d where d: "disk_page (pg_page_size s) (file_bytes s) q = Some d"
    by (auto simp: disk_node_def split: option.splits)
  show ?thesis using assms(3) disk_page_append [OF assms(2) d, of ext] d by (simp add: disk_node_def ext)
qed

lemma pool_frame:
  assumes ok: "pool_ok a s" and fr: "alloc_frame s s'" and live: "pager_alloc.live (dom (st_pages a) \<union> r) s'"
    and r: "dom (st_pages a) \<inter> r = {}"
  shows "pool_ok (a\<lparr>st_reserved := r\<rparr>) s'"
proof (rule pool_ok_repages [OF ok])
  have ps: "0 < pg_page_size s" using pool_okD(7) [OF ok] by (auto simp: pager_inv_def)
  have more: "pager.more s' = pager.more s" using fr by (simp add: alloc_frame_def)
  note mp = more_pool [OF more]
  show "same_params a s (a\<lparr>st_reserved := r\<rparr>) s'"
    using fr mp by (simp add: same_params_def alloc_frame_def)
  show "st_pages (a\<lparr>st_reserved := r\<rparr>) \<subseteq>\<^sub>m pool_view s'"
    using pool_okD(2) [OF ok] disk_node_frame [OF fr ps] mp
    by (fastforce simp: map_le_def pool_view_def split: option.splits)
  show "disk_node s' p = Some (cp_page e)"
    if "map_of (bp_cache s') p = Some e" "\<not> is_dirty e" "p \<notin> st_unsaved (a\<lparr>st_reserved := r\<rparr>)" for p e
    using disk_node_frame [OF fr ps] pool_okD(5) [OF ok, of p e] that mp by simp
  show "cache_ok (a\<lparr>st_reserved := r\<rparr>) (bp_cache s')"
    using pool_okD(1) [OF ok] mp by (simp add: cache_ok_def)
qed (use live r in simp_all)

lemma pool_alloc_law:
  assumes ok: "pool_ok a s"
  shows "\<exists>p s'. allocate_page s = (Inr p, s') \<and> 0 < p \<and> p \<notin> dom (st_pages a) \<union> st_reserved a \<and>
     pool_ok (a\<lparr>st_reserved := insert p (st_reserved a)\<rparr>) s'"
proof -
  let ?L = "dom (st_pages a) \<union> st_reserved a"
  have live: "pager_alloc.live ?L s" and dj: "dom (st_pages a) \<inter> st_reserved a = {}"
    using ok by (auto simp: pool_ok_def)
  from pager_alloc.alloc_live [OF live] obtain p s' where
    p: "allocate_page s = (Inr p, s')" "p \<notin> ?L" "pager_alloc.live (insert p ?L) s'" .
  have "alloc_frame s s'" using live p(1) allocate_page_frame by (auto simp: pager_alloc.live_def)
  from pool_frame [OF ok this, of "insert p (st_reserved a)"] p dj
  have "pool_ok (a\<lparr>st_reserved := insert p (st_reserved a)\<rparr>) s'" by auto
  moreover have "0 < p" using p(3) by (auto simp: pager_alloc.live_def)
  ultimately show ?thesis using p by blast
qed

lemma pool_free_law:
  assumes ok: "pool_ok a s" and p: "p \<in> st_reserved a"
  shows "\<exists>s'. free_page p s = (Inr (), s') \<and> pool_ok (a\<lparr>st_reserved := st_reserved a - {p}\<rparr>) s'"
proof -
  let ?L = "dom (st_pages a) \<union> st_reserved a"
  have live: "pager_alloc.live ?L s" and dj: "dom (st_pages a) \<inter> st_reserved a = {}"
    using ok by (auto simp: pool_ok_def)
  have "p \<in> ?L" using p by simp
  from pager_alloc.release_live [OF live this] obtain s' where
    s': "free_page p s = (Inr (), s')" "pager_alloc.live (?L - {p}) s'" .
  have "pager_ok s" "0 < p" "p < page_limit s" "p \<notin> free_ids s"
    using live p by (auto simp: pager_alloc.live_def)
  from free_page_frame [OF this s'(1)] have "alloc_frame s s'" .
  moreover have "dom (st_pages a) \<union> (st_reserved a - {p}) = ?L - {p}" using dj p by auto
  ultimately show ?thesis
    using pool_frame [OF ok, of s' "st_reserved a - {p}"] s' dj by auto
qed

lemma pool_root_law:
  assumes ok: "pool_ok a s"
  shows "\<exists>s'. update_meta (root_page_id_update (\<lambda>_. r)) s = (Inr (), s') \<and> pool_ok (a\<lparr>st_root := r\<rparr>) s'"
proof -
  obtain m where m: "pager_inv s m (pager_chain s)" "root_page_id m = st_root a" using pool_okD(7) [OF ok] by blast
  let ?m = "m\<lparr>root_page_id := r\<rparr>"
  let ?s = "s\<lparr>pg_meta := Some ?m, pg_is_meta_dirty := True\<rparr>"
  have meta: "pg_meta s = Some m" using m by (simp add: pager_inv_def)
  have "fl_page ?s = fl_page s" by (intro ext) (simp add: fl_page_def split: option.split)
  then have inv: "pager_inv ?s ?m (pager_chain s)" using m(1) by (simp add: pager_inv_def)
  have live: "pager_alloc.live L ?s = pager_alloc.live L s" for L
    using pager_invI [OF inv] pager_invI [OF m(1)] by (simp add: pager_alloc.live_def)
  have dn: "disk_node ?s = disk_node s" by (simp add: disk_node_def fun_eq_iff)
  have "pool_view ?s q = pool_view s q" for q
    unfolding pool_view_def dn by simp
  then have "pool_view ?s = pool_view s" by (rule ext)
  then have "pool_ok (a\<lparr>st_root := r\<rparr>) ?s"
    using ok meta live dn unfolding pool_ok_def by (simp add: cache_ok_def)
  then show ?thesis using update_meta_ok [OF meta] by (intro exI [of _ ?s]) simp
qed

lemma pool_ok_live:
  assumes "pool_ok a s"
  shows "pager_alloc.live (dom (st_pages a) \<union> st_reserved a) s" and "dom (st_pages a) \<inter> st_reserved a = {}"
  using assms unfolding pool_ok_def by blast+

lemma stays_cached_mono: "stays_cached k c n p \<Longrightarrow> n' \<le> n \<Longrightarrow> stays_cached k c n' p"
  by (auto simp: stays_cached_def)

lemma pool_ok_weaken:
  assumes ok: "pool_ok a s" and "h \<subseteq> st_hot a" and "st_unsaved a \<subseteq> h" and "n \<le> st_budget a"
  shows "pool_ok (a\<lparr>st_hot := h, st_budget := n\<rparr>) s"
proof (rule pool_ok_repages [OF ok])
  show "cache_ok (a\<lparr>st_hot := h, st_budget := n\<rparr>) (bp_cache s)"
    using pool_okD(1) [OF ok] assms(2-) by (auto simp: cache_ok_def intro: stays_cached_mono)
qed (use ok pool_okD(5) [OF ok] in \<open>simp_all add: pool_ok_def same_params_def\<close>)

section \<open>The interface the tree relies on\<close>

text \<open>
  The contract between the pool (with the pager below it) and the tree. \<open>ok V R H U n r s\<close>: in state
  \<open>s\<close> the pages in use have the contents \<open>V\<close>, the pages \<open>R\<close> are reserved, the pages \<open>H\<close> stay cached
  for \<open>n\<close> more operations, the pages \<open>U\<close> among them are modified but not marked dirty, and the root
  is \<open>r\<close>.
\<close>

locale page_store =
  fixes ok :: "(nat \<rightharpoonup> node) \<Rightarrow> nat set \<Rightarrow> nat set \<Rightarrow> nat set \<Rightarrow> nat \<Rightarrow> nat \<Rightarrow> 's \<Rightarrow> bool"
    and fetch :: "nat \<Rightarrow> ('s, node) op"
    and mutate :: "nat \<Rightarrow> node \<Rightarrow> ('s, unit) op"
    and mark :: "nat \<Rightarrow> nat \<Rightarrow> ('s, unit) op"
    and install :: "nat \<Rightarrow> node \<Rightarrow> nat \<Rightarrow> ('s, unit) op"
    and forget :: "nat \<Rightarrow> ('s, unit) op"
    and alloc :: "('s, nat) op"
    and release :: "nat \<Rightarrow> ('s, unit) op"
    and set_root :: "nat \<Rightarrow> ('s, unit) op"
  assumes facts: "ok V R H U n r s \<Longrightarrow> dom V \<inter> R = {} \<and> H \<subseteq> dom V \<and> U \<subseteq> H \<and> 0 \<notin> dom V \<union> R"
    and weaken: "ok V R H U n r s \<Longrightarrow> H' \<subseteq> H \<Longrightarrow> U \<subseteq> H' \<Longrightarrow> n' \<le> n \<Longrightarrow> ok V R H' U n' r s"
    and fetch_law: "ok V R H U (Suc n) r s \<Longrightarrow> V p = Some x \<Longrightarrow>
       \<exists>y s'. fetch p s = (Inr y, s') \<and> strip y = x \<and> ok V R (insert p H) U n r s'"
    and mutate_law: "ok V R H U n r s \<Longrightarrow> p \<in> H \<Longrightarrow>
       \<exists>s'. mutate p x s = (Inr (), s') \<and> ok (V(p \<mapsto> strip x)) R H (insert p U) n r s'"
    and restore_law: "ok V R H U n r s \<Longrightarrow> V p = Some (strip x) \<Longrightarrow> mutate p x s = (Inr (), s)"
    and mark_law: "ok V R H U (Suc n) r s \<Longrightarrow> p \<in> H \<Longrightarrow>
       \<exists>s'. mark p l s = (Inr (), s') \<and> ok V R H (U - {p}) n r s'"
    and install_law: "ok V R H U (Suc n) r s \<Longrightarrow> p \<in> R \<Longrightarrow>
       \<exists>s'. install p x l s = (Inr (), s') \<and> ok (V(p \<mapsto> strip x)) (R - {p}) (insert p H) U n r s'"
    and forget_law: "ok V R H U n r s \<Longrightarrow> p \<in> dom V \<Longrightarrow>
       \<exists>s'. forget p s = (Inr (), s') \<and> ok (V(p := None)) (insert p R) (H - {p}) (U - {p}) n r s'"
    and alloc_law: "ok V R H U n r s \<Longrightarrow>
       \<exists>p s'. alloc s = (Inr p, s') \<and> 0 < p \<and> p \<notin> dom V \<union> R \<and> ok V (insert p R) H U n r s'"
    and release_law: "ok V R H U n r s \<Longrightarrow> p \<in> R \<Longrightarrow>
       \<exists>s'. release p s = (Inr (), s') \<and> ok V (R - {p}) H U n r s'"
    and root_law: "ok V R H U n r s \<Longrightarrow>
       \<exists>s'. set_root q s = (Inr (), s') \<and> ok V R H U n q s'"
begin

text \<open>Saving a page: modify the object, then mark it dirty.\<close>

lemma save_page:
  assumes "ok V R H U (Suc n) r s" and "p \<in> H"
  shows "\<exists>s'. bind_op (mutate p x) (\<lambda>_. mark p l) s = (Inr (), s') \<and> ok (V(p \<mapsto> strip x)) R H (U - {p}) n r s'"
proof -
  from mutate_law [OF assms] obtain s1 where
    s1: "mutate p x s = (Inr (), s1)" "ok (V(p \<mapsto> strip x)) R H (insert p U) (Suc n) r s1" by blast
  from mark_law [OF s1(2) assms(2)] s1(1) show ?thesis by (auto simp: bind_op_def)
qed

text \<open>Dropping a page: out of the pool, then onto the freelist.\<close>

lemma drop_page:
  assumes "ok V R H U n r s" and "p \<in> dom V"
  shows "\<exists>s'. bind_op (forget p) (\<lambda>_. release p) s = (Inr (), s') \<and> ok (V(p := None)) R (H - {p}) (U - {p}) n r s'"
proof -
  from forget_law [OF assms] obtain s1 where
    s1: "forget p s = (Inr (), s1)" "ok (V(p := None)) (insert p R) (H - {p}) (U - {p}) n r s1" by blast
  have "insert p R - {p} = R" using facts [OF assms(1)] assms(2) by auto
  with release_law [OF s1(2), of p] s1(1) show ?thesis by (auto simp: bind_op_def)
qed

text \<open>Fetching a list of pages: contents unchanged, all of them in the pool afterwards.\<close>

fun fetch_all :: "nat list \<Rightarrow> ('s, node list) op" where
  "fetch_all [] = ret []"
| "fetch_all (p # ps) = bind_op (fetch p) (\<lambda>x. bind_op (fetch_all ps) (\<lambda>xs. ret (x # xs)))"

lemma fetch_all_law:
  assumes "ok V R H U (n + length ps) r s" and "\<forall>p \<in> set ps. p \<in> dom V"
  shows "\<exists>xs s'. fetch_all ps s = (Inr xs, s') \<and> map (\<lambda>x. Some (strip x)) xs = map V ps \<and>
     ok V R (H \<union> set ps) U n r s'"
  using assms
proof (induction ps arbitrary: s H)
  case Nil
  then show ?case by simp
next
  case (Cons p ps)
  then obtain x where x: "V p = Some x" by auto
  from fetch_law [of V R H U "n + length ps" r s, OF _ x] Cons.prems(1) obtain y s1 where
    s1: "fetch p s = (Inr y, s1)" "strip y = x" "ok V R (insert p H) U (n + length ps) r s1" by auto
  from Cons.IH [OF s1(3)] Cons.prems(2) obtain xs s2 where
    "fetch_all ps s1 = (Inr xs, s2)" "map (\<lambda>x. Some (strip x)) xs = map V ps"
    "ok V R (insert p H \<union> set ps) U n r s2" by auto
  with s1 x show ?case by (auto simp: bind_op_def)
qed

end

text \<open>The part of the abstract store that the tree's operations never change.\<close>

record store_env =
  env_page_size :: nat
  env_capacity :: nat
  env_evicting :: bool
  env_durable :: "bytes option"
  env_checkpoint_lsn :: nat

definition pool_state :: "store_env \<Rightarrow> (nat \<rightharpoonup> node) \<Rightarrow> nat set \<Rightarrow> nat set \<Rightarrow> nat set \<Rightarrow> nat \<Rightarrow> nat \<Rightarrow>
    'z buffer_pool_scheme \<Rightarrow> bool" where
  "pool_state E V R H U n r = pool_ok \<lparr>st_pages = V, st_reserved = R, st_hot = H, st_unsaved = U,
     st_budget = n, st_root = r, st_page_size = env_page_size E, st_capacity = env_capacity E,
     st_evicting = env_evicting E, st_durable = env_durable E, st_checkpoint_lsn = env_checkpoint_lsn E\<rparr>"

interpretation pool: page_store "pool_state E :: _ \<Rightarrow> _ \<Rightarrow> _ \<Rightarrow> _ \<Rightarrow> _ \<Rightarrow> _ \<Rightarrow> 'z buffer_pool_scheme \<Rightarrow> bool"
  pool_get mutate_page pool_mark_dirty pool_insert pool_delete allocate_page free_page
  "\<lambda>r. update_meta (root_page_id_update (\<lambda>_. r))" for E
proof unfold_locales
  fix V R H U n r and s :: "'z buffer_pool_scheme"
  assume ok: "pool_state E V R H U n r s"
  note c = pool_okD(1) [OF ok [unfolded pool_state_def]]
  have h: "H \<subseteq> fst ` set (bp_cache s)" "fst ` set (bp_cache s) \<subseteq> dom V" "U \<subseteq> H"
    using c by (simp_all add: cache_ok_def)
  have l: "dom V \<inter> R = {}" "dom V \<union> R \<subseteq> {0<..<page_limit s}"
    using pool_ok_live [OF ok [unfolded pool_state_def], unfolded pager_alloc.live_def] by simp_all
  have "0 \<notin> dom V \<union> R" using l(2) by (meson greaterThanLessThan_iff less_irrefl subsetD)
  then show "dom V \<inter> R = {} \<and> H \<subseteq> dom V \<and> U \<subseteq> H \<and> 0 \<notin> dom V \<union> R"
    using subset_trans [OF h(1,2)] h(3) l(1) by (intro conjI)
  show "pool_state E V R H' U n' r s" if "H' \<subseteq> H" "U \<subseteq> H'" "n' \<le> n" for H' n'
    unfolding pool_state_def
    by (rule pool_ok_weaken [OF ok [unfolded pool_state_def], of H' n', simplified]) (use that in simp_all)
  show "\<exists>s'. mutate_page p x s = (Inr (), s') \<and> pool_state E (V(p \<mapsto> strip x)) R H (insert p U) n r s'"
    if "p \<in> H" for p x
    using pool_mutate_law [OF ok [unfolded pool_state_def]] that by (simp add: pool_state_def)
  show "mutate_page p x s = (Inr (), s)" if "V p = Some (strip x)" for p x
    using pool_restore_law [OF ok [unfolded pool_state_def]] that by simp
  show "\<exists>s'. pool_delete p s = (Inr (), s') \<and> pool_state E (V(p := None)) (insert p R) (H - {p}) (U - {p}) n r s'"
    if "p \<in> dom V" for p
    using pool_delete_law [OF ok [unfolded pool_state_def]] that by (simp add: pool_state_def)
  show "\<exists>p s'. allocate_page s = (Inr p, s') \<and> 0 < p \<and> p \<notin> dom V \<union> R \<and> pool_state E V (insert p R) H U n r s'"
    using pool_alloc_law [OF ok [unfolded pool_state_def]] by (simp add: pool_state_def)
  show "\<exists>s'. free_page p s = (Inr (), s') \<and> pool_state E V (R - {p}) H U n r s'" if "p \<in> R" for p
    using pool_free_law [OF ok [unfolded pool_state_def]] that by (simp add: pool_state_def)
  show "\<exists>s'. update_meta (root_page_id_update (\<lambda>_. q)) s = (Inr (), s') \<and> pool_state E V R H U n q s'" for q
    using pool_root_law [OF ok [unfolded pool_state_def]] by (simp add: pool_state_def)
next
  fix V R H U n r and s :: "'z buffer_pool_scheme"
  assume ok: "pool_state E V R H U (Suc n) r s"
  show "\<exists>y s'. pool_get p s = (Inr y, s') \<and> strip y = x \<and> pool_state E V R (insert p H) U n r s'"
    if "V p = Some x" for p x
    using pool_get_law [OF ok [unfolded pool_state_def], of p x n] that by (simp add: pool_state_def)
  show "\<exists>s'. pool_mark_dirty p l s = (Inr (), s') \<and> pool_state E V R H (U - {p}) n r s'" if "p \<in> H" for p l
    using pool_mark_dirty_law [OF ok [unfolded pool_state_def], of p n] that by (simp add: pool_state_def)
  show "\<exists>s'. pool_insert p x l s = (Inr (), s') \<and> pool_state E (V(p \<mapsto> strip x)) (R - {p}) (insert p H) U n r s'"
    if "p \<in> R" for p x l
    using pool_insert_law [OF ok [unfolded pool_state_def], of p n] that by (simp add: pool_state_def)
qed

lemma pool_meta_law:
  assumes "pool_state E V R H U n r s"
  shows "\<exists>m. get_meta s = (Inr m, s) \<and> root_page_id m = r \<and> page_size_bytes m = env_page_size E"
  using pool_okD(6,7) [OF assms [unfolded pool_state_def]]
  by (auto simp: get_meta_def op_simps pager_inv_def)

section \<open>Flushing\<close>

lemma write_live_page_inv:
  assumes inv: "pager_inv s m chain" and p: "p \<notin> set (fl_ids chain)" and len: "length d = pg_page_size s"
    and s': "s' = s\<lparr>pg_disk := Some (write_at (p * pg_page_size s) d (file_bytes s)), pg_stats := st\<rparr>"
  shows "pager_inv s' m chain" and "flush_frame {p} s s'"
proof -
  have ps: "0 < pg_page_size s" using inv by (simp add: pager_inv_def)
  show frame: "flush_frame {p} s s'"
    using disk_page_write_other [OF ps _ len] by (auto simp: flush_frame_def s' length_write_at)
  have np: "q \<noteq> p" if "q \<in> fst ` set chain" for q using that p fl_chain_pids [of chain] by blast
  have same: "disk_freelist s' q = Some g" if "q \<in> fst ` set chain" "disk_freelist s q = Some g" for q g
    using disk_freelist_frame [OF frame _ that(2)] np [OF that(1)] by simp
  have cache: "pg_freelist_cache s' = pg_freelist_cache s" by (simp add: s')
  have "fl_page s' q = fl_page s q" if q: "q \<in> fst ` set chain" for q
  proof -
    from q obtain g where g: "fl_page s q = Some g"
      using inv fl_chain_look [of "fl_page s" "freelist_head_page_id m" chain q] by (auto simp: pager_inv_def)
    then show ?thesis using same [OF q, of g] by (auto simp: fl_page_def cache split: option.splits)
  qed
  then have "fl_chain (fl_page s') (freelist_head_page_id m) chain"
    using inv fl_chain_cong [of chain "fl_page s'" "fl_page s"] by (simp add: pager_inv_def)
  moreover have "\<forall>q \<in> dom (pg_freelist_cache s) - pg_dirty_freelist_page_ids s.
      disk_freelist s' q = pg_freelist_cache s q"
  proof
    fix q assume q: "q \<in> dom (pg_freelist_cache s) - pg_dirty_freelist_page_ids s"
    then have "disk_freelist s q = pg_freelist_cache s q" "q \<in> fst ` set chain" using inv by (auto simp: pager_inv_def)
    with q same [of q] show "disk_freelist s' q = pg_freelist_cache s q" by (metis DiffD1 domD)
  qed
  ultimately show "pager_inv s' m chain"
    using inv frame unfolding pager_inv_def by (auto simp: s' flush_frame_def length_write_at)
qed

lemma dirty_entries_clean_le:
  "dirty_entries (cache_update p (\<lambda>e. CachedPage (cp_page e) False) c) \<le> dirty_entries c"
  by (induction c) (auto simp: cache_update_def)

lemma disk_node_flush:
  assumes "flush_frame W s s'" and "q \<notin> W" and "disk_node s q = Some x"
  shows "disk_node s' q = Some x"
  using assms by (auto simp: disk_node_def flush_frame_def split: option.splits)

text \<open>Writing one dirty page back: the abstract store is the same, the entry is clean.\<close>

lemma flush_one_page:
  assumes ok: "pool_ok a s" and hot: "st_hot a = {}" and e: "map_of (bp_cache s) p = Some e"
    and fits: "node_fits (pg_page_size s) (cp_page e)"
    and s': "s' = s\<lparr>pg_disk := Some (write_at (p * pg_page_size s) (node_bytes (cp_page e) (pg_page_size s)) (file_bytes s)),
      pg_stats := st, bp_cache := cache_update p (\<lambda>e. CachedPage (cp_page e) False) (bp_cache s), bp_stats := pst\<rparr>"
  shows "pool_ok a s'" and "flush_frame {p} s (s'\<lparr>bp_cache := bp_cache s, bp_stats := bp_stats s\<rparr>)"
proof -
  let ?d = "node_bytes (cp_page e) (pg_page_size s)"
  let ?s1 = "s\<lparr>pg_disk := Some (write_at (p * pg_page_size s) ?d (file_bytes s)), pg_stats := st\<rparr>"
  note d = pool_okD [OF ok]
  note live = pool_ok_live [OF ok]
  obtain m where m: "pager_inv s m (pager_chain s)" using d(7) by blast
  have c: "distinct (map fst (bp_cache s))" using d(1) by (simp add: cache_ok_def)
  have "fst ` set (bp_cache s) \<subseteq> dom (st_pages a)" using d(1) by (simp add: cache_ok_def)
  then have pd: "p \<in> dom (st_pages a)" using cache_key [OF e] by blast
  have "free_ids s \<inter> dom (st_pages a) = {}" using live(1) by (auto simp: pager_alloc.live_def)
  then have pf: "p \<notin> set (fl_ids (pager_chain s))" using pd pager_invI [OF m] by auto
  have len: "length ?d = pg_page_size s" using fits by (simp add: length_node_bytes)
  note w = write_live_page_inv [OF m pf len refl, of st]
  have same: "pager_same ?s1 s'" by (simp add: pager_same_def s')
  have dn: "disk_node s' = disk_node ?s1" by (rule pager_same_laws(2) [OF same])
  have dp: "disk_node s' p = Some (cp_page e)"
    unfolding dn using disk_page_write_same [OF len] decode_node_ok [OF fits] by (simp add: disk_node_def)
  have dq: "disk_node s' q = Some x" if "q \<noteq> p" "disk_node s q = Some x" for q x
    unfolding dn using disk_node_flush [OF w(2) _ that(2)] that(1) by simp
  have look: "map_of (bp_cache s') q = (if q = p then Some (CachedPage (cp_page e) False) else map_of (bp_cache s) q)" for q
    using e by (simp add: s' map_of_cache_update)
  have mt: "pg_meta s' = pg_meta s" "pg_page_size s' = pg_page_size s" "bp_capacity_pages s' = bp_capacity_pages s"
    "bp_eviction_enabled s' = bp_eviction_enabled s" "pg_durable s' = pg_durable s"
    by (simp_all add: s')
  show "flush_frame {p} s (s'\<lparr>bp_cache := bp_cache s, bp_stats := bp_stats s\<rparr>)"
    using w(2) by (simp add: s' flush_frame_def)
  show "pool_ok a s'"
  proof (rule pool_ok_repages [OF ok])
    show "same_params a s a s'" using mt by (simp add: same_params_def)
    have "pager_alloc.live L s' = pager_alloc.live L s" for L
      using pager_same_laws(1) [OF same, of L] pager_invI [OF m] pager_invI [OF w(1)] by (simp add: pager_alloc.live_def)
    then show "pager_alloc.live (dom (st_pages a) \<union> st_reserved a) s'" using live(1) by simp
    have "dirty_entries (bp_cache s') \<le> dirty_entries (bp_cache s)"
      unfolding s' by (simp add: dirty_entries_clean_le)
    then show "cache_ok a (bp_cache s')" using d(1) hot by (auto simp: cache_ok_def s')
    show "st_pages a \<subseteq>\<^sub>m pool_view s'"
      unfolding map_le_def
    proof
      fix q assume "q \<in> dom (st_pages a)"
      then obtain x where x: "st_pages a q = Some x" by auto
      from d(2) [OF x] e look [of q] dq [of q] have "pool_view s' q = Some x"
        by (cases "q = p") (auto simp: pool_view_def split: option.splits)
      with x show "st_pages a q = pool_view s' q" by simp
    qed
    show "disk_node s' q = Some (cp_page f)"
      if "map_of (bp_cache s') q = Some f" "\<not> is_dirty f" "q \<notin> st_unsaved a" for q f
      using that look [of q] dp dq [of q] d(5) [of q f] by (cases "q = p") auto
  qed (rule live(2))
qed

text \<open>What a flush leaves alone.\<close>

definition meta_frame :: "'z pager_scheme \<Rightarrow> 'z pager_scheme \<Rightarrow> bool" where
  "meta_frame s s' \<longleftrightarrow> pg_meta s' = pg_meta s \<and> pg_is_meta_dirty s' = pg_is_meta_dirty s \<and>
     pg_freelist_cache s' = pg_freelist_cache s \<and>
     pg_dirty_freelist_page_ids s' = pg_dirty_freelist_page_ids s \<and> pg_open s' = pg_open s"

lemma flush_entries_ok:
  assumes "pool_ok a s" and "st_hot a = {}" and "distinct (map fst es)"
    and "\<forall>(p, e) \<in> set es. map_of (bp_cache s) p = Some e"
    and "\<forall>(p, e) \<in> set es. is_dirty e \<longrightarrow> node_fits (pg_page_size s) (cp_page e)"
  shows "\<exists>s'. flush_entries es s = (Inr (), s') \<and> pool_ok a s' \<and> meta_frame s s' \<and>
     (\<forall>q. map_of (bp_cache s') q =
        (if q \<in> fst ` set es then map_option (\<lambda>e. CachedPage (cp_page e) False) (map_of (bp_cache s) q)
         else map_of (bp_cache s) q))"
  using assms
proof (induction es arbitrary: s)
  case Nil
  then show ?case by (simp add: meta_frame_def)
next
  case (Cons pe es)
  obtain p e where pe: "pe = (p, e)" by (cases pe)
  have e: "map_of (bp_cache s) p = Some e" using Cons.prems(4) pe by auto
  have p: "p \<notin> fst ` set es" "distinct (map fst es)" using Cons.prems(3) pe by auto
  show ?case
  proof (cases "is_dirty e")
    case False
    then have run: "flush_entries (pe # es) s = flush_entries es s" by (simp add: pe)
    have "CachedPage (cp_page e) False = e" using False by (cases e) simp
    with run Cons.IH [OF Cons.prems(1,2) p(2)] Cons.prems(4,5) e pe show ?thesis by auto
  next
    case True
    let ?s = "s\<lparr>pg_disk := Some (write_at (p * pg_page_size s) (node_bytes (cp_page e) (pg_page_size s)) (file_bytes s)),
      pg_stats := (pg_stats s)\<lparr>page_writes := page_writes (pg_stats s) + 1\<rparr>,
      bp_cache := cache_update p (\<lambda>e. CachedPage (cp_page e) False) (bp_cache s),
      bp_stats := (bp_stats s)\<lparr>dirty_pages_flushed := dirty_pages_flushed (bp_stats s) + 1\<rparr>\<rparr>"
    have fits: "node_fits (pg_page_size s) (cp_page e)" using Cons.prems(5) pe True by auto
    note one = flush_one_page [OF Cons.prems(1,2) e fits refl]
    have opn: "pg_open s" using pool_okD(7) [OF Cons.prems(1)] by (auto simp: pager_inv_def)
    have run: "flush_entries (pe # es) s = flush_entries es ?s"
      using True encode_node_ok [OF fits]
      by (simp add: pe bind_op_def write_page_ok [OF opn] bp_bump_stat_def del: encode_page.simps)
    have look: "map_of (bp_cache ?s) q = (if q = p then Some (CachedPage (cp_page e) False) else map_of (bp_cache s) q)" for q
      using e by (simp add: map_of_cache_update)
    have pre: "\<forall>(q, f) \<in> set es. map_of (bp_cache ?s) q = Some f"
      using Cons.prems(4) p(1) look by (force simp: pe)
    from Cons.IH [OF one(1) Cons.prems(2) p(2) pre] Cons.prems(5) obtain s' where
      s': "flush_entries es ?s = (Inr (), s')" "pool_ok a s'" "meta_frame ?s s'"
        "\<forall>q. map_of (bp_cache s') q =
          (if q \<in> fst ` set es then map_option (\<lambda>e. CachedPage (cp_page e) False) (map_of (bp_cache ?s) q)
           else map_of (bp_cache ?s) q)"
      by (auto simp: pe)
    have "meta_frame s s'" using s'(3) by (simp add: meta_frame_def)
    moreover have "map_of (bp_cache s') q =
        (if q \<in> fst ` set (pe # es) then map_option (\<lambda>e. CachedPage (cp_page e) False) (map_of (bp_cache s) q)
         else map_of (bp_cache s) q)" for q
      using s'(4) look [of q] e p(1) by (auto simp: pe)
    ultimately show ?thesis using run s'(1,2) by auto
  qed
qed

lemma flush_all_ok:
  assumes ok: "pool_ok a s" and hot: "st_hot a = {}"
    and fits: "\<forall>(p, e) \<in> set (bp_cache s). is_dirty e \<longrightarrow> node_fits (pg_page_size s) (cp_page e)"
  shows "\<exists>s'. flush_all s = (Inr (), s') \<and> pool_ok a s' \<and> meta_frame s s' \<and> dirty_count s' = 0 \<and>
     (\<forall>p x. st_pages a p = Some x \<longrightarrow> map_option strip (disk_node s' p) = Some x)"
proof -
  let ?s = "s\<lparr>bp_stats := (bp_stats s)\<lparr>flushes := flushes (bp_stats s) + 1\<rparr>\<rparr>"
  have same: "pager_same s ?s" by (simp add: pager_same_def)
  have ok1: "pool_ok a ?s"
    by (rule pool_ok_recache [OF ok same, where a' = a and ps = "st_pages a" and h = "st_hot a"
          and u = "st_unsaved a" and n = "st_budget a"])
       (use pool_okD [OF ok] pool_view_same [OF same] in auto)
  have c: "distinct (map fst (bp_cache s))" using pool_okD(1) [OF ok] by (simp add: cache_ok_def)
  have look: "\<forall>(p, e) \<in> set (bp_cache s). map_of (bp_cache ?s) p = Some e"
    using map_of_is_SomeI [OF c] by auto
  from flush_entries_ok [OF ok1 hot c look] fits obtain s' where
    s': "flush_entries (bp_cache s) ?s = (Inr (), s')" "pool_ok a s'" "meta_frame ?s s'"
      "\<forall>q. map_of (bp_cache s') q =
        (if q \<in> fst ` set (bp_cache s) then map_option (\<lambda>e. CachedPage (cp_page e) False) (map_of (bp_cache s) q)
         else map_of (bp_cache s) q)" by auto
  have run: "flush_all s = (Inr (), s')" using s'(1) by (simp add: flush_all_def bind_op_def bp_bump_stat_def)
  have clean: "\<not> is_dirty e" if "map_of (bp_cache s') q = Some e" for q e
    using that s'(4) cache_absent [of "bp_cache s" q] by (auto split: if_splits)
  have c': "distinct (map fst (bp_cache s'))" using pool_okD(1) [OF s'(2)] by (simp add: cache_ok_def)
  have "filter (\<lambda>(_, e). is_dirty e) (bp_cache s') = []"
    using clean map_of_is_SomeI [OF c'] by (auto simp: filter_empty_conv)
  then have "dirty_count s' = 0" by (simp add: dirty_count_def dirty_entries_def)
  moreover have "st_unsaved a = {}" using pool_okD(1) [OF ok] hot by (auto simp: cache_ok_def)
  then have "map_option strip (disk_node s' p) = Some x" if "st_pages a p = Some x" for p x
    using pool_okD(2) [OF s'(2) that] pool_okD(5) [OF s'(2), of p] clean [of p]
    by (auto simp: pool_view_def split: option.splits)
  moreover have "meta_frame s s'" using s'(3) by (simp add: meta_frame_def)
  ultimately show ?thesis using run s'(2) by blast
qed

section \<open>A new database\<close>

text \<open>The state of a pool over a data file that was just created, and its abstract store.\<close>

lemma pool_bootstrap_ok:
  fixes s0 :: "'z buffer_pool_scheme"
  assumes init: "Pager_init None ps = Inr (pager.truncate s0)" and ps: "ps < 256 ^ 4"
    and cache: "bp_cache s0 = []" and room: "bp_eviction_enabled s0 \<Longrightarrow> n \<le> bp_capacity_pages s0"
  shows "\<exists>s. pager_open s0 = (Inr (), s) \<and> pool_state \<lparr>env_page_size = ps, env_capacity = bp_capacity_pages s0,
      env_evicting = bp_eviction_enabled s0, env_durable = pg_disk s, env_checkpoint_lsn = 0\<rparr>
      [1 \<mapsto> LeafPage 0 0 []] {} {} {} n 1 s \<and> pager.more s = pager.more s0 \<and> meta_synced s"
proof -
  from pager_bootstrap_ok [OF init ps] obtain s m where s: "pager_open s0 = (Inr (), s)" "pager_inv s m []"
    "pg_durable s = pg_disk s" "m = \<lparr>page_size_bytes = ps, root_page_id = 1, next_page_id = 2,
       freelist_head_page_id = 0, last_checkpoint_lsn = 0\<rparr>" "pg_page_size s = ps"
    "pager.more s = pager.more s0" "disk_page ps (file_bytes s) 0 = Some (meta_bytes m)"
    "disk_page ps (file_bytes s) 1 = Some (node_bytes (LeafPage 0 0 []) ps)" by blast
  note mp = more_pool [OF s(6)]
  have "node_fits ps (LeafPage 0 0 [])"
    using s(2,5) ps by (simp add: node_fits_def calculate_page_size_sum pager_inv_def)
  from decode_node_ok [OF this] s(5,8) have dn: "disk_node s 1 = Some (LeafPage 0 0 [])"
    by (simp add: disk_node_def del: node_bytes.simps)
  have "pager_alloc.live {1} s" using pager_invI [OF s(2)] s(4) by (simp add: pager_alloc.live_def)
  moreover have "pg_meta s = Some m" using s(2) by (simp add: pager_inv_def)
  moreover have "[1 \<mapsto> LeafPage 0 0 []] \<subseteq>\<^sub>m pool_view s"
    using dn mp(1) cache by (simp add: map_le_def pool_view_def)
  ultimately have "pool_state \<lparr>env_page_size = ps, env_capacity = bp_capacity_pages s0,
      env_evicting = bp_eviction_enabled s0, env_durable = pg_disk s, env_checkpoint_lsn = 0\<rparr>
      [1 \<mapsto> LeafPage 0 0 []] {} {} {} n 1 s"
    using s mp cache room by (simp add: pool_state_def pool_ok_def cache_ok_def)
  moreover have "meta_synced s"
    using s(5,7) \<open>pg_meta s = Some m\<close> by (simp add: meta_synced_def META_PAGE_ID_def)
  ultimately show ?thesis using s(1,6) by blast
qed

text \<open>A concrete pool of four pages of 64 bytes, for the witnesses below.\<close>

lemma sample_pool:
  assumes "n \<le> 4"
  obtains E and s :: buffer_pool where "pool_state E [1 \<mapsto> LeafPage 0 0 []] {} {} {} n 1 s"
    "bp_cache s = []" "bp_capacity_pages s = 4" "env_evicting E" "env_page_size E = 64"
proof -
  obtain p :: pager where p: "Pager_init None 64 = Inr p" by (simp add: Pager_init_def)
  let ?s0 = "BufferPool_init p 4"
  have "pager.truncate ?s0 = p" by (simp add: BufferPool_init_def pager.defs)
  then have init: "Pager_init None 64 = Inr (pager.truncate ?s0)" using p by simp
  have f: "bp_cache ?s0 = []" "bp_capacity_pages ?s0 = 4" "bp_eviction_enabled ?s0"
    by (simp_all add: BufferPool_init_def pager.defs)
  from pool_bootstrap_ok [OF init _ f(1), of n] f assms obtain s where
    s: "pool_state \<lparr>env_page_size = 64, env_capacity = 4, env_evicting = True, env_durable = pg_disk s,
        env_checkpoint_lsn = 0\<rparr> [1 \<mapsto> LeafPage 0 0 []] {} {} {} n 1 s" "pager.more s = pager.more ?s0" by auto
  show thesis by (rule that [OF s(1)]) (use more_pool [OF s(2)] f in simp_all)
qed

section \<open>Properties of the buffer pool\<close>

text \<open>
  C18: fetching a page returns its current contents, whether it comes from the cache or from disk
  and whichever page is evicted for it, and changes the contents of no page.
\<close>

theorem pool_get_returns_current_contents:
  assumes "pool_state E V R H U (Suc n) r s" and "V p = Some x"
  shows "\<exists>y s'. pool_get p s = (Inr y, s') \<and> strip y = x \<and> (\<forall>q \<in> dom V. pool_view s' q = V q) \<and>
     p \<in> fst ` set (bp_cache s') \<and> pool_state E V R (insert p H) U n r s'"
proof -
  from pool.fetch_law [OF assms] obtain y s' where
    s': "pool_get p s = (Inr y, s')" "strip y = x" "pool_state E V R (insert p H) U n r s'" by blast
  note d = pool_okD [OF s'(3) [unfolded pool_state_def]]
  have "pool_view s' q = V q" if "q \<in> dom V" for q using that d(2) [of q] by auto
  moreover have "p \<in> fst ` set (bp_cache s')" using d(1) by (simp add: cache_ok_def)
  ultimately show ?thesis using s' by blast
qed

theorem pool_get_returns_current_contents_witness:
  "\<exists>(s :: buffer_pool) y s'. pool_get 1 s = (Inr y, s') \<and> strip y = LeafPage 0 0 [] \<and> 1 \<in> fst ` set (bp_cache s')"
proof -
  obtain E and s :: buffer_pool where "pool_state E [1 \<mapsto> LeafPage 0 0 []] {} {} {} (Suc 3) 1 s"
    by (rule sample_pool [of "Suc 3"]) simp
  from pool_get_returns_current_contents [OF this, of 1 "LeafPage 0 0 []"] show ?thesis by auto
qed

text \<open>How many fetches the counters of the pool have seen, hits and misses together.\<close>

definition page_fetches :: "'z buffer_pool_scheme \<Rightarrow> nat" where
  "page_fetches s = cache_hits (bp_stats s) + cache_misses (bp_stats s)"

lemma pool_get_counts:
  assumes "pool_get p s = (Inr x, s')"
  shows "page_fetches s' = Suc (page_fetches s)"
  using assms
  by (auto simp: pool_get_def bind_op_def bp_bump_stat_def read_page_def pg_bump_stat_def page_fetches_def op_simps
      evict_oldest_clean_page_if_full_def split: if_splits sum.splits page.splits option.splits prod.splits)






lemma one_dirty_page:
  fixes s :: "'z buffer_pool_scheme"
  assumes "pool_state E [p \<mapsto> x] {} {} {} n r s" and "Suc n \<le> env_capacity E"
  shows "pool_state E [p \<mapsto> strip y] {} {} {} n r (s\<lparr>bp_cache := [(p, CachedPage y True)]\<rparr>)"
proof -
  have same: "pager_same s (s\<lparr>bp_cache := [(p, CachedPage y True)]\<rparr>)" by (simp add: pager_same_def)
  show ?thesis using assms pager_same_laws(1) [OF same]
    by (simp add: pool_state_def pool_ok_def cache_ok_def dirty_entries_def map_le_def pool_view_def)
qed

lemma dirty_sample_pool:
  obtains E and s :: buffer_pool where "pool_state E [1 \<mapsto> LeafPage 0 0 [LeafSlot [7] [8]]] {} {} {} 0 1 s" "pg_page_size s = 64"
    "bp_cache s = [(1, CachedPage (LeafPage 5 0 [LeafSlot [7] [8]]) True)]" "map_option strip (disk_node s 1) = Some (LeafPage 0 0 [])"
proof -
  obtain E and s :: buffer_pool where s: "pool_state E [1 \<mapsto> LeafPage 0 0 []] {} {} {} 0 1 s" "bp_cache s = []"
    "bp_capacity_pages s = 4" "env_evicting E" "env_page_size E = 64" by (rule sample_pool [of 0]) simp
  let ?x = "LeafPage 5 0 [LeafSlot [7] [8]]"
  note ok = s(1) [unfolded pool_state_def pool_ok_def]
  have "pool_state E [1 \<mapsto> strip ?x] {} {} {} 0 1 (s\<lparr>bp_cache := [(1, CachedPage ?x True)]\<rparr>)"
    by (rule one_dirty_page [OF s(1)]) (use ok s(3) in simp)
  moreover have "map_option strip (disk_node s 1) = Some (LeafPage 0 0 [])" using ok s(2) by (simp add: pool_view_def map_le_def)
  ultimately show thesis using ok s(5) by (intro that [of E "s\<lparr>bp_cache := [(1, CachedPage ?x True)]\<rparr>"]) simp_all
qed

text \<open>
  C19: when every modified page fits the page size, flushing writes them all: afterwards no entry is dirty, the contents of every page
  can be read from the data file, and what the pool's users see has not changed.
\<close>

theorem flush_all_persists_every_page:
  assumes "pool_state E V R {} {} n r s"
    and "\<forall>(p, e) \<in> set (bp_cache s). is_dirty e \<longrightarrow> node_fits (pg_page_size s) (cp_page e)"
  shows "\<exists>s'. flush_all s = (Inr (), s') \<and> dirty_count s' = 0 \<and> get_dirty_page_ids s' = [] \<and>
     (\<forall>p \<in> dom V. map_option strip (disk_node s' p) = V p \<and> pool_view s' p = V p) \<and>
     pool_state E V R {} {} n r s'"
proof -
  from flush_all_ok [OF assms(1) [unfolded pool_state_def] _ assms(2)] obtain s' where
    s': "flush_all s = (Inr (), s')" "pool_state E V R {} {} n r s'" "dirty_count s' = 0"
      "\<forall>p x. V p = Some x \<longrightarrow> map_option strip (disk_node s' p) = Some x"
    by (auto simp: pool_state_def)
  have "get_dirty_page_ids s' = []"
    using s'(3) by (simp add: dirty_count_def dirty_entries_def get_dirty_page_ids_def)
  moreover have "pool_view s' p = V p" if "p \<in> dom V" for p
    using that pool_okD(2) [OF s'(2) [unfolded pool_state_def], of p] by auto
  ultimately show ?thesis using s' by auto
qed

theorem flush_all_persists_every_page_witness:
  "\<exists>(s :: buffer_pool) s'. get_dirty_page_ids s = [1] \<and> map_option strip (disk_node s 1) = Some (LeafPage 0 0 []) \<and>
     flush_all s = (Inr (), s') \<and> get_dirty_page_ids s' = [] \<and> map_option strip (disk_node s' 1) = Some (LeafPage 0 0 [LeafSlot [7] [8]])"
proof -
  obtain E and s :: buffer_pool where s: "pool_state E [1 \<mapsto> LeafPage 0 0 [LeafSlot [7] [8]]] {} {} {} 0 1 s" "pg_page_size s = 64"
    "bp_cache s = [(1, CachedPage (LeafPage 5 0 [LeafSlot [7] [8]]) True)]" "map_option strip (disk_node s 1) = Some (LeafPage 0 0 [])"
    by (rule dirty_sample_pool)
  have "node_fits 64 (LeafPage 5 0 [LeafSlot [7] [8]])" by (simp add: node_fits_def calculate_page_size_sum calculate_leaf_slot_size_def)
  then have "\<forall>(p, e) \<in> set (bp_cache s). is_dirty e \<longrightarrow> node_fits (pg_page_size s) (cp_page e)" using s(2,3) by simp
  from flush_all_persists_every_page [OF s(1) this] obtain s' where s': "flush_all s = (Inr (), s')" "get_dirty_page_ids s' = []"
    "map_option strip (disk_node s' 1) = Some (LeafPage 0 0 [LeafSlot [7] [8]])" by auto
  have "get_dirty_page_ids s = [1]" by (simp add: get_dirty_page_ids_def s(3))
  with s(4) s' show ?thesis by blast
qed


text \<open>
  C27: a page that was modified in memory but not yet marked dirty is not protected. In a pool of
  capacity one, fetching any other page in between evicts it, and marking it dirty then raises
  \<^verbatim>\<open>KeyError\<close>: the modification is lost.
\<close>

theorem unmarked_page_can_be_evicted:
  assumes "bp_cache s = [(p, CachedPage x False)]" and "bp_capacity_pages s = 1" and "bp_eviction_enabled s"
    and "q \<noteq> p" and "pool_get q s = (Inr y, s')"
  shows "pool_mark_dirty p l s' = (Inl KeyError, s')"
proof -
  have q: "map_of (bp_cache s) q = None" using assms(1,4) by simp
  have "evict_oldest_clean_page_if_full s =
      (Inr (), s\<lparr>bp_cache := [], bp_stats := (bp_stats s)\<lparr>evictions := evictions (bp_stats s) + 1\<rparr>\<rparr>)"
    using assms(1-3) by (simp add: evict_oldest_clean_page_if_full_def bp_bump_stat_def cache_del_def)
  then have "bp_cache s' = [(q, CachedPage y False)]"
    using assms(5) q
    by (auto simp: pool_get_def bind_op_def bp_bump_stat_def read_page_def op_simps split: if_splits sum.splits page.splits)
  then show ?thesis using assms(4) by (simp add: pool_mark_dirty_def)
qed


theorem unmarked_page_can_be_evicted_witness:
  "\<exists>(s :: buffer_pool) y s'. bp_cache s = [(1, CachedPage (LeafPage 0 0 [LeafSlot [7] [8]]) False)] \<and>
     pool_get 0 s = (Inr y, s') \<and> pool_mark_dirty 1 5 s' = (Inl KeyError, s')"
proof -
  let ?n = "LeafPage 0 0 []"
  let ?st = "\<lparr>page_reads = 0, page_writes = 0, pages_allocated = 0, pages_freed = 0,
     pages_reused_from_freelist = 0, meta_flushes = 0, fsyncs = 0\<rparr>"
  let ?s = "\<lparr>pg_disk = Some (node_bytes ?n 64), pg_durable = None, pg_open = True, pg_page_size = 64,
     pg_meta = None, pg_is_meta_dirty = False, pg_freelist_cache = Map.empty, pg_dirty_freelist_page_ids = {},
     pg_stats = ?st, bp_cache = [(1, CachedPage (LeafPage 0 0 [LeafSlot [7] [8]]) False)],
     bp_capacity_pages = 1, bp_eviction_enabled = True, bp_stats = fresh_pool_stats\<rparr>"
  have fits: "node_fits 64 ?n" by (simp add: node_fits_def calculate_page_size_sum)
  have len: "length (node_bytes ?n 64) = 64" by (rule length_node_bytes [OF fits])
  have "\<exists>s'. pool_get 0 ?s = (Inr ?n, s')"
    using decode_node_ok [OF fits] len
    by (simp add: pool_get_def bind_op_def evict_oldest_clean_page_if_full_def bp_bump_stat_def read_page_def
        op_simps file_bytes_def py_slice_def META_PAGE_ID_def del: node_bytes.simps)
  then obtain s' where s': "pool_get 0 ?s = (Inr ?n, s')" by blast
  from unmarked_page_can_be_evicted [OF _ _ _ _ s', of 1 "LeafPage 0 0 [LeafSlot [7] [8]]" 5] s'
  show ?thesis by (intro exI [of _ ?s] exI [of _ ?n] exI [of _ s']) simp
qed

end
