(* ===== verification/BTree.thy ===== *)
theory BTree
  imports Cache
begin

text \<open>
  The B+ tree of \<^verbatim>\<open>src/bptreedb/tree.py\<close>: search, insertion, deletion, range scans and rebalancing over
  the buffer pool and the pager. This theory holds the definitions, method by method; the theories
  \<open>TreeShape\<close> and \<open>TreeBalance\<close> prove them correct.

  \<^item> The state extends the pool's with the tree's statistics. The page size and the root page are
    read from the pager's meta page, as in the source.
  \<^item> A page object obtained from the pool is a value here. Wherever the source assigns to its
    attributes the model calls \<open>mutate_page\<close> with the new contents.
  \<^item> \<^verbatim>\<open>HALF_FULL_THRESHOLD * page_size\<close> is compared exactly: \<open>size < 0.4 * ps\<close> is \<open>5 * size < 2 * ps\<close>. The
    floating-point product rounds to \<open>2 * ps / 5\<close> when that is an integer and is off by far less than
    one fifth otherwise, so the comparison with an integer has the same outcome for every page size
    the format allows (below \<open>2 ^ 32\<close>).
  \<^item> A slot index of \<open>-1\<close> stands for the leftmost child, so slot indices in a path are \<open>int\<close>.
  \<^item> Descents and scans follow page pointers, so they may run forever on a corrupt file. They carry
    fuel, the number of pages in the file, and end with \<open>OutOfFuel\<close>; the rebalancing loop's fuel is
    the length of the path plus two. The theorems that an operation returns show that this is enough.
\<close>

section \<open>State\<close>

datatype path_item = PathItem (parent_page_id: nat) (parent_slot_index: int)

datatype leaf_search_result =
  LeafSearchResult (leaf_page_id: nat) (leaf_page: node) (search_path: "path_item list")

record tree_stats =
  leaf_splits :: nat
  internal_splits :: nat
  leaf_merges :: nat
  internal_merges :: nat
  leaf_redistributes :: nat
  internal_redistributes :: nat
  root_collapses :: nat

definition fresh_tree_stats :: tree_stats where
  "fresh_tree_stats = \<lparr>leaf_splits = 0, internal_splits = 0, leaf_merges = 0, internal_merges = 0,
     leaf_redistributes = 0, internal_redistributes = 0, root_collapses = 0\<rparr>"

definition tree_stats_reset :: "tree_stats \<Rightarrow> tree_stats" where
  "tree_stats_reset st = st\<lparr>leaf_splits := 0, internal_splits := 0, leaf_merges := 0,
     internal_merges := 0, leaf_redistributes := 0, internal_redistributes := 0, root_collapses := 0\<rparr>"

record tree = buffer_pool +
  tr_stats :: tree_stats

definition tr_bump_stat :: "(tree_stats \<Rightarrow> tree_stats) \<Rightarrow> ('z tree_scheme, unit) op" where
  "tr_bump_stat f = modify_op (\<lambda>s. s\<lparr>tr_stats := f (tr_stats s)\<rparr>)"

definition tree_page_size :: "('z tree_scheme, nat) op" where
  "tree_page_size = bind_op get_meta (\<lambda>m. ret (page_size_bytes m))"

definition tree_root :: "('z tree_scheme, nat) op" where
  "tree_root = bind_op get_meta (\<lambda>m. ret (root_page_id m))"

section \<open>Page sizes\<close>

definition is_page_overpopulated :: "nat \<Rightarrow> node \<Rightarrow> bool" where
  "is_page_overpopulated ps page \<longleftrightarrow> ps < calculate_page_size page"

definition is_page_underpopulated :: "nat \<Rightarrow> node \<Rightarrow> bool" where
  "is_page_underpopulated ps page \<longleftrightarrow> 5 * calculate_page_size page < 2 * ps"

definition raise_if_record_too_large :: "bytes \<Rightarrow> bytes \<Rightarrow> ('z tree_scheme, unit) op" where
  "raise_if_record_too_large key val =
     bind_op tree_page_size (\<lambda>ps.
     let max_leaf_record_size = get_max_leaf_record_size ps;
         current_leaf_record_size = int (calculate_leaf_record_size key val)
     in if max_leaf_record_size < current_leaf_record_size
        then raise (DBRecordTooLargeError max_leaf_record_size current_leaf_record_size)
        else ret ())"

section \<open>Descent\<close>

definition descend_index :: "internal_slot list \<Rightarrow> bytes \<Rightarrow> int" where
  "descend_index slots key = int (bisect_right (map ikey slots) key) - 1"

definition child_at :: "nat \<Rightarrow> internal_slot list \<Rightarrow> int \<Rightarrow> nat" where
  "child_at leftmost slots i = (if i = -1 then leftmost else child_page_id (slots ! nat i))"

fun find_leaf_loop ::
  "nat \<Rightarrow> bytes \<Rightarrow> nat \<Rightarrow> node \<Rightarrow> path_item list \<Rightarrow> ('z tree_scheme, leaf_search_result) op" where
  "find_leaf_loop fuel key page_id (LeafPage l r slots) path =
     ret (LeafSearchResult page_id (LeafPage l r slots) path)"
| "find_leaf_loop 0 key page_id (InternalPage l c slots) path = raise OutOfFuel"
| "find_leaf_loop (Suc fuel) key page_id (InternalPage l c slots) path =
     (let slot_idx = descend_index slots key;
          child_page_id = child_at c slots slot_idx
      in bind_op (pool_get child_page_id) (\<lambda>page.
         find_leaf_loop fuel key child_page_id page (path @ [PathItem page_id slot_idx])))"

definition find_leaf :: "bytes \<Rightarrow> ('z tree_scheme, leaf_search_result) op" where
  "find_leaf key =
     bind_op tree_root (\<lambda>page_id.
     bind_op (pool_get page_id) (\<lambda>page.
     bind_op (gets_op page_limit) (\<lambda>fuel.
     find_leaf_loop fuel key page_id page [])))"

text \<open>The test made on a leaf by search, insertion and deletion: the slot at the index has the key.\<close>

definition slot_has_key :: "leaf_slot list \<Rightarrow> nat \<Rightarrow> bytes \<Rightarrow> bool" where
  "slot_has_key slots i key \<longleftrightarrow> i < length slots \<and> lkey (slots ! i) = key"

definition tree_search :: "bytes \<Rightarrow> ('z tree_scheme, bytes option) op" where
  "tree_search key =
     bind_op (find_leaf key) (\<lambda>res.
     let slots = lslots (leaf_page res);
         slot_idx = bisect_left (map lkey slots) key
     in if slot_has_key slots slot_idx key then ret (Some (lvalue (slots ! slot_idx))) else ret None)"

section \<open>Splitting\<close>

fun cumulative :: "nat \<Rightarrow> nat list \<Rightarrow> nat list" where
  "cumulative acc [] = []"
| "cumulative acc (x # xs) = (acc + x) # cumulative (acc + x) xs"

text \<open>The offsets \<open>0, 1, -1, 2, -2, \<dots>\<close> tried around the byte midpoint.\<close>

definition split_offsets :: "nat \<Rightarrow> int list" where
  "split_offsets slot_count = 0 # concat (map (\<lambda>k. [int k, - int k]) [1..<slot_count])"

fun split_halves_are_balanced :: "nat \<Rightarrow> node \<Rightarrow> nat \<Rightarrow> bool" where
  "split_halves_are_balanced ps (LeafPage l r slots) i \<longleftrightarrow>
     \<not> (is_page_underpopulated ps (LeafPage 0 0 (take i slots)) \<or>
        is_page_underpopulated ps (LeafPage 0 0 (drop i slots)))"
| "split_halves_are_balanced ps (InternalPage l c slots) i \<longleftrightarrow>
     \<not> (is_page_underpopulated ps (InternalPage 0 0 (take i slots)) \<or>
        is_page_underpopulated ps (InternalPage 0 0 (drop (i + 1) slots)))"

definition choose_split_point :: "nat \<Rightarrow> node \<Rightarrow> nat list \<Rightarrow> nat" where
  "choose_split_point ps page slot_cumulative_sizes =
     (let total_body = last slot_cumulative_sizes;
          byte_midpoint = bisect_right slot_cumulative_sizes (total_body div 2);
          slot_count = length slot_cumulative_sizes
      in case find (\<lambda>c. 1 \<le> c \<and> c < int slot_count \<and> split_halves_are_balanced ps page (nat c))
                (map (\<lambda>offset. int byte_midpoint + offset) (split_offsets slot_count)) of
           Some candidate \<Rightarrow> nat candidate
         | None \<Rightarrow> byte_midpoint)"

text \<open>
  The two halves of a split and the promoted key, given the new sibling's page ID: the first \<^verbatim>\<open>match\<close>
  of \<^verbatim>\<open>_split_page\<close>. Indexing past the last slot raises.
\<close>

fun split_node :: "nat \<Rightarrow> node \<Rightarrow> nat \<Rightarrow> nat \<Rightarrow> (node \<times> node \<times> bytes) result" where
  "split_node i (LeafPage l r slots) new_id op_lsn =
     (if i < length slots
      then Inr (LeafPage l new_id (take i slots), LeafPage op_lsn r (drop i slots), lkey (slots ! i))
      else Inl IndexError)"
| "split_node i (InternalPage l c slots) new_id op_lsn =
     (if i < length slots
      then Inr (InternalPage l c (take i slots),
                InternalPage op_lsn (child_page_id (slots ! i)) (drop (i + 1) slots), ikey (slots ! i))
      else Inl IndexError)"

text \<open>The second \<^verbatim>\<open>match\<close>: the new sibling gets a slot in the parent, or in a new root.\<close>

definition attach_sibling :: "nat \<Rightarrow> nat option \<Rightarrow> bytes \<Rightarrow> nat \<Rightarrow> nat \<Rightarrow> ('z tree_scheme, nat \<times> node) op" where
  "attach_sibling page_id parent_opt promoted_key new_sibling_page_id op_lsn =
     (case parent_opt of
       None \<Rightarrow>
         bind_op allocate_page (\<lambda>new_root_page_id.
         let new_root_page = InternalPage op_lsn page_id [InternalSlot promoted_key new_sibling_page_id] in
         bind_op (pool_insert new_root_page_id new_root_page op_lsn) (\<lambda>_.
         bind_op (update_meta (root_page_id_update (\<lambda>_. new_root_page_id))) (\<lambda>_.
         ret (new_root_page_id, new_root_page))))
     | Some parent_id \<Rightarrow>
         bind_op (pool_get parent_id) (\<lambda>parent_page.
         case parent_page of
           LeafPage _ _ _ \<Rightarrow> raise AssertionError
         | InternalPage l c slots \<Rightarrow>
             let parent_page' = InternalPage l c
                   (insort_by ikey slots (InternalSlot promoted_key new_sibling_page_id)) in
             bind_op (mutate_page parent_id parent_page') (\<lambda>_.
             ret (parent_id, parent_page'))))"

definition split_page :: "nat \<Rightarrow> nat option \<Rightarrow> node \<Rightarrow> nat \<Rightarrow> ('z tree_scheme, nat \<times> node) op" where
  "split_page page_id parent_opt page op_lsn =
     bind_op tree_page_size (\<lambda>ps.
     let sizes = cumulative 0 (slot_sizes page) in
     if sizes = [] then raise IndexError
     else let split_slot_idx = choose_split_point ps page sizes in
     bind_op allocate_page (\<lambda>new_sibling_page_id.
     bind_op (lift_r (split_node split_slot_idx page new_sibling_page_id op_lsn))
       (\<lambda>(page', new_sibling_page, promoted_key).
     bind_op (mutate_page page_id page') (\<lambda>_.
     bind_op (tr_bump_stat (if is_LeafPage page then (\<lambda>st. st\<lparr>leaf_splits := leaf_splits st + 1\<rparr>)
                            else (\<lambda>st. st\<lparr>internal_splits := internal_splits st + 1\<rparr>))) (\<lambda>_.
     bind_op (pool_mark_dirty page_id op_lsn) (\<lambda>_.
     bind_op (pool_insert new_sibling_page_id new_sibling_page op_lsn) (\<lambda>_.
     attach_sibling page_id parent_opt promoted_key new_sibling_page_id op_lsn)))))))"

section \<open>Redistribution\<close>

definition set_ikey :: "bytes \<Rightarrow> internal_slot \<Rightarrow> internal_slot" where
  "set_ikey k slot = InternalSlot k (child_page_id slot)"

text \<open>\<^verbatim>\<open>parent_slot.key = key\<close>, where \<^verbatim>\<open>parent_slot\<close> is slot \<open>sep\<close> of the parent.\<close>

fun set_separator :: "nat \<Rightarrow> bytes \<Rightarrow> node \<Rightarrow> node" where
  "set_separator sep k (InternalPage l c slots) = InternalPage l c (slots[sep := set_ikey k (slots ! sep)])"
| "set_separator sep k page = page"

text \<open>One iteration of the transfer loop, on the donor, the recipient and the parent.\<close>

fun redistribute_step ::
  "bool \<Rightarrow> nat \<Rightarrow> node \<Rightarrow> node \<Rightarrow> node \<Rightarrow> unit result \<times> (node \<times> node \<times> node)" where
  "redistribute_step donor_is_left sep (LeafPage dl dr ds) (LeafPage rl rr rs) parent =
     (if ds = [] then (Inl IndexError, (LeafPage dl dr ds, LeafPage rl rr rs, parent))
      else if donor_is_left then
        (Inr (), (LeafPage dl dr (butlast ds), LeafPage rl rr (last ds # rs),
                  set_separator sep (lkey (last ds)) parent))
      else if tl ds = [] then (Inl IndexError, (LeafPage dl dr [], LeafPage rl rr (rs @ [hd ds]), parent))
      else (Inr (), (LeafPage dl dr (tl ds), LeafPage rl rr (rs @ [hd ds]),
                     set_separator sep (lkey (hd (tl ds))) parent)))"
| "redistribute_step donor_is_left sep (InternalPage dl dc ds) (InternalPage rl rc rs) parent =
     (let k = ikey (islots parent ! sep) in
      if donor_is_left then
        (if ds = [] then (Inl IndexError, (InternalPage dl dc ds,
                            InternalPage rl rc (InternalSlot k rc # rs), parent))
         else (Inr (), (InternalPage dl dc (butlast ds),
                        InternalPage rl (child_page_id (last ds)) (InternalSlot k rc # rs),
                        set_separator sep (ikey (last ds)) parent)))
      else
        (if ds = [] then (Inl IndexError, (InternalPage dl dc ds,
                            InternalPage rl rc (rs @ [InternalSlot k dc]), parent))
         else (Inr (), (InternalPage dl (child_page_id (hd ds)) (tl ds),
                        InternalPage rl rc (rs @ [InternalSlot k dc]),
                        set_separator sep (ikey (hd ds)) parent))))"
| "redistribute_step donor_is_left sep donor recipient parent =
     (Inl AssertionError, (donor, recipient, parent))"

fun slot_count :: "node \<Rightarrow> nat" where
  "slot_count (InternalPage _ _ slots) = length slots"
| "slot_count (LeafPage _ _ slots) = length slots"

lemma redistribute_step_shrinks:
  "redistribute_step left sep d r p = (Inr u, (d', r', p')) \<Longrightarrow> slot_count d' < slot_count d"
  by (induction left sep d r p rule: redistribute_step.induct) (auto simp: Let_def split: if_splits)

text \<open>The transfer loop; \<open>backup\<close> holds the copies taken before it.\<close>

function redistribute_loop ::
  "nat \<Rightarrow> bool \<Rightarrow> nat \<Rightarrow> node \<times> node \<times> node \<Rightarrow> node \<Rightarrow> node \<Rightarrow> node \<Rightarrow>
     bool result \<times> (node \<times> node \<times> node)" where
  "redistribute_loop ps donor_is_left sep backup donor recipient parent =
     (if \<not> is_page_underpopulated ps recipient then (Inr True, (donor, recipient, parent))
      else case redistribute_step donor_is_left sep donor recipient parent of
        (Inl e, pages) \<Rightarrow> (Inl e, pages)
      | (Inr _, (donor', recipient', parent')) \<Rightarrow>
          if is_page_underpopulated ps donor' then (Inr False, backup)
          else redistribute_loop ps donor_is_left sep backup donor' recipient' parent')"
  by pat_completeness auto
termination
  by (relation "measure (\<lambda>(ps, left, sep, backup, donor, recipient, parent). slot_count donor)")
     (auto dest: redistribute_step_shrinks [OF sym])

declare redistribute_loop.simps [simp del]

definition try_redistribute_slots ::
  "nat \<Rightarrow> node \<Rightarrow> nat \<Rightarrow> node \<Rightarrow> nat \<Rightarrow> node \<Rightarrow> int \<Rightarrow> bool \<Rightarrow>
     ('z tree_scheme, bool \<times> node) op" where
  "try_redistribute_slots donor_id donor recipient_id recipient parent_id parent sep donor_is_left =
     bind_op tree_page_size (\<lambda>ps.
     if \<not> (0 \<le> sep \<and> sep < int (length (islots parent))) then raise IndexError
     else case redistribute_loop ps donor_is_left (nat sep) (donor, recipient, parent) donor recipient parent of
       (res, (donor', recipient', parent')) \<Rightarrow>
         bind_op (mutate_page donor_id donor') (\<lambda>_.
         bind_op (mutate_page recipient_id recipient') (\<lambda>_.
         bind_op (mutate_page parent_id parent') (\<lambda>_.
         bind_op (lift_r res) (\<lambda>moved. ret (moved, parent'))))))"

section \<open>Merging\<close>

definition left_sibling_id :: "nat \<Rightarrow> internal_slot list \<Rightarrow> int \<Rightarrow> nat option" where
  "left_sibling_id leftmost slots i =
     (if i = 0 then Some leftmost
      else if 0 < i \<and> i < int (length slots) then Some (child_page_id (slots ! nat (i - 1)))
      else None)"

definition right_sibling_id :: "internal_slot list \<Rightarrow> int \<Rightarrow> nat option" where
  "right_sibling_id slots i =
     (if i = -1 \<and> 1 \<le> length slots then Some (child_page_id (slots ! 0))
      else if 0 \<le> i \<and> i < int (length slots) - 1 then Some (child_page_id (slots ! nat (i + 1)))
      else None)"

definition get_sibling :: "nat option \<Rightarrow> ('z tree_scheme, (nat \<times> node) option) op" where
  "get_sibling sibling_id = (case sibling_id of
     None \<Rightarrow> ret None
   | Some i \<Rightarrow> bind_op (pool_get i) (\<lambda>page. ret (Some (i, page))))"

definition determine_same_parent_siblings ::
  "nat \<Rightarrow> internal_slot list \<Rightarrow> int \<Rightarrow>
     ('z tree_scheme, (nat \<times> node) option \<times> (nat \<times> node) option) op" where
  "determine_same_parent_siblings leftmost slots i =
     bind_op (get_sibling (left_sibling_id leftmost slots i)) (\<lambda>left.
     bind_op (get_sibling (right_sibling_id slots i)) (\<lambda>right.
     ret (left, right)))"

text \<open>
  The first loop of \<^verbatim>\<open>_redistribute_or_merge_page\<close>, over the siblings that exist. \<open>Some r\<close> means the
  method returned \<open>r\<close>, \<open>None\<close> that no sibling could give slots.
\<close>

fun redistribute_from ::
  "(bool \<times> (nat \<times> node) option) list \<Rightarrow> nat \<Rightarrow> node \<Rightarrow> nat \<Rightarrow> node \<Rightarrow> int \<Rightarrow> nat \<Rightarrow>
     ('z tree_scheme, (nat \<times> node) option option) op" where
  "redistribute_from [] page_id page parent_id parent i op_lsn = ret None"
| "redistribute_from ((is_left, None) # siblings) page_id page parent_id parent i op_lsn =
     redistribute_from siblings page_id page parent_id parent i op_lsn"
| "redistribute_from ((is_left, Some (sibling_id, sibling)) # siblings) page_id page parent_id parent i op_lsn =
     bind_op (try_redistribute_slots sibling_id sibling page_id page parent_id parent
                (if is_left then i else i + 1) is_left) (\<lambda>(moved, parent').
     if moved then
       bind_op (pool_mark_dirty page_id op_lsn) (\<lambda>_.
       bind_op (pool_mark_dirty sibling_id op_lsn) (\<lambda>_.
       bind_op (tr_bump_stat (if is_LeafPage page
                  then (\<lambda>st. st\<lparr>leaf_redistributes := leaf_redistributes st + 1\<rparr>)
                  else (\<lambda>st. st\<lparr>internal_redistributes := internal_redistributes st + 1\<rparr>))) (\<lambda>_.
       bind_op tree_page_size (\<lambda>ps.
       if is_page_overpopulated ps parent' \<or> is_page_underpopulated ps parent'
       then ret (Some (Some (parent_id, parent')))
       else bind_op (pool_mark_dirty parent_id op_lsn) (\<lambda>_. ret (Some None))))))
     else redistribute_from siblings page_id page parent_id parent i op_lsn)"

text \<open>The probe page of a merge.\<close>

fun merge_probe :: "node \<Rightarrow> node \<Rightarrow> node \<Rightarrow> int \<Rightarrow> node result" where
  "merge_probe (LeafPage l1 r1 s1) (LeafPage l2 r2 s2) parent sep = Inr (LeafPage 0 r2 (s1 @ s2))"
| "merge_probe (InternalPage l1 c1 s1) (InternalPage l2 c2 s2) parent sep =
     (if 0 \<le> sep \<and> sep < int (length (islots parent))
      then Inr (InternalPage 0 c1 (s1 @ [InternalSlot (ikey (islots parent ! nat sep)) c2] @ s2))
      else Inl IndexError)"
| "merge_probe into from parent sep = Inl AssertionError"

definition remove_separator :: "int \<Rightarrow> node \<Rightarrow> node result" where
  "remove_separator sep parent =
     (if 0 \<le> sep \<and> sep < int (length (islots parent))
      then Inr (InternalPage (last_modified_lsn parent) (leftmost_child_page_id parent)
                  (take (nat sep) (islots parent) @ drop (nat sep + 1) (islots parent)))
      else Inl IndexError)"

text \<open>The body of a merge that fits: \<open>probe\<close> becomes the contents of the surviving page.\<close>

definition merge_pages ::
  "nat \<Rightarrow> nat \<Rightarrow> node \<Rightarrow> nat \<Rightarrow> node \<Rightarrow> int \<Rightarrow> nat \<Rightarrow> ('z tree_scheme, (nat \<times> node) option) op" where
  "merge_pages into_id from_id probe parent_id parent sep op_lsn =
     bind_op (mutate_page into_id probe) (\<lambda>_.
     bind_op (lift_r (remove_separator sep parent)) (\<lambda>parent'.
     bind_op (mutate_page parent_id parent') (\<lambda>_.
     bind_op (pool_mark_dirty into_id op_lsn) (\<lambda>_.
     bind_op (pool_mark_dirty parent_id op_lsn) (\<lambda>_.
     bind_op (bind_op (pool_delete from_id) (\<lambda>_. free_page from_id)) (\<lambda>_.
     bind_op (tr_bump_stat (if is_LeafPage probe
                then (\<lambda>st. st\<lparr>leaf_merges := leaf_merges st + 1\<rparr>)
                else (\<lambda>st. st\<lparr>internal_merges := internal_merges st + 1\<rparr>))) (\<lambda>_.
     bind_op tree_root (\<lambda>root.
     if islots parent' = [] \<and> parent_id = root then
       bind_op (update_meta (root_page_id_update (\<lambda>_. leftmost_child_page_id parent'))) (\<lambda>_.
       bind_op (bind_op (pool_delete root) (\<lambda>_. free_page root)) (\<lambda>_.
       bind_op (tr_bump_stat (\<lambda>st. st\<lparr>root_collapses := root_collapses st + 1\<rparr>)) (\<lambda>_.
       ret None)))
     else ret (Some (parent_id, parent'))))))))))"

fun merge_with ::
  "(bool \<times> (nat \<times> node) option) list \<Rightarrow> nat \<Rightarrow> node \<Rightarrow> nat \<Rightarrow> node \<Rightarrow> int \<Rightarrow> nat \<Rightarrow>
     ('z tree_scheme, (nat \<times> node) option) op" where
  "merge_with [] page_id page parent_id parent i op_lsn = raise AssertionError"
| "merge_with ((is_left, None) # siblings) page_id page parent_id parent i op_lsn =
     merge_with siblings page_id page parent_id parent i op_lsn"
| "merge_with ((is_left, Some (sibling_id, sibling)) # siblings) page_id page parent_id parent i op_lsn =
     (let into_id = (if is_left then sibling_id else page_id);
          from_id = (if is_left then page_id else sibling_id);
          into = (if is_left then sibling else page);
          from_page = (if is_left then page else sibling);
          sep = (if is_left then i else i + 1)
      in bind_op (lift_r (merge_probe into from_page parent sep)) (\<lambda>probe.
         bind_op tree_page_size (\<lambda>ps.
         if ps < calculate_page_size probe
         then merge_with siblings page_id page parent_id parent i op_lsn
         else merge_pages into_id from_id probe parent_id parent sep op_lsn)))"

definition redistribute_or_merge_page ::
  "nat \<Rightarrow> path_item option \<Rightarrow> node \<Rightarrow> nat \<Rightarrow> ('z tree_scheme, (nat \<times> node) option) op" where
  "redistribute_or_merge_page page_id path_item page op_lsn =
     (case path_item of
        None \<Rightarrow> ret None
      | Some (PathItem parent_id i) \<Rightarrow>
          bind_op (pool_get parent_id) (\<lambda>parent.
          case parent of
            LeafPage _ _ _ \<Rightarrow> raise AssertionError
          | InternalPage _ leftmost slots \<Rightarrow>
              bind_op (determine_same_parent_siblings leftmost slots i) (\<lambda>(left, right).
              let siblings = [(True, left), (False, right)] in
              bind_op (redistribute_from siblings page_id page parent_id parent i op_lsn) (\<lambda>r.
              case r of
                Some result \<Rightarrow> ret result
              | None \<Rightarrow> merge_with siblings page_id page parent_id parent i op_lsn))))"

section \<open>Rebalancing\<close>

text \<open>
  The cascade: the page stack holds at most one page, the argument. The path is consumed from its
  end.
\<close>

fun balance_loop :: "nat \<Rightarrow> nat \<Rightarrow> node \<Rightarrow> path_item list \<Rightarrow> nat \<Rightarrow> ('z tree_scheme, unit) op" where
  "balance_loop 0 page_id page path_stack op_lsn = raise OutOfFuel"
| "balance_loop (Suc fuel) page_id page path_stack op_lsn =
     (let path_item = (if path_stack = [] then None else Some (last path_stack));
          path_stack' = butlast path_stack
      in bind_op tree_page_size (\<lambda>ps.
         if is_page_overpopulated ps page then
           bind_op (split_page page_id (map_option parent_page_id path_item) page op_lsn)
             (\<lambda>(parent_id, parent). balance_loop fuel parent_id parent path_stack' op_lsn)
         else bind_op tree_root (\<lambda>root.
           if is_page_underpopulated ps page \<and> page_id \<noteq> root then
             bind_op (redistribute_or_merge_page page_id path_item page op_lsn) (\<lambda>modified_parent.
             case modified_parent of
               None \<Rightarrow> ret ()
             | Some (parent_id, parent) \<Rightarrow> balance_loop fuel parent_id parent path_stack' op_lsn)
           else pool_mark_dirty page_id op_lsn)))"

definition balance_and_write_tree ::
  "nat \<Rightarrow> node \<Rightarrow> path_item list \<Rightarrow> nat \<Rightarrow> ('z tree_scheme, unit) op" where
  "balance_and_write_tree page_id page path op_lsn =
     balance_loop (length path + 2) page_id page path op_lsn"

section \<open>Insertion and deletion\<close>

fun set_slots :: "leaf_slot list \<Rightarrow> node \<Rightarrow> node" where
  "set_slots slots (LeafPage l r _) = LeafPage l r slots"
| "set_slots slots page = page"

definition tree_insert :: "bytes \<Rightarrow> bytes \<Rightarrow> nat \<Rightarrow> ('z tree_scheme, unit) op" where
  "tree_insert key val op_lsn =
     bind_op (raise_if_record_too_large key val) (\<lambda>_.
     bind_op (find_leaf key) (\<lambda>res.
     let slots = lslots (leaf_page res);
         slot_idx = bisect_left (map lkey slots) key;
         slots' = (if slot_has_key slots slot_idx key then slots[slot_idx := LeafSlot key val]
                   else insort_by lkey slots (LeafSlot key val));
         page = set_slots slots' (leaf_page res)
     in bind_op (mutate_page (leaf_page_id res) page) (\<lambda>_.
        balance_and_write_tree (leaf_page_id res) page (search_path res) op_lsn)))"

definition tree_delete :: "bytes \<Rightarrow> nat \<Rightarrow> ('z tree_scheme, bool) op" where
  "tree_delete key op_lsn =
     bind_op (find_leaf key) (\<lambda>res.
     let slots = lslots (leaf_page res);
         slot_idx = bisect_left (map lkey slots) key
     in if \<not> slot_has_key slots slot_idx key then ret False
        else let page = set_slots (take slot_idx slots @ drop (slot_idx + 1) slots) (leaf_page res)
             in bind_op (mutate_page (leaf_page_id res) page) (\<lambda>_.
                bind_op (balance_and_write_tree (leaf_page_id res) page (search_path res) op_lsn) (\<lambda>_.
                ret True)))"

section \<open>Scans\<close>

text \<open>
  \<^verbatim>\<open>scan\<close> is a generator. Its suspended state is the leaf it stands on and the index of the next slot;
  \<open>scan_next\<close> runs it from one \<^verbatim>\<open>yield\<close> to the next and gives the pair yielded, or none when it
  returns. The callback \<^verbatim>\<open>version_checker\<close> is an operation that may raise.
\<close>

datatype scan_cursor = ScanStart | ScanAt node nat | ScanDone

fun scan_from ::
  "nat \<Rightarrow> bytes option \<Rightarrow> ('z tree_scheme, unit) op \<Rightarrow> node \<Rightarrow> nat \<Rightarrow>
     ('z tree_scheme, (bytes \<times> bytes) option \<times> scan_cursor) op" where
  "scan_from fuel end_key checker (InternalPage l c ss) i = raise AssertionError"
| "scan_from fuel end_key checker (LeafPage l r slots) i =
     (if i < length slots then
        (if (case end_key of None \<Rightarrow> False | Some e \<Rightarrow> e \<le> lkey (slots ! i)) then ret (None, ScanDone)
         else bind_op checker (\<lambda>_. ret (Some (kv (slots ! i)), ScanAt (LeafPage l r slots) (i + 1))))
      else if 0 < r then
        (case fuel of
           0 \<Rightarrow> raise OutOfFuel
         | Suc fuel' \<Rightarrow> bind_op (pool_get r) (\<lambda>page. scan_from fuel' end_key checker page 0))
      else ret (None, ScanDone))"

definition scan_next ::
  "bytes option \<Rightarrow> bytes option \<Rightarrow> ('z tree_scheme, unit) op \<Rightarrow> scan_cursor \<Rightarrow>
     ('z tree_scheme, (bytes \<times> bytes) option \<times> scan_cursor) op" where
  "scan_next start_key end_key checker cursor =
     bind_op (gets_op page_limit) (\<lambda>fuel.
     case cursor of
       ScanDone \<Rightarrow> ret (None, ScanDone)
     | ScanAt page i \<Rightarrow> bind_op checker (\<lambda>_. scan_from fuel end_key checker page i)
     | ScanStart \<Rightarrow>
         (let start = (case start_key of None \<Rightarrow> [] | Some k \<Rightarrow> k) in
          bind_op (find_leaf start) (\<lambda>res.
          scan_from fuel end_key checker (leaf_page res)
            (bisect_left (map lkey (lslots (leaf_page res))) start))))"

text \<open>A consumer that asks for up to \<open>n\<close> pairs, as \<^verbatim>\<open>list(islice(tree.scan(...), n))\<close> does.\<close>

fun scan_take ::
  "nat \<Rightarrow> bytes option \<Rightarrow> bytes option \<Rightarrow> ('z tree_scheme, unit) op \<Rightarrow> scan_cursor \<Rightarrow>
     ('z tree_scheme, (bytes \<times> bytes) list) op" where
  "scan_take 0 start_key end_key checker cursor = ret []"
| "scan_take (Suc n) start_key end_key checker cursor =
     bind_op (scan_next start_key end_key checker cursor) (\<lambda>(item, cursor').
     case item of
       None \<Rightarrow> ret []
     | Some pair \<Rightarrow> bind_op (scan_take n start_key end_key checker cursor') (\<lambda>pairs. ret (pair # pairs)))"

end
