(* ===== verification/TreeShape.thy ===== *)
theory TreeShape
  imports BTree "HOL-Library.Multiset" "HOL-Library.Product_Lexorder"
begin

text \<open>
  The abstract trees the page structures stand for. A \<open>btree\<close> is a finite tree of pages; \<open>pages\<close>
  lists the page ID and the contents of each of its nodes, so the pages a pool holds represent the tree
  \<open>T\<close> when they are \<open>map_of (pages T)\<close>.

  What the tree means is read off its in-order sequence of leaves and separators (\<open>leaf_seq\<close>): the
  entries, the order of keys and separators, the chain of leaf siblings. Restructuring internal pages
  leaves the sequence as it is; restructuring leaves changes it locally and keeps its entries. A
  position in a tree is a zipper: the focused subtree and the frames above it, bottom-up, which
  is how the rebalancing loop walks.
\<close>

declare less_prod_simp [simp del] less_eq_prod_simp [simp del]

lemmas mark_order = less_prod_simp less_eq_prod_simp

section \<open>Trees of pages\<close>

datatype btree =
    Lf nat nat "leaf_slot list"
  | Nd nat btree "(bytes \<times> btree) list"

fun pid :: "btree \<Rightarrow> nat" where
  "pid (Lf p r ss) = p"
| "pid (Nd p t kts) = p"

definition child_slots :: "(bytes \<times> btree) list \<Rightarrow> internal_slot list" where
  "child_slots kts = map (\<lambda>(k, t). InternalSlot k (pid t)) kts"

fun tnode :: "btree \<Rightarrow> node" where
  "tnode (Lf p r ss) = LeafPage 0 r ss"
| "tnode (Nd p t kts) = InternalPage 0 (pid t) (child_slots kts)"

fun pages :: "btree \<Rightarrow> (nat \<times> node) list" where
  "pages (Lf p r ss) = [(p, LeafPage 0 r ss)]"
| "pages (Nd p t kts) =
     (p, InternalPage 0 (pid t) (child_slots kts)) # pages t @ concat (map (\<lambda>(k, t). pages t) kts)"

definition below :: "btree \<Rightarrow> (nat \<times> node) list" where
  "below t = tl (pages t)"

fun depth_ok :: "nat \<Rightarrow> btree \<Rightarrow> bool" where
  "depth_ok 0 (Lf p r ss) \<longleftrightarrow> True"
| "depth_ok (Suc h) (Nd p t kts) \<longleftrightarrow> depth_ok h t \<and> (\<forall>(k, t) \<in> set kts. depth_ok h t)"
| "depth_ok 0 (Nd p t kts) \<longleftrightarrow> False"
| "depth_ok (Suc h) (Lf p r ss) \<longleftrightarrow> False"

datatype item = LeafI nat nat "leaf_slot list" | Sep bytes

fun leaf_seq :: "btree \<Rightarrow> item list" where
  "leaf_seq (Lf p r ss) = [LeafI p r ss]"
| "leaf_seq (Nd p t kts) = leaf_seq t @ concat (map (\<lambda>(k, t). Sep k # leaf_seq t) kts)"

definition row_seq :: "(bytes \<times> btree) list \<Rightarrow> item list" where
  "row_seq kts = concat (map (\<lambda>(k, t). Sep k # leaf_seq t) kts)"

definition row_pages :: "(bytes \<times> btree) list \<Rightarrow> (nat \<times> node) list" where
  "row_pages kts = concat (map (\<lambda>(k, t). pages t) kts)"

lemma child_slots_simps [simp]:
  "child_slots [] = []"
  "child_slots ((k, t) # kts) = InternalSlot k (pid t) # child_slots kts"
  "child_slots (kts @ kts') = child_slots kts @ child_slots kts'"
  "length (child_slots kts) = length kts"
  by (simp_all add: child_slots_def)

lemma row_seq_simps [simp]:
  "row_seq [] = []"
  "row_seq ((k, t) # kts) = Sep k # leaf_seq t @ row_seq kts"
  "row_seq (kts @ kts') = row_seq kts @ row_seq kts'"
  by (simp_all add: row_seq_def)

lemma row_pages_simps [simp]:
  "row_pages [] = []"
  "row_pages ((k, t) # kts) = pages t @ row_pages kts"
  "row_pages (kts @ kts') = row_pages kts @ row_pages kts'"
  by (simp_all add: row_pages_def)

lemma pages_Nd [simp]:
  "pages (Nd p t kts) = (p, InternalPage 0 (pid t) (child_slots kts)) # pages t @ row_pages kts"
  by (simp add: row_pages_def)

lemma leaf_seq_Nd [simp]: "leaf_seq (Nd p t kts) = leaf_seq t @ row_seq kts"
  by (simp add: row_seq_def)

declare pages.simps(2) [simp del] leaf_seq.simps(2) [simp del]

lemma pages_below: "pages t = (pid t, tnode t) # below t"
  by (cases t) (simp_all add: below_def)

lemma tnode_strip [simp]: "strip (tnode t) = tnode t"
  by (cases t) simp_all

section \<open>Zippers\<close>

text \<open>
  A frame is an internal page with a hole: the hole is the leftmost child (\<open>FL\<close>), or the child of
  the slot behind the slots \<open>A\<close> (\<open>FS\<close>). \<open>plug2\<close> puts two neighbours with a separator into the hole.
\<close>

datatype frame =
    FL nat "(bytes \<times> btree) list"
  | FS nat btree "(bytes \<times> btree) list" bytes "(bytes \<times> btree) list"

fun fpid :: "frame \<Rightarrow> nat" where
  "fpid (FL p B) = p"
| "fpid (FS p t A k B) = p"

fun findex :: "frame \<Rightarrow> int" where
  "findex (FL p B) = -1"
| "findex (FS p t A k B) = int (length A)"

fun plug :: "frame \<Rightarrow> btree \<Rightarrow> btree" where
  "plug (FL p B) t = Nd p t B"
| "plug (FS p t0 A k B) t = Nd p t0 (A @ (k, t) # B)"

fun plug2 :: "frame \<Rightarrow> btree \<Rightarrow> bytes \<Rightarrow> btree \<Rightarrow> btree" where
  "plug2 (FL p B) l k r = Nd p l ((k, r) # B)"
| "plug2 (FS p t0 A k0 B) l k r = Nd p t0 (A @ (k0, l) # (k, r) # B)"

definition sepidx :: "frame \<Rightarrow> nat" where
  "sepidx F = nat (findex F + 1)"

lemma sepidx_simps [simp]: "sepidx (FL p B) = 0" "sepidx (FS p t A k B) = Suc (length A)"
  by (simp_all add: sepidx_def nat_add_distrib)

fun flank :: "frame \<Rightarrow> (nat \<times> node) list" where
  "flank (FL p B) = row_pages B"
| "flank (FS p t0 A k B) = pages t0 @ row_pages A @ row_pages B"

fun lseq :: "frame \<Rightarrow> item list" where
  "lseq (FL p B) = []"
| "lseq (FS p t0 A k B) = leaf_seq t0 @ row_seq A @ [Sep k]"

fun rseq :: "frame \<Rightarrow> item list" where
  "rseq (FL p B) = row_seq B"
| "rseq (FS p t0 A k B) = row_seq B"

lemma pid_plug [simp]: "pid (plug F t) = fpid F" "pid (plug2 F l k r) = fpid F"
  by (cases F; simp)+

lemma leaf_seq_plug [simp]:
  "leaf_seq (plug F t) = lseq F @ leaf_seq t @ rseq F"
  "leaf_seq (plug2 F l k r) = lseq F @ leaf_seq l @ Sep k # leaf_seq r @ rseq F"
  by (cases F; simp)+

text \<open>The page of a frame, which depends on its children through their page IDs only.\<close>

fun fleft :: "frame \<Rightarrow> nat \<Rightarrow> nat" where
  "fleft (FL p B) c = c"
| "fleft (FS p t0 A k B) c = pid t0"

fun fslots :: "frame \<Rightarrow> nat \<Rightarrow> internal_slot list \<Rightarrow> internal_slot list" where
  "fslots (FL p B) c mid = mid @ child_slots B"
| "fslots (FS p t0 A k B) c mid = child_slots A @ InternalSlot k c # mid @ child_slots B"

definition fnode :: "frame \<Rightarrow> nat \<Rightarrow> node" where
  "fnode F c = InternalPage 0 (fleft F c) (fslots F c [])"

definition fnode2 :: "frame \<Rightarrow> nat \<Rightarrow> bytes \<Rightarrow> nat \<Rightarrow> node" where
  "fnode2 F c k d = InternalPage 0 (fleft F c) (fslots F c [InternalSlot k d])"

lemma tnode_plug [simp]:
  "tnode (plug F t) = fnode F (pid t)"
  "tnode (plug2 F l k r) = fnode2 F (pid l) k (pid r)"
  by (cases F; simp add: fnode_def fnode2_def)+

lemma mset_pages_plug:
  "mset (pages (plug F t)) = {#(fpid F, fnode F (pid t))#} + mset (flank F) + mset (pages t)"
  "mset (pages (plug2 F l k r)) =
     {#(fpid F, fnode2 F (pid l) k (pid r))#} + mset (flank F) + mset (pages l) + mset (pages r)"
  by (cases F; simp add: fnode_def fnode2_def)+

definition plugs :: "frame list \<Rightarrow> btree \<Rightarrow> btree" where
  "plugs fs t = foldl (\<lambda>t F. plug F t) t fs"

fun outer :: "frame list \<Rightarrow> nat \<Rightarrow> (nat \<times> node) list" where
  "outer [] c = []"
| "outer (F # fs) c = (fpid F, fnode F c) # flank F @ outer fs (fpid F)"

lemma plugs_simps [simp]: "plugs [] t = t" "plugs (F # fs) t = plugs fs (plug F t)"
  by (simp_all add: plugs_def)

lemma mset_pages_plugs: "mset (pages (plugs fs t)) = mset (outer fs (pid t) @ pages t)"
proof (induction fs arbitrary: t)
  case Nil
  then show ?case by simp
next
  case (Cons F fs)
  have "mset (pages (plugs (F # fs) t)) = mset (outer fs (fpid F)) + mset (pages (plug F t))"
    using Cons [of "plug F t"] by simp
  then show ?case by (simp add: mset_pages_plug)
qed

fun lseqs :: "frame list \<Rightarrow> item list" where
  "lseqs [] = []"
| "lseqs (F # fs) = lseqs fs @ lseq F"

fun rseqs :: "frame list \<Rightarrow> item list" where
  "rseqs [] = []"
| "rseqs (F # fs) = rseq F @ rseqs fs"

lemma leaf_seq_plugs: "leaf_seq (plugs fs t) = lseqs fs @ leaf_seq t @ rseqs fs"
  by (induction fs arbitrary: t) auto

fun frame_depth :: "nat \<Rightarrow> frame \<Rightarrow> bool" where
  "frame_depth h (FL p B) \<longleftrightarrow> (\<forall>(k, t) \<in> set B. depth_ok h t)"
| "frame_depth h (FS p t0 A k B) \<longleftrightarrow> depth_ok h t0 \<and> (\<forall>(k, t) \<in> set A. depth_ok h t) \<and>
     (\<forall>(k, t) \<in> set B. depth_ok h t)"

lemma depth_ok_plug [simp]:
  "depth_ok (Suc h) (plug F t) \<longleftrightarrow> frame_depth h F \<and> depth_ok h t"
  "depth_ok (Suc h) (plug2 F l k r) \<longleftrightarrow> frame_depth h F \<and> depth_ok h l \<and> depth_ok h r"
  by (cases F; auto)+

lemma depth_ok_plug_Suc: "depth_ok h (plug F t) \<Longrightarrow> \<exists>h'. h = Suc h'"
  by (cases h; cases F) auto

fun frames_depth :: "nat \<Rightarrow> frame list \<Rightarrow> bool" where
  "frames_depth h [] \<longleftrightarrow> True"
| "frames_depth h (F # fs) \<longleftrightarrow> frame_depth h F \<and> frames_depth (Suc h) fs"

lemma depth_ok_plugsI: "depth_ok h t \<Longrightarrow> frames_depth h fs \<Longrightarrow> depth_ok (h + length fs) (plugs fs t)"
proof (induction fs arbitrary: t h)
  case Nil
  then show ?case by simp
next
  case (Cons F fs)
  then have "depth_ok (Suc h) (plug F t)" "frames_depth (Suc h) fs" by simp_all
  from Cons.IH [OF this] show ?case by simp
qed

lemma depth_ok_plugsD:
  "depth_ok H (plugs fs t) \<Longrightarrow> \<exists>h. depth_ok h t \<and> frames_depth h fs \<and> H = h + length fs"
proof (induction fs arbitrary: t)
  case Nil
  then show ?case by simp
next
  case (Cons F fs)
  then obtain h where h: "depth_ok h (plug F t)" "frames_depth h fs" "H = h + length fs" by auto
  from depth_ok_plug_Suc [OF h(1)] obtain h' where "h = Suc h'" by blast
  with h show ?case by auto
qed

section \<open>The in-order sequence\<close>

fun item_entries :: "item \<Rightarrow> leaf_slot list" where
  "item_entries (LeafI p r ss) = ss"
| "item_entries (Sep k) = []"

definition entries :: "item list \<Rightarrow> leaf_slot list" where
  "entries xs = concat (map item_entries xs)"

text \<open>
  Keys and separators in one list, in the order they must have: a separator \<open>k\<close> is \<open>(k, False)\<close>, the key
  of an entry is \<open>(k, True)\<close>, so a separator is strictly above everything to its left and at most
  equal to the keys to its right.
\<close>

fun item_marks :: "item \<Rightarrow> (bytes \<times> bool) list" where
  "item_marks (LeafI p r ss) = map (\<lambda>s. (lkey s, True)) ss"
| "item_marks (Sep k) = [(k, False)]"

definition marks :: "item list \<Rightarrow> (bytes \<times> bool) list" where
  "marks xs = concat (map item_marks xs)"

fun first_leaf :: "nat \<Rightarrow> item list \<Rightarrow> nat" where
  "first_leaf z [] = z"
| "first_leaf z (LeafI p r ss # xs) = p"
| "first_leaf z (Sep k # xs) = first_leaf z xs"

text \<open>Every leaf's right-sibling pointer is the page ID of the next leaf, the last one's is \<open>z\<close>.\<close>

fun linked :: "nat \<Rightarrow> item list \<Rightarrow> bool" where
  "linked z [] \<longleftrightarrow> True"
| "linked z (LeafI p r ss # xs) \<longleftrightarrow> r = first_leaf z xs \<and> linked z xs"
| "linked z (Sep k # xs) \<longleftrightarrow> linked z xs"

definition slot_cap :: "nat \<Rightarrow> nat" where
  "slot_cap ps = (ps - 32) div 5"

fun item_capped :: "nat \<Rightarrow> item \<Rightarrow> bool" where
  "item_capped ps (LeafI p r ss) \<longleftrightarrow> (\<forall>s \<in> set ss. calculate_leaf_slot_size s True \<le> slot_cap ps)"
| "item_capped ps (Sep k) \<longleftrightarrow> 16 + length k \<le> slot_cap ps"

definition seq_ok :: "nat \<Rightarrow> item list \<Rightarrow> bool" where
  "seq_ok ps xs \<longleftrightarrow> sorted_wrt (<) (marks xs) \<and> linked 0 xs \<and> (\<forall>x \<in> set xs. item_capped ps x)"

lemma seq_simps [simp]:
  "entries [] = []" "entries (x # xs) = item_entries x @ entries xs" "entries (xs @ ys) = entries xs @ entries ys"
  "marks [] = []" "marks (x # xs) = item_marks x @ marks xs" "marks (xs @ ys) = marks xs @ marks ys"
  by (simp_all add: entries_def marks_def)

lemma first_leaf_append [simp]: "first_leaf z (xs @ ys) = first_leaf (first_leaf z ys) xs"
  by (induction z xs rule: first_leaf.induct) auto

lemma linked_append [simp]: "linked z (xs @ ys) \<longleftrightarrow> linked (first_leaf z ys) xs \<and> linked z ys"
  by (induction "first_leaf z ys" xs rule: linked.induct) auto

lemma set_marks_entries: "(k, True) \<in> set (marks xs) \<longleftrightarrow> k \<in> lkey ` set (entries xs)"
proof (induction xs)
  case (Cons x xs)
  then show ?case by (cases x) auto
qed simp

text \<open>Replacing the middle of a sequence.\<close>

lemma seq_ok_replace:
  assumes ok: "seq_ok ps (A @ X @ B)"
    and order: "sorted_wrt (<) (marks (A @ X' @ B))"
    and link: "\<And>z. linked z X \<Longrightarrow> linked z X'" "\<And>z. first_leaf z X' = first_leaf z X"
    and cap: "\<forall>x \<in> set X'. item_capped ps x"
  shows "seq_ok ps (A @ X' @ B)"
  using assms by (auto simp: seq_ok_def)

lemma sorted_marks_entries: "sorted_wrt (<) (marks xs) \<Longrightarrow> sorted_wrt (<) (map lkey (entries xs))"
proof (induction xs)
  case Nil
  then show ?case by simp
next
  case (Cons x xs)
  show ?case
  proof (cases x)
    case (LeafI p r ss)
    have "a < lkey e" if "a \<in> lkey ` set ss" "e \<in> set (entries xs)" for a e
    proof -
      have "(a, True) \<in> set (item_marks x)" "(lkey e, True) \<in> set (marks xs)"
        using that by (auto simp: LeafI set_marks_entries)
      with Cons.prems have "(a, True) < (lkey e, True)" unfolding seq_simps sorted_wrt_append by blast
      then show ?thesis by (simp add: mark_order)
    qed
    moreover have "sorted_wrt (<) (map lkey ss)"
      using Cons.prems by (simp add: LeafI sorted_wrt_append sorted_wrt_map mark_order)
    ultimately show ?thesis
      using Cons by (auto simp: LeafI sorted_wrt_append)
  next
    case (Sep k)
    with Cons show ?thesis by simp
  qed
qed

section \<open>The invariant of a tree\<close>

definition page_good :: "nat \<Rightarrow> node \<Rightarrow> bool" where
  "page_good ps n \<longleftrightarrow> \<not> is_page_overpopulated ps n \<and> (is_InternalPage n \<longrightarrow> islots n \<noteq> [])"

text \<open>Every page is within the page size, and every page but the root reaches the fill threshold.\<close>

definition fine :: "nat \<Rightarrow> nat \<Rightarrow> (nat \<times> node) list \<Rightarrow> bool" where
  "fine ps root xs \<longleftrightarrow> (\<forall>(p, n) \<in> set xs. page_good ps n \<and> (p \<noteq> root \<longrightarrow> \<not> is_page_underpopulated ps n))"

definition tree_ok :: "nat \<Rightarrow> nat \<Rightarrow> btree \<Rightarrow> bool" where
  "tree_ok ps h T \<longleftrightarrow> depth_ok h T \<and> distinct (map fst (pages T)) \<and> seq_ok ps (leaf_seq T) \<and> fine ps (pid T) (pages T)"

section \<open>Descent\<close>

definition fitem :: "frame \<Rightarrow> path_item" where
  "fitem F = PathItem (fpid F) (findex F)"

text \<open>The key belongs into the hole: everything left of it is at most the key, everything right is above.\<close>

definition located :: "bytes \<Rightarrow> item list \<Rightarrow> item list \<Rightarrow> bool" where
  "located key A B \<longleftrightarrow> (\<forall>m \<in> set (marks A). m \<le> (key, False)) \<and> (\<forall>m \<in> set (marks B). (key, True) < m)"

lemma located_Nil [simp]: "located key [] []"
  by (simp add: located_def)

lemma located_append: "located key A B \<Longrightarrow> located key A' B' \<Longrightarrow> located key (A @ A') (B' @ B)"
  by (auto simp: located_def)

lemma mark_Sep: "Sep k \<in> set xs \<Longrightarrow> (k, False) \<in> set (marks xs)"
proof (induction xs)
  case (Cons x xs)
  then show ?case by (cases x) auto
qed simp

lemma sorted_row_keys:
  "sorted_wrt (<) (marks (row_seq kts)) \<Longrightarrow> sorted_wrt (<) (map fst kts)"
proof (induction kts)
  case (Cons kt kts)
  obtain k t where kt: "kt = (k, t)" by (cases kt)
  have "k < k'" if "k' \<in> fst ` set kts" for k'
  proof -
    from that have "Sep k' \<in> set (row_seq kts)" by (force simp: row_seq_def)
    from mark_Sep [OF this] Cons.prems have "(k, False) < (k', False)" by (simp add: kt sorted_wrt_append)
    then show ?thesis by (simp add: mark_order)
  qed
  with Cons kt show ?case by (auto simp: sorted_wrt_append)
qed simp

lemma takeWhile_split:
  assumes "length (takeWhile P xs) = i"
  shows "(\<forall>x \<in> set (take i xs). P x) \<and> (i < length xs \<longrightarrow> \<not> P (xs ! i))"
  using assms takeWhile_eq_take [of P xs] by (metis nth_length_takeWhile set_takeWhileD)

lemma descend_frame:
  assumes srt: "sorted_wrt (<) (marks (leaf_seq (Nd p t kts)))"
  shows "\<exists>F c. Nd p t kts = plug F c \<and> findex F = descend_index (child_slots kts) key \<and>
     child_at (pid t) (child_slots kts) (findex F) = pid c \<and> located key (lseq F) (rseq F)"
proof -
  let ?ks = "map fst kts"
  have keys: "map ikey (child_slots kts) = ?ks" by (auto simp: child_slots_def)
  have row: "sorted_wrt (<) (marks (row_seq kts))" using srt by (simp add: sorted_wrt_append)
  from sorted_row_keys [OF this] have ks: "sorted_wrt (<) ?ks" .
  then have sk: "sorted ?ks" by (simp add: strict_sorted_imp_sorted)
  define i where "i = bisect_right ?ks key"
  have i: "length (takeWhile (\<lambda>k. k \<le> key) ?ks) = i" using bisect_right_takeWhile [OF sk, of key] i_def by simp
  have len: "i \<le> length kts" using i length_takeWhile_le [of _ ?ks] by (metis length_map)
  note tw = takeWhile_split [OF i]
  have right: "\<forall>m \<in> set (marks (row_seq (drop i kts))). (key, True) < m"
  proof (cases "drop i kts")
    case Nil
    then show ?thesis by simp
  next
    case (Cons kt B)
    obtain k c where kt: "kt = (k, c)" by (cases kt)
    have "i < length kts" using Cons by (metis drop_eq_Nil linorder_not_less list.distinct(1))
    moreover have "kts ! i = (k, c)" using Cons kt by (metis calculation Cons_nth_drop_Suc list.inject)
    ultimately have "key < k" using tw by auto
    then have "(key, True) < (k, False)" by (simp add: mark_order)
    moreover have "sorted_wrt (<) (marks (row_seq (drop i kts)))"
    proof -
      have "row_seq kts = row_seq (take i kts) @ row_seq (drop i kts)"
        by (metis append_take_drop_id row_seq_simps(3))
      then show ?thesis using row by (simp add: sorted_wrt_append)
    qed
    ultimately show ?thesis by (auto simp: Cons kt intro: less_trans)
  qed
  show ?thesis
  proof (cases i)
    case 0
    have "located key (lseq (FL p kts)) (rseq (FL p kts))" using right 0 by (simp add: located_def)
    then show ?thesis
      using 0 by (intro exI [of _ "FL p kts"] exI [of _ t])
        (simp add: descend_index_def keys i_def [symmetric] child_at_def)
  next
    case (Suc j)
    have j: "j < length kts" using Suc len by simp
    obtain k c where kc: "kts ! j = (k, c)" by (cases "kts ! j")
    have kts: "kts = take j kts @ (k, c) # drop i kts" using j kc Suc by (metis id_take_nth_drop)
    let ?F = "FS p t (take j kts) k (drop i kts)"
    have "k \<in> set (take i ?ks)" using j kc Suc by (metis (no_types) fst_conv in_set_conv_nth length_map length_take lessI min.absorb4 nth_map nth_take take_map len less_le_trans min_def)
    then have "(k, False) \<le> (key, False)" using tw by (simp add: mark_order)
    moreover have "m < (k, False)" if "m \<in> set (marks (leaf_seq t @ row_seq (take j kts)))" for m
    proof -
      have "leaf_seq (Nd p t kts) = (leaf_seq t @ row_seq (take j kts)) @ Sep k # leaf_seq c @ row_seq (drop i kts)"
        using arg_cong [OF kts, of row_seq] by simp
      with srt that show ?thesis by (auto simp: sorted_wrt_append)
    qed
    ultimately have "located key (lseq ?F) (rseq ?F)"
      using right by (fastforce simp: located_def)
    moreover have "Nd p t kts = plug ?F c" using kts by simp
    moreover have "findex ?F = descend_index (child_slots kts) key"
      using j Suc by (simp add: descend_index_def keys i_def [symmetric])
    moreover have "child_at (pid t) (child_slots kts) (findex ?F) = pid c"
      using j kc by (simp add: child_at_def child_slots_def)
    ultimately show ?thesis by blast
  qed
qed

section \<open>Finding the leaf of a key\<close>

text \<open>The pages of a tree are in a store.\<close>

definition stored :: "(nat \<rightharpoonup> node) \<Rightarrow> btree \<Rightarrow> bool" where
  "stored V T \<longleftrightarrow> (\<forall>(p, n) \<in> set (pages T). V p = Some n)"

lemma set_pages_plugs: "set (pages (plugs fs t)) = set (outer fs (pid t)) \<union> set (pages t)"
  using arg_cong [OF mset_pages_plugs, of set_mset] by simp

lemma stored_focus: "stored V (plugs fs t) \<Longrightarrow> V (pid t) = Some (tnode t)"
  by (auto simp: stored_def set_pages_plugs pages_below [of t])

lemma strip_leaf: "strip y = LeafPage 0 q ss \<Longrightarrow> \<exists>l. y = LeafPage l q ss"
  by (cases y) auto

lemma strip_internal: "strip y = InternalPage 0 c ss \<Longrightarrow> \<exists>l. y = InternalPage l c ss"
  by (cases y) auto

text \<open>The outcome of a successful descent in the tree \<open>T\<close>: the leaf, the frames above it, and the state.\<close>

definition found ::
  "store_env \<Rightarrow> (nat \<rightharpoonup> node) \<Rightarrow> nat set \<Rightarrow> nat set \<Rightarrow> nat set \<Rightarrow> nat \<Rightarrow> nat \<Rightarrow> bytes \<Rightarrow> btree \<Rightarrow> nat \<Rightarrow>
     leaf_search_result result \<times> 'z tree_scheme \<Rightarrow> bool" where
  "found E V R H U n r key T h out \<longleftrightarrow> (\<exists>gs p q ss l H' s'.
     out = (Inr (LeafSearchResult p (LeafPage l q ss) (rev (map fitem gs))), s') \<and>
     plugs gs (Lf p q ss) = T \<and> length gs = h \<and> located key (lseqs gs) (rseqs gs) \<and>
     pool_state E V R H' U n r s' \<and> H \<subseteq> H' \<and> p \<in> H')"

lemma foundE:
  assumes "found E V R H U n r key T h out"
  obtains gs p q ss l H' s' where
    "out = (Inr (LeafSearchResult p (LeafPage l q ss) (rev (map fitem gs))), s')"
    "plugs gs (Lf p q ss) = T" "length gs = h" "located key (lseqs gs) (rseqs gs)"
    "pool_state E V R H' U n r s'" "H \<subseteq> H'" "p \<in> H'"
  using assms unfolding found_def by (elim exE conjE) (rule that)

lemma found_mono: "found E V R H' U n r key T h out \<Longrightarrow> H \<subseteq> H' \<Longrightarrow> found E V R H U n r key T h out"
  by (erule foundE) (auto simp: found_def)

lemma find_leaf_loop_ok:
  fixes s :: "'z tree_scheme"
  assumes "pool_state E V R H U (n + h) r s" and "depth_ok h t" and "stored V (plugs fs t)"
    and "sorted_wrt (<) (marks (leaf_seq t))" and "located key (lseqs fs) (rseqs fs)"
    and "strip y = tnode t" and "pid t \<in> H" and "h \<le> fuel"
  shows "found E V R H U n r key (plugs fs t) (h + length fs)
     (find_leaf_loop fuel key (pid t) y (rev (map fitem fs)) s)"
  using assms
proof (induction h arbitrary: t fs y s H fuel)
  case 0
  then obtain p q ss where t: "t = Lf p q ss" by (cases t) auto
  with 0(6) obtain l where "y = LeafPage l q ss" using strip_leaf [of y q ss] by auto
  with t 0 show ?case
    unfolding found_def
    by (intro exI [of _ fs] exI [of _ p] exI [of _ q] exI [of _ ss] exI [of _ l] exI [of _ H] exI [of _ s]) simp
next
  case (Suc h)
  then obtain p t0 kts where t: "t = Nd p t0 kts" by (cases t) auto
  with Suc(7) obtain l where y: "y = InternalPage l (pid t0) (child_slots kts)" using strip_internal [of y] by auto
  from Suc(9) obtain fuel' where fuel: "fuel = Suc fuel'" "h \<le> fuel'" by (cases fuel) auto
  from descend_frame [of p t0 kts key] Suc(5) t obtain F c where
    F: "Nd p t0 kts = plug F c" "findex F = descend_index (child_slots kts) key"
      "child_at (pid t0) (child_slots kts) (findex F) = pid c" "located key (lseq F) (rseq F)" by auto
  have plugs: "plugs fs t = plugs (F # fs) c" using F(1) t by simp
  have page: "V (pid c) = Some (tnode c)" using stored_focus [of V "F # fs" c] Suc(4) plugs by simp
  have st: "pool_state E V R H U (Suc (n + h)) r s" using Suc(2) by simp
  from pool.fetch_law [OF st page] obtain y' s1 where
    s1: "pool_get (pid c) s = (Inr y', s1)" "strip y' = tnode c" "pool_state E V R (insert (pid c) H) U (n + h) r s1"
    by blast
  have d: "depth_ok h c" using Suc(3) F(1) t by (metis depth_ok_plug(1))
  have srt: "sorted_wrt (<) (marks (leaf_seq c))"
    using Suc(5) by (simp add: t F(1) sorted_wrt_append del: leaf_seq_Nd)
  have loc: "located key (lseqs (F # fs)) (rseqs (F # fs))"
    using located_append [OF Suc(6) F(4)] by simp
  have "fpid F = p" using arg_cong [OF F(1), of pid] by simp
  then have "find_leaf_loop fuel key (pid t) y (rev (map fitem fs)) s =
      find_leaf_loop fuel' key (pid c) y' (rev (map fitem (F # fs))) s1"
    using s1(1) F(2,3) by (simp add: t y fuel(1) bind_op_def fitem_def Let_def)
  moreover have "found E V R (insert (pid c) H) U n r key (plugs (F # fs) c) (h + length (F # fs))
      (find_leaf_loop fuel' key (pid c) y' (rev (map fitem (F # fs))) s1)"
    by (rule Suc.IH [OF s1(3) d _ srt loc s1(2) _ fuel(2)]) (use Suc(4) plugs in simp_all)
  then have "found E V R H U n r key (plugs (F # fs) c) (h + length (F # fs))
      (find_leaf_loop fuel' key (pid c) y' (rev (map fitem (F # fs))) s1)" by (rule found_mono) auto
  ultimately show ?case using plugs by simp
qed

lemma depth_pages: "depth_ok h t \<Longrightarrow> h < length (pages t)"
proof (induction h arbitrary: t)
  case 0
  then show ?case by (simp add: pages_below)
next
  case (Suc h)
  then show ?case by (cases t) force+
qed

lemma pool_state_limit: "pool_state E V R H U n r s \<Longrightarrow> dom V \<subseteq> {0<..<page_limit s}"
  using pool_ok_live [of _ s] unfolding pool_state_def pager_alloc.live_def by fastforce

lemma tree_meta:
  assumes "pool_state E V R H U n r s"
  shows "tree_root s = (Inr r, s)" and "tree_page_size s = (Inr (env_page_size E), s)"
  using pool_meta_law [OF assms] by (auto simp: tree_root_def tree_page_size_def bind_op_def)

text \<open>The descent from the root ends in the leaf where the key belongs.\<close>

lemma find_leaf_ok:
  fixes s :: "'z tree_scheme"
  assumes ok: "pool_state E (map_of (pages T)) R H U (Suc (n + h)) (pid T) s" and T: "tree_ok ps h T"
  shows "found E (map_of (pages T)) R H U n (pid T) key T h (find_leaf key s)"
proof -
  let ?V = "map_of (pages T)"
  have d: "distinct (map fst (pages T))" and dep: "depth_ok h T"
    and srt: "sorted_wrt (<) (marks (leaf_seq T))" using T by (auto simp: tree_ok_def seq_ok_def)
  have st: "stored ?V (plugs [] T)" using d by (auto simp: stored_def)
  from pool.fetch_law [OF ok stored_focus [OF st]] obtain y s1 where
    s1: "pool_get (pid T) s = (Inr y, s1)" "strip y = tnode T"
      "pool_state E ?V R (insert (pid T) H) U (n + h) (pid T) s1" by auto
  have "card (dom ?V) = length (pages T)"
    using d by (metis dom_map_of_conv_image_fst distinct_card length_map list.set_map)
  moreover have "card (dom ?V) \<le> page_limit s1"
    using card_mono [OF _ pool_state_limit [OF s1(3)]] by simp
  ultimately have fuel: "h \<le> page_limit s1" using depth_pages [OF dep] by simp
  have run: "find_leaf key s = find_leaf_loop (page_limit s1) key (pid T) y (rev (map fitem [])) s1"
    using s1(1) tree_meta(1) [OF ok] by (simp add: find_leaf_def bind_op_def)
  have "found E ?V R (insert (pid T) H) U n (pid T) key (plugs [] T) (h + length ([] :: frame list))
      (find_leaf_loop (page_limit s1) key (pid T) y (rev (map fitem [])) s1)"
    by (rule find_leaf_loop_ok [OF s1(3) dep st srt _ s1(2) _ fuel]) simp_all
  then have "found E ?V R H U n (pid T) key (plugs [] T) (h + length ([] :: frame list))
      (find_leaf_loop (page_limit s1) key (pid T) y (rev (map fitem [])) s1)" by (rule found_mono) auto
  with run show ?thesis by simp
qed

lemma find_leaf_loop_counts:
  assumes "find_leaf_loop fuel key p x path s = (Inr res, s')"
  shows "page_fetches s' + length path = page_fetches s + length (search_path res)"
  using assms
proof (induction fuel key p x path arbitrary: s rule: find_leaf_loop.induct)
  case (3 fuel key p l c slots path)
  from "3.prems" obtain y s1 where s1: "pool_get (child_at c slots (descend_index slots key)) s = (Inr y, s1)"
    "find_leaf_loop fuel key (child_at c slots (descend_index slots key)) y (path @ [PathItem p (descend_index slots key)]) s1 = (Inr res, s')"
    by (auto simp: Let_def bind_op_def split: prod.splits sum.splits)
  from "3.IH" [OF refl refl s1(2)] pool_get_counts [OF s1(1)] show ?case by simp
qed auto

text \<open>A descent fetches one page more than the path it returns is long.\<close>

lemma find_leaf_counts:
  assumes "find_leaf key s = (Inr res, s')"
  shows "page_fetches s' = page_fetches s + Suc (length (search_path res))"
proof -
  from assms obtain p x s1 where "pool_get p s = (Inr x, s1)" "find_leaf_loop (page_limit s1) key p x [] s1 = (Inr res, s')"
    by (auto simp: find_leaf_def tree_root_def get_meta_def bind_op_def op_simps split: prod.splits sum.splits option.splits)
  from pool_get_counts [OF this(1)] find_leaf_loop_counts [OF this(2)] show ?thesis by simp
qed

lemma tree_search_counts:
  assumes "find_leaf key s = (Inr res, s1)" and "tree_search key s = (r, s')"
  shows "page_fetches s' = page_fetches s + Suc (length (search_path res))"
  using assms(2) find_leaf_counts [OF assms(1)] by (auto simp: tree_search_def bind_op_def assms(1) Let_def split: if_splits)

section \<open>Contents\<close>

definition contents :: "btree \<Rightarrow> bytes \<rightharpoonup> bytes" where
  "contents T = map_of (map kv (entries (leaf_seq T)))"

lemma located_entries:
  assumes "located key A B"
  shows "\<forall>e \<in> set (entries A). lkey e < key" and "\<forall>e \<in> set (entries B). key < lkey e"
proof -
  have "(lkey e, True) \<in> set (marks X)" if "e \<in> set (entries X)" for e X
    using that by (auto simp: set_marks_entries)
  with assms show "\<forall>e \<in> set (entries A). lkey e < key" "\<forall>e \<in> set (entries B). key < lkey e"
    by (fastforce simp: located_def mark_order)+
qed

lemma map_of_kv_None: "key \<notin> lkey ` set es \<Longrightarrow> map_of (map kv es) key = None"
  by (force simp: map_of_eq_None_iff)

lemma contents_at:
  assumes "located key (lseqs gs) (rseqs gs)"
  shows "contents (plugs gs (Lf p q ss)) key = map_of (map kv ss) key"
proof -
  have "map_of (map kv (entries (lseqs gs))) key = None" "map_of (map kv (entries (rseqs gs))) key = None"
    using located_entries [OF assms] by (auto intro!: map_of_kv_None)
  then show ?thesis by (simp add: contents_def leaf_seq_plugs map_add_def split: option.split)
qed

text \<open>
  Where a key is, or would be, among the sorted slots of a leaf: the slots split into those below the
  key, at most one with the key, and those above.
\<close>

lemma leaf_position:
  assumes srt: "sorted_wrt (<) (map lkey ss)" and i: "i = bisect_left (map lkey ss) key"
  obtains L M Rr where "ss = L @ M @ Rr" "\<forall>x \<in> set L. lkey x < key" "\<forall>x \<in> set Rr. key < lkey x"
    "length L = i" "if slot_has_key ss i key then \<exists>v. M = [LeafSlot key v] else M = []"
proof -
  let ?ks = "map lkey ss"
  have tw: "length (takeWhile (\<lambda>k. k < key) ?ks) = i"
    using bisect_left_takeWhile [of ?ks key] strict_sorted_imp_sorted [OF srt] i by simp
  note sp = takeWhile_split [OF tw]
  have len: "i \<le> length ss" using tw length_takeWhile_le [of _ ?ks] by (metis length_map)
  have L: "\<forall>x \<in> set (take i ss). lkey x < key" using sp by (simp add: take_map)
  show thesis
  proof (cases "drop i ss")
    case Nil
    then have "\<not> slot_has_key ss i key" by (simp add: slot_has_key_def)
    with that [of "take i ss" "[]" "[]"] L Nil len show thesis by (metis append.right_neutral append_take_drop_id empty_iff empty_set length_take min.absorb2)
  next
    case (Cons x Rr)
    then have il: "i < length ss" by (metis drop_eq_Nil linorder_not_less list.distinct(1))
    with Cons have x: "ss ! i = x" by (metis Cons_nth_drop_Suc list.inject)
    have ss: "ss = take i ss @ x # Rr" using Cons by (metis append_take_drop_id)
    have ge: "key \<le> lkey x" using sp il x by auto
    have R: "\<forall>z \<in> set Rr. lkey x < lkey z"
    proof -
      have "sorted_wrt (<) (map lkey (take i ss @ x # Rr))" using srt ss by simp
      then show ?thesis by (simp add: sorted_wrt_append)
    qed
    show thesis
    proof (cases "lkey x = key")
      case True
      then have "slot_has_key ss i key" using il x by (simp add: slot_has_key_def)
      moreover have "\<exists>v. [x] = [LeafSlot key v]" using True by (cases x) simp
      ultimately show thesis
        using that [of "take i ss" "[x]" Rr] L R True ss len by simp
    next
      case False
      then have "\<not> slot_has_key ss i key" using x by (simp add: slot_has_key_def)
      then show thesis
        using that [of "take i ss" "[]" "x # Rr"] L R False ge ss len by fastforce
    qed
  qed
qed

lemma insort_position:
  assumes srt: "sorted_wrt (<) (map lkey (L @ Rr))" and "\<forall>x \<in> set L. lkey x < key" and "\<forall>x \<in> set Rr. key < lkey x"
  shows "insort_by lkey (L @ Rr) (LeafSlot key v) = L @ LeafSlot key v # Rr"
proof -
  have "bisect_right (map lkey (L @ Rr)) key = length (takeWhile (\<lambda>k. k \<le> key) (map lkey (L @ Rr)))"
    by (rule bisect_right_takeWhile [OF strict_sorted_imp_sorted [OF srt]])
  also have "\<dots> = length L"
  proof -
    have "takeWhile (\<lambda>k. k \<le> key) (map lkey L @ map lkey Rr) = map lkey L @ takeWhile (\<lambda>k. k \<le> key) (map lkey Rr)"
      using assms(2) by (intro takeWhile_append2) auto
    moreover have "takeWhile (\<lambda>k. k \<le> key) (map lkey Rr) = []"
      using assms(3) by (cases Rr) auto
    ultimately show ?thesis by simp
  qed
  finally show ?thesis by (simp add: insort_by_def)
qed

lemma leaf_lookup:
  assumes srt: "sorted_wrt (<) (map lkey ss)" and i: "i = bisect_left (map lkey ss) key"
  shows "map_of (map kv ss) key = (if slot_has_key ss i key then Some (lvalue (ss ! i)) else None)"
proof -
  obtain L M Rr where *: "ss = L @ M @ Rr" "\<forall>x \<in> set L. lkey x < key" "\<forall>x \<in> set Rr. key < lkey x"
    "length L = i" "if slot_has_key ss i key then \<exists>v. M = [LeafSlot key v] else M = []"
    by (rule leaf_position [OF srt i])
  have "map_of (map kv L) key = None" "map_of (map kv Rr) key = None"
    using *(2,3) by (auto intro!: map_of_kv_None)
  with * show ?thesis by (auto simp: map_add_def nth_append split: if_splits option.split)
qed

lemma leaf_in_tree_sorted:
  assumes "seq_ok ps (A @ LeafI p q ss # B)"
  shows "sorted_wrt (<) (map lkey ss)"
  using assms by (simp add: seq_ok_def sorted_wrt_append sorted_wrt_map mark_order)

section \<open>Search\<close>

lemma tree_search_ok:
  fixes s :: "'z tree_scheme"
  assumes ok: "pool_state E (map_of (pages T)) R H U (Suc (n + h)) (pid T) s" and T: "tree_ok ps h T"
  shows "\<exists>H' s'. tree_search key s = (Inr (contents T key), s') \<and> H \<subseteq> H' \<and>
     pool_state E (map_of (pages T)) R H' U n (pid T) s'"
proof -
  from find_leaf_ok [OF ok T, of key] obtain gs p q ss l H' s' where
    *: "find_leaf key s = (Inr (LeafSearchResult p (LeafPage l q ss) (rev (map fitem gs))), s')"
      "plugs gs (Lf p q ss) = T" "length gs = h" "located key (lseqs gs) (rseqs gs)"
      "pool_state E (map_of (pages T)) R H' U n (pid T) s'" "H \<subseteq> H'" "p \<in> H'"
    by (rule foundE)
  have "seq_ok ps (lseqs gs @ LeafI p q ss # rseqs gs)"
    using T *(2) leaf_seq_plugs [of gs "Lf p q ss"] by (simp add: tree_ok_def)
  then have srt: "sorted_wrt (<) (map lkey ss)" by (rule leaf_in_tree_sorted)
  have "contents T key = map_of (map kv ss) key" using contents_at [OF *(4)] *(2) by metis
  then have "tree_search key s = (Inr (contents T key), s')"
    using *(1) leaf_lookup [OF srt refl, of key] by (simp add: tree_search_def bind_op_def Let_def)
  with * show ?thesis by blast
qed

text \<open>The tree of a new database: one empty leaf.\<close>

lemma empty_tree_ok: "32 \<le> ps \<Longrightarrow> tree_ok ps 0 (Lf p 0 [])"
  by (simp add: tree_ok_def seq_ok_def fine_def page_good_def is_page_overpopulated_def calculate_page_size_sum)

text \<open>
  C13: searching a well-formed tree through the pool returns, for every key, the value the tree's
  contents map it to, or \<^verbatim>\<open>None\<close>; the descent ends, changes no page, and needs no more room in the pool
  than the height of the tree plus one.
\<close>

theorem search_returns_stored_value:
  fixes s :: "'z tree_scheme"
  assumes "tree_ok ps h T" and "pool_state E (map_of (pages T)) {} {} {} (Suc h) (pid T) s"
  shows "\<exists>s'. tree_search key s = (Inr (contents T key), s') \<and>
     pool_state E (map_of (pages T)) {} {} {} 0 (pid T) s'"
  using tree_search_ok [of E T "{}" "{}" "{}" 0 h s ps key] assms
    pool.weaken [of E "map_of (pages T)" "{}" _ "{}" 0 "pid T" _ "{}" 0] by auto

lemma sample_tree:
  assumes "n \<le> 100"
  obtains E and s :: tree where "pool_state E (map_of (pages (Lf 1 0 []))) {} {} {} n 1 s"
    "env_page_size E = 200" "env_evicting E" "env_capacity E = 100"
proof -
  obtain p :: pager where p: "Pager_init None 200 = Inr p" by (simp add: Pager_init_def)
  let ?s0 = "buffer_pool.extend (BufferPool_init p 100) \<lparr>tr_stats = fresh_tree_stats\<rparr>"
  have "pager.truncate ?s0 = p" by (simp add: BufferPool_init_def pager.defs buffer_pool.defs)
  then have init: "Pager_init None 200 = Inr (pager.truncate ?s0)" using p by simp
  have f: "bp_cache ?s0 = []" "bp_capacity_pages ?s0 = 100" "bp_eviction_enabled ?s0"
    by (simp_all add: BufferPool_init_def pager.defs buffer_pool.defs)
  from pool_bootstrap_ok [OF init _ f(1), of n] f assms obtain s :: tree where
    s: "pool_state \<lparr>env_page_size = 200, env_capacity = 100, env_evicting = True, env_durable = pg_disk s,
        env_checkpoint_lsn = 0\<rparr> [1 \<mapsto> LeafPage 0 0 []] {} {} {} n 1 s" by auto
  have s': "pool_state \<lparr>env_page_size = 200, env_capacity = 100, env_evicting = True, env_durable = pg_disk s,
    env_checkpoint_lsn = 0\<rparr> (map_of (pages (Lf 1 0 []))) {} {} {} n 1 s" using s by simp
  show thesis by (rule that [OF s']) simp_all
qed

lemma sample_leaf:
  assumes "n < 100"
  obtains E and s :: tree where "pool_state E (map_of (pages (Lf 1 0 ss))) {} {} {} n 1 s" "env_page_size E = 200"
proof -
  obtain E and s :: tree where s: "pool_state E (map_of (pages (Lf 1 0 []))) {} {} {} n 1 s" "env_page_size E = 200" "env_capacity E = 100"
    by (rule sample_tree [of n]) (use assms in simp_all)
  have "pool_state E [1 \<mapsto> strip (LeafPage 5 0 ss)] {} {} {} n 1 (s\<lparr>bp_cache := [(1, CachedPage (LeafPage 5 0 ss) True)]\<rparr>)"
    by (rule one_dirty_page [of E 1 "LeafPage 0 0 []"]) (use s(1,3) assms in simp_all)
  then show thesis using s(2) by (intro that [of E "s\<lparr>bp_cache := [(1, CachedPage (LeafPage 5 0 ss) True)]\<rparr>"]) simp_all
qed

lemma sample_leaf_ok: "tree_ok 200 0 (Lf 1 0 [LeafSlot [1] [2], LeafSlot [3] [4]])"
  by (simp add: tree_ok_def seq_ok_def mark_order fine_def page_good_def is_page_overpopulated_def calculate_page_size_sum
      calculate_leaf_slot_size_def slot_cap_def)

theorem search_returns_stored_value_witness:
  "\<exists>(s :: tree) s1 s2. tree_search [3] s = (Inr (Some [4]), s1) \<and> tree_search [2] s = (Inr None, s2)"
proof -
  obtain E and s :: tree where s: "pool_state E (map_of (pages (Lf 1 0 [LeafSlot [1] [2], LeafSlot [3] [4]]))) {} {} {} (Suc 0) 1 s"
    by (rule sample_leaf [of 1]) simp_all
  note search = search_returns_stored_value [OF sample_leaf_ok, of E s] 
  from search [of "[3]"] search [of "[2]"] s show ?thesis by (auto simp: contents_def)
qed

end
