(* ===== verification/TreeSizes.thy ===== *)
theory TreeSizes
  imports TreeShape
begin

text \<open>
  The size arithmetic of rebalancing, on single pages: where a page splits and how large the halves
  are, and what a transfer of slots between neighbours does. The results rest on the record cap: a leaf
  slot takes at most a fifth of the page body, so an internal slot takes at most four bytes more. For internal
  pages they need separators of at most a tenth of the page (\<open>short_key\<close>); examples at the end show what the code
  does outside these ranges.
\<close>

section \<open>Split points\<close>

lemma length_cumulative [simp]: "length (cumulative a xs) = length xs"
  by (induction xs arbitrary: a) auto

lemma cumulative_nth: "i < length xs \<Longrightarrow> cumulative a xs ! i = a + sum_list (take (Suc i) xs)"
proof (induction xs arbitrary: a i)
  case (Cons x xs)
  then show ?case by (cases i) auto
qed simp

lemma sorted_cumulative: "sorted (cumulative a xs)"
proof (induction xs arbitrary: a)
  case (Cons x xs)
  have "a + x \<le> y" if "y \<in> set (cumulative (a + x) xs)" for y
    using that cumulative_nth [of _ xs "a + x"] by (auto simp: in_set_conv_nth)
  with Cons show ?case by simp
qed simp

lemma cumulative_Nil [simp]: "cumulative a xs = [] \<longleftrightarrow> xs = []"
  by (cases xs) auto

lemma last_cumulative: "xs \<noteq> [] \<Longrightarrow> last (cumulative a xs) = a + sum_list xs"
  by (induction xs arbitrary: a) auto

text \<open>The byte midpoint: the slots before it take at most half of the body, one more takes over half.\<close>

lemma byte_midpoint:
  assumes m: "m = bisect_right (cumulative 0 xs) (sum_list xs div 2)"
  shows "m \<le> length xs" and "sum_list (take m xs) \<le> sum_list xs div 2"
    and "m < length xs \<Longrightarrow> sum_list xs div 2 < sum_list (take (Suc m) xs)"
proof -
  let ?c = "cumulative 0 xs"
  have tw: "length (takeWhile (\<lambda>k. k \<le> sum_list xs div 2) ?c) = m"
    using bisect_right_takeWhile [OF sorted_cumulative, of 0 xs] m by simp
  note sp = takeWhile_split [OF tw]
  show len: "m \<le> length xs" using tw length_takeWhile_le by (metis length_cumulative)
  show "sum_list (take m xs) \<le> sum_list xs div 2"
  proof (cases m)
    case (Suc j)
    then have "?c ! j \<in> set (take m ?c)" using len by (auto simp: in_set_conv_nth intro!: exI [of _ j])
    with sp have "?c ! j \<le> sum_list xs div 2" by blast
    then show ?thesis using cumulative_nth [of j xs 0] Suc len by simp
  qed simp
  show "m < length xs \<Longrightarrow> sum_list xs div 2 < sum_list (take (Suc m) xs)"
    using sp cumulative_nth [of m xs 0] by auto
qed

lemma split_offsets_cover:
  assumes "1 \<le> j" and "j < n" and "m \<le> n"
  shows "int j \<in> (\<lambda>off. int m + off) ` set (split_offsets n)"
proof -
  have "int j - int m \<in> set (split_offsets n)"
  proof (cases "j = m")
    case True
    then show ?thesis by (simp add: split_offsets_def)
  next
    case False
    define k where "k = nat \<bar>int j - int m\<bar>"
    have "k \<in> set [1..<n]" using False assms by (auto simp: k_def)
    moreover have "int j - int m \<in> {int k, - int k}" by (auto simp: k_def)
    ultimately show ?thesis by (auto simp: split_offsets_def)
  qed
  then show ?thesis by (force simp: image_iff)
qed

text \<open>Either a balanced candidate is chosen, or there is none and the midpoint is.\<close>

lemma choose_split_point_cases:
  assumes "xs \<noteq> []" and i: "i = choose_split_point ps page (cumulative 0 xs)"
  shows "1 \<le> i \<and> i < length xs \<and> split_halves_are_balanced ps page i \<or>
     i = bisect_right (cumulative 0 xs) (sum_list xs div 2) \<and>
     (\<forall>j. 1 \<le> j \<and> j < length xs \<longrightarrow> \<not> split_halves_are_balanced ps page j)"
proof -
  let ?m = "bisect_right (cumulative 0 xs) (sum_list xs div 2)"
  let ?P = "\<lambda>c. 1 \<le> c \<and> c < int (length xs) \<and> split_halves_are_balanced ps page (nat c)"
  let ?cs = "map (\<lambda>off. int ?m + off) (split_offsets (length xs))"
  have i': "i = (case find ?P ?cs of Some c \<Rightarrow> nat c | None \<Rightarrow> ?m)"
    using i assms(1) by (simp add: choose_split_point_def last_cumulative Let_def)
  show ?thesis
  proof (cases "find ?P ?cs")
    case None
    have "\<not> split_halves_are_balanced ps page j" if "1 \<le> j" "j < length xs" for j
    proof
      assume "split_halves_are_balanced ps page j"
      then have "?P (int j)" using that by simp
      moreover have "int j \<in> set ?cs" using split_offsets_cover [OF that byte_midpoint(1) [OF refl]] by simp
      ultimately show False using None unfolding find_None_iff by blast
    qed
    then show ?thesis using i' None by simp
  next
    case (Some c)
    then have "?P c" by (auto simp: find_Some_iff)
    then show ?thesis using i' Some by (intro disjI1) (simp add: nat_less_iff, linarith)
  qed
qed

section \<open>Page sizes\<close>

definition lsum :: "leaf_slot list \<Rightarrow> nat" where
  "lsum ss = sum_list (map (\<lambda>s. calculate_leaf_slot_size s True) ss)"

definition isum :: "internal_slot list \<Rightarrow> nat" where
  "isum ss = sum_list (map (\<lambda>s. calculate_internal_slot_size s True) ss)"

lemma sums_simps [simp]:
  "lsum [] = 0" "lsum (x # xs) = calculate_leaf_slot_size x True + lsum xs" "lsum (xs @ ys) = lsum xs + lsum ys"
  by (simp_all add: lsum_def)

lemma isum_simps [simp]:
  "isum [] = 0" "isum (x # xs) = calculate_internal_slot_size x True + isum xs" "isum (xs @ ys) = isum xs + isum ys"
  by (simp_all add: isum_def)

lemma page_size_leaf [simp]: "calculate_page_size (LeafPage l r ss) = 32 + lsum ss"
  by (simp add: calculate_page_size_sum lsum_def)

lemma page_size_internal [simp]: "calculate_page_size (InternalPage l c ss) = 32 + isum ss"
  by (simp add: calculate_page_size_sum isum_def)

lemma internal_slot_size [simp]: "calculate_internal_slot_size s True = 20 + length (ikey s)"
  by (simp add: calculate_internal_slot_size_def)

definition lcap :: "nat \<Rightarrow> leaf_slot list \<Rightarrow> bool" where
  "lcap ps ss \<longleftrightarrow> (\<forall>s \<in> set ss. calculate_leaf_slot_size s True \<le> slot_cap ps)"

definition icap :: "nat \<Rightarrow> internal_slot list \<Rightarrow> bool" where
  "icap ps ss \<longleftrightarrow> (\<forall>s \<in> set ss. 16 + length (ikey s) \<le> slot_cap ps)"

lemma cap_simps [simp]:
  "lcap ps []" "lcap ps (x # xs) \<longleftrightarrow> calculate_leaf_slot_size x True \<le> slot_cap ps \<and> lcap ps xs"
  "lcap ps (xs @ ys) \<longleftrightarrow> lcap ps xs \<and> lcap ps ys"
  by (auto simp: lcap_def)

lemma icap_simps [simp]:
  "icap ps []" "icap ps (y # ys) \<longleftrightarrow> 16 + length (ikey y) \<le> slot_cap ps \<and> icap ps ys"
  "icap ps (ys @ zs) \<longleftrightarrow> icap ps ys \<and> icap ps zs"
  by (auto simp: icap_def)

lemma slot_cap_bounds:
  assumes "129 \<le> ps"
  shows "5 * slot_cap ps + 32 \<le> ps" and "ps \<le> 5 * slot_cap ps + 36" and "19 \<le> slot_cap ps"
  using assms unfolding slot_cap_def by presburger+

lemmas pop_defs = is_page_overpopulated_def is_page_underpopulated_def

lemma lsum_take_drop: "lsum (take i ss) + lsum (drop i ss) = lsum ss"
  by (metis append_take_drop_id sums_simps(3))

lemma lsum_take_Suc: "i < length ss \<Longrightarrow> lsum (take (Suc i) ss) = lsum (take i ss) + calculate_leaf_slot_size (ss ! i) True"
  by (simp add: take_Suc_conv_app_nth)

lemma isum_take_Suc: "i < length ss \<Longrightarrow> isum (take (Suc i) ss) = isum (take i ss) + 20 + length (ikey (ss ! i))"
  by (simp add: take_Suc_conv_app_nth)

lemma isum_take_drop: "isum (take i ss) + isum (drop i ss) = isum ss"
  by (metis append_take_drop_id isum_simps(3))

lemma lcap_nth: "lcap ps ss \<Longrightarrow> i < length ss \<Longrightarrow> calculate_leaf_slot_size (ss ! i) True \<le> slot_cap ps"
  by (simp add: lcap_def)

lemma icap_nth: "icap ps ss \<Longrightarrow> i < length ss \<Longrightarrow> 16 + length (ikey (ss ! i)) \<le> slot_cap ps"
  by (simp add: icap_def)

text \<open>A leaf that overflows by at most one slot always has a balanced split point.\<close>

lemma leaf_split_balanced:
  assumes ps: "129 \<le> ps" and cap: "lcap ps ss" and over: "ps < 32 + lsum ss"
  shows "\<exists>j. 1 \<le> j \<and> j < length ss \<and> split_halves_are_balanced ps (LeafPage l r ss) j"
proof -
  note c = slot_cap_bounds [OF ps]
  define j where "j = (LEAST j. 2 * ps \<le> 5 * (32 + lsum (take j ss)))"
  have ex: "2 * ps \<le> 5 * (32 + lsum (take (length ss) ss))" using over ps by simp
  then have j: "2 * ps \<le> 5 * (32 + lsum (take j ss))" unfolding j_def by (rule LeastI)
  have jl: "j \<le> length ss" unfolding j_def using ex by (rule Least_le)
  have "j \<noteq> 0" using j ps by (cases j) auto
  then obtain i where i: "j = Suc i" by (cases j) auto
  have "\<not> 2 * ps \<le> 5 * (32 + lsum (take i ss))"
    by (rule not_less_Least [where P = "\<lambda>j. 2 * ps \<le> 5 * (32 + lsum (take j ss))", folded j_def]) (simp add: i)
  then have less: "5 * (32 + lsum (take i ss)) < 2 * ps" by simp
  have il: "i < length ss" using i jl by simp
  have up: "lsum (take j ss) \<le> lsum (take i ss) + slot_cap ps"
    using lsum_take_Suc [OF il] lcap_nth [OF cap il] i by simp
  have rest: "lsum (drop j ss) + lsum (take j ss) = lsum ss" using lsum_take_drop [of j ss] by simp
  have "2 * ps \<le> 5 * (32 + lsum (drop j ss))" using up rest less over c by (simp add: algebra_simps)
  moreover have "j < length ss"
  proof (rule ccontr)
    assume "\<not> j < length ss"
    then have "lsum (drop j ss) = 0" by simp
    with calculation ps show False by simp
  qed
  ultimately show ?thesis using j \<open>j \<noteq> 0\<close> by (intro exI [of _ j]) (simp add: pop_defs)
qed

lemma leaf_split_point:
  assumes ps: "129 \<le> ps" and cap: "lcap ps ss" and over: "ps < 32 + lsum ss"
    and bound: "32 + lsum ss \<le> ps + slot_cap ps"
    and i: "i = choose_split_point ps (LeafPage l r ss) (cumulative 0 (slot_sizes (LeafPage l r ss)))"
  shows "1 \<le> i \<and> i < length ss \<and> 2 * ps \<le> 5 * (32 + lsum (take i ss)) \<and> 2 * ps \<le> 5 * (32 + lsum (drop i ss)) \<and>
     32 + lsum (take i ss) \<le> ps \<and> 32 + lsum (drop i ss) \<le> ps"
proof -
  note c = slot_cap_bounds [OF ps]
  let ?xs = "slot_sizes (LeafPage l r ss)"
  have "ss \<noteq> []" using over ps by auto
  then have ne: "?xs \<noteq> []" by simp
  have len: "length ?xs = length ss" by simp
  have bal: "1 \<le> i \<and> i < length ss \<and> split_halves_are_balanced ps (LeafPage l r ss) i"
    using choose_split_point_cases [OF ne i] leaf_split_balanced [OF ps cap over, of l r] len by auto
  then have h: "2 * ps \<le> 5 * (32 + lsum (take i ss))" "2 * ps \<le> 5 * (32 + lsum (drop i ss))"
    by (auto simp: pop_defs)
  moreover have "32 + lsum (take i ss) \<le> ps" using h c bound lsum_take_drop [of i ss] by (simp add: algebra_simps)
  moreover have "32 + lsum (drop i ss) \<le> ps" using h c bound lsum_take_drop [of i ss] by (simp add: algebra_simps)
  ultimately show ?thesis using bal by blast
qed

text \<open>
  A key is short when a slot with it takes at most a tenth of the page and the header. An overfull page of
  short separators splits into two halves that are full enough, and two neighbours that cannot help each
  other and have short separators fit on one page.
\<close>

definition short_key :: "nat \<Rightarrow> bytes \<Rightarrow> bool" where
  "short_key ps k \<longleftrightarrow> 10 * (20 + length k) \<le> ps + 160"

definition ishort :: "nat \<Rightarrow> internal_slot list \<Rightarrow> bool" where
  "ishort ps ss \<longleftrightarrow> (\<forall>s \<in> set ss. short_key ps (ikey s))"

lemma ishort_nth: "ishort ps ss \<Longrightarrow> i < length ss \<Longrightarrow> 10 * (20 + length (ikey (ss ! i))) \<le> ps + 160"
  by (simp add: ishort_def short_key_def)

lemma internal_split_balanced:
  assumes ps: "129 \<le> ps" and short: "ishort ps ss" and over: "ps < 32 + isum ss"
  shows "\<exists>j. 1 \<le> j \<and> j < length ss \<and> split_halves_are_balanced ps (InternalPage l c ss) j"
proof -
  define j where "j = (LEAST j. 2 * ps \<le> 5 * (32 + isum (take j ss)))"
  have ex: "2 * ps \<le> 5 * (32 + isum (take (length ss) ss))" using over ps by simp
  then have j: "2 * ps \<le> 5 * (32 + isum (take j ss))" unfolding j_def by (rule LeastI)
  have jl: "j \<le> length ss" unfolding j_def using ex by (rule Least_le)
  have "j \<noteq> 0" using j ps by (cases j) auto
  then obtain i where i: "j = Suc i" by (cases j) auto
  have "\<not> 2 * ps \<le> 5 * (32 + isum (take i ss))"
    by (rule not_less_Least [where P = "\<lambda>j. 2 * ps \<le> 5 * (32 + isum (take j ss))", folded j_def]) (simp add: i)
  then have less: "5 * (32 + isum (take i ss)) < 2 * ps" by simp
  have il: "i < length ss" using i jl by simp
  have up: "10 * isum (take j ss) \<le> 10 * isum (take i ss) + ps + 160" using isum_take_Suc [OF il] ishort_nth [OF short il] i by simp
  have "j < length ss"
  proof (rule ccontr)
    assume "\<not> j < length ss"
    then have "isum (take j ss) = isum ss" by simp
    with up less over ps show False by (simp add: algebra_simps)
  qed
  moreover from this have "10 * isum (drop (Suc j) ss) + 10 * isum (take j ss) + ps + 160 \<ge> 10 * isum ss"
    using isum_take_drop [of "Suc j" ss] isum_take_Suc [of j ss] ishort_nth [OF short, of j] by simp
  then have "2 * ps \<le> 5 * (32 + isum (drop (Suc j) ss))" using up less over by (simp add: algebra_simps)
  ultimately show ?thesis using j \<open>j \<noteq> 0\<close> by (intro exI [of _ j]) (simp add: pop_defs)
qed

lemma internal_split_point:
  assumes ps: "129 \<le> ps" and short: "ishort ps ss" and over: "ps < 32 + isum ss"
    and bound: "32 + isum ss \<le> ps + slot_cap ps + 4"
    and i: "i = choose_split_point ps (InternalPage l c0 ss) (cumulative 0 (slot_sizes (InternalPage l c0 ss)))"
  shows "1 \<le> i \<and> Suc i < length ss \<and> 2 * ps \<le> 5 * (32 + isum (take i ss)) \<and> 2 * ps \<le> 5 * (32 + isum (drop (Suc i) ss)) \<and>
    32 + isum (take i ss) \<le> ps \<and> 32 + isum (drop (Suc i) ss) \<le> ps"
proof -
  note c = slot_cap_bounds [OF ps]
  let ?xs = "slot_sizes (InternalPage l c0 ss)"
  have "ss \<noteq> []" using over ps by auto
  then have ne: "?xs \<noteq> []" by simp
  have len: "length ?xs = length ss" by simp
  have "1 \<le> i \<and> i < length ss \<and> split_halves_are_balanced ps (InternalPage l c0 ss) i"
    using choose_split_point_cases [OF ne i] internal_split_balanced [OF ps short over, of l c0] len by auto
  then have a: "1 \<le> i" "i < length ss" "2 * ps \<le> 5 * (32 + isum (take i ss))" "2 * ps \<le> 5 * (32 + isum (drop (Suc i) ss))"
    by (auto simp: pop_defs)
  have t: "isum (take i ss) + 20 + length (ikey (ss ! i)) + isum (drop (Suc i) ss) = isum ss"
    using isum_take_drop [of "Suc i" ss] isum_take_Suc [OF a(2)] by simp
  have "32 + isum (take i ss) \<le> ps" using a t bound c by (simp add: algebra_simps)
  moreover have "32 + isum (drop (Suc i) ss) \<le> ps" using a t bound c by (simp add: algebra_simps)
  moreover have "Suc i < length ss"
  proof (rule ccontr)
    assume "\<not> Suc i < length ss"
    then have "isum (drop (Suc i) ss) = 0" by simp
    with a(4) ps show False by simp
  qed
  ultimately show ?thesis using a by blast
qed

text \<open>
  The limit on records alone does not suffice: six separators of the same length, each well below a fifth of the
  page, may have no balanced split, since one half gets two of them only.
\<close>

lemma six_separators_underfill:
  assumes "length slots = 6" and "\<forall>s \<in> set slots. length (ikey s) = n" and "5 * (32 + 2 * (20 + n)) < 2 * ps"
  shows "\<not> split_halves_are_balanced ps (InternalPage l c slots) i"
proof -
  have sum: "isum xs = length xs * (20 + n)" if "set xs \<subseteq> set slots" for xs
    using that assms(2) by (induction xs) auto
  have "isum (take i slots) = min 6 i * (20 + n)" "isum (drop (i + 1) slots) = (5 - i) * (20 + n)"
    using sum [of "take i slots"] sum [of "drop (i + 1) slots"] assms(1) by (simp_all add: set_take_subset set_drop_subset min.commute)
  moreover have "min 6 i \<le> 2 \<or> 5 - i \<le> 2" by linarith
  ultimately have "isum (take i slots) \<le> 2 * (20 + n) \<or> isum (drop (i + 1) slots) \<le> 2 * (20 + n)"
    using mult_le_mono1 by metis
  with assms(3) show ?thesis by (auto simp: pop_defs)
qed

lemma internal_split_can_underfill:
  "\<exists>slots. sorted_wrt (<) (map ikey slots) \<and> icap 400 slots \<and>
     is_page_overpopulated 400 (InternalPage l c slots) \<and> (\<forall>i. \<not> split_halves_are_balanced 400 (InternalPage l c slots) i)"
proof -
  let ?ss = "map (\<lambda>k. InternalSlot (k # replicate 42 0) 7) [1, 2, 3, 4, 5, 6]"
  have "\<not> split_halves_are_balanced 400 (InternalPage l c ?ss) i" for i by (rule six_separators_underfill [where n = 43]) simp_all
  moreover have "sorted_wrt (<) (map ikey ?ss)" "icap 400 ?ss" "is_page_overpopulated 400 (InternalPage l c ?ss)"
    by (simp_all add: slot_cap_def pop_defs)
  ultimately show ?thesis by blast
qed

section \<open>Transfers between neighbours\<close>

text \<open>
  The transfer loop on a family of pages: after \<open>j\<close> steps the donor is \<open>d j\<close>, the recipient \<open>r j\<close> and the
  parent \<open>p j\<close>. It stops with the first recipient that is full enough, or restores the backup
  when the donor would fall below the threshold.
\<close>

lemma redistribute_loop_run:
  assumes step: "\<And>j. can j \<Longrightarrow> redistribute_step left sep (d j) (r j) (p j) = (Inr (), (d (Suc j), r (Suc j), p (Suc j)))"
    and can: "\<And>j. can j \<Longrightarrow> \<not> is_page_underpopulated ps (d (Suc j)) \<Longrightarrow> can (Suc j)"
    and j: "can j" "is_page_underpopulated ps (r j)"
  shows "(\<exists>i. redistribute_loop ps left sep bk (d j) (r j) (p j) = (Inr True, (d (Suc i), r (Suc i), p (Suc i))) \<and>
      \<not> is_page_underpopulated ps (r (Suc i)) \<and> \<not> is_page_underpopulated ps (d (Suc i)) \<and>
      is_page_underpopulated ps (r i) \<and> can i) \<or>
    (\<exists>i. redistribute_loop ps left sep bk (d j) (r j) (p j) = (Inr False, bk) \<and>
      is_page_underpopulated ps (r i) \<and> is_page_underpopulated ps (d (Suc i)) \<and> can i)"
  using j
proof (induction "slot_count (d j)" arbitrary: j rule: less_induct)
  case less
  note st = step [OF less(2)]
  have unfold: "redistribute_loop ps left sep bk (d j) (r j) (p j) =
      (if is_page_underpopulated ps (d (Suc j)) then (Inr False, bk)
       else redistribute_loop ps left sep bk (d (Suc j)) (r (Suc j)) (p (Suc j)))"
    by (subst redistribute_loop.simps) (simp add: st less(3))
  show ?case
  proof (cases "is_page_underpopulated ps (d (Suc j))")
    case True
    with less(2,3) unfold show ?thesis by (intro disjI2 exI [of _ j]) simp
  next
    case donor: False
    note cn = can [OF less(2) donor]
    show ?thesis
    proof (cases "is_page_underpopulated ps (r (Suc j))")
      case True
      from less(1) [OF redistribute_step_shrinks [OF st] cn True] unfold donor show ?thesis by simp
    next
      case False
      then have "redistribute_loop ps left sep bk (d (Suc j)) (r (Suc j)) (p (Suc j)) =
          (Inr True, (d (Suc j), r (Suc j), p (Suc j)))"
        by (subst redistribute_loop.simps) simp
      with unfold donor False less(2,3) show ?thesis by (intro disjI1 exI [of _ j]) simp
    qed
  qed
qed

lemma redistribute_loop_cases:
  assumes step: "\<And>j. can j \<Longrightarrow> redistribute_step left sep (d j) (r j) (p j) = (Inr (), (d (Suc j), r (Suc j), p (Suc j)))"
    and can: "\<And>j. can j \<Longrightarrow> \<not> is_page_underpopulated ps (d (Suc j)) \<Longrightarrow> can (Suc j)"
    and start: "can 0" "is_page_underpopulated ps (r (0 :: nat))"
  obtains (moved) i where "redistribute_loop ps left sep bk (d 0) (r 0) (p 0) = (Inr True, (d (Suc i), r (Suc i), p (Suc i)))"
      "\<not> is_page_underpopulated ps (r (Suc i))" "\<not> is_page_underpopulated ps (d (Suc i))"
      "is_page_underpopulated ps (r i)" "can i"
    | (stuck) i where "redistribute_loop ps left sep bk (d 0) (r 0) (p 0) = (Inr False, bk)"
      "is_page_underpopulated ps (r i)" "is_page_underpopulated ps (d (Suc i))" "can i"
  using redistribute_loop_run [where bk = bk, OF step can start] by blast

lemma take_butlast: "n < length xs \<Longrightarrow> butlast (take (Suc n) xs) = take n xs \<and> last (take (Suc n) xs) = xs ! n"
  by (simp add: take_Suc_conv_app_nth)

lemma drop_parts: "n < length xs \<Longrightarrow> drop n xs = xs ! n # drop (Suc n) xs"
  by (simp add: Cons_nth_drop_Suc)

lemma underpop_leaf: "is_page_underpopulated ps (LeafPage l r ss) \<longleftrightarrow> 5 * (32 + lsum ss) < 2 * ps"
  by (simp add: pop_defs)

lemma underpop_internal: "is_page_underpopulated ps (InternalPage l c ss) \<longleftrightarrow> 5 * (32 + isum ss) < 2 * ps"
  by (simp add: pop_defs)


text \<open>The parent with the key \<open>k\<close> in the separator slot behind the slots \<open>A\<close>.\<close>

definition parent_with :: "nat \<Rightarrow> nat \<Rightarrow> internal_slot list \<Rightarrow> nat \<Rightarrow> internal_slot list \<Rightarrow> bytes \<Rightarrow> node" where
  "parent_with l pc A c B k = InternalPage l pc (A @ InternalSlot k c # B)"

lemma set_separator_parent [simp]:
  "set_separator (length A) k' (parent_with l pc A c B k) = parent_with l pc A c B k'"
  "islots (parent_with l pc A c B k) ! length A = InternalSlot k c"
  by (simp_all add: parent_with_def set_ikey_def)

text \<open>
  Leaves: the slots of the two neighbours are a list \<open>ts\<close> cut at a position; a transfer moves the cut and
  makes the key behind it the separator.
\<close>

lemma leaf_step_left:
  assumes "i < length ts"
  shows "redistribute_step True (length A) (LeafPage a q (take (Suc i) ts)) (LeafPage b q' (drop (Suc i) ts))
      (parent_with l pc A c B k) =
    (Inr (), (LeafPage a q (take i ts), LeafPage b q' (drop i ts), parent_with l pc A c B (lkey (ts ! i))))"
  using assms take_butlast [OF assms] drop_parts [OF assms] by auto

lemma leaf_step_right:
  assumes "Suc i < length ts"
  shows "redistribute_step False (length A) (LeafPage b q' (drop i ts)) (LeafPage a q (take i ts))
      (parent_with l pc A c B k) =
    (Inr (), (LeafPage b q' (drop (Suc i) ts), LeafPage a q (take (Suc i) ts), parent_with l pc A c B (lkey (ts ! Suc i))))"
  using assms drop_parts [of i ts] drop_parts [of "Suc i" ts] by (simp add: take_Suc_conv_app_nth)

text \<open>Sizes around a cut where both neighbours are small.\<close>

lemma lsum_around: "i < length ts \<Longrightarrow> lsum (take i ts) + calculate_leaf_slot_size (ts ! i) True + lsum (drop (Suc i) ts) = lsum ts"
  using lsum_take_drop [of "Suc i" ts] lsum_take_Suc [of i ts] by simp

lemma isum_around: "i < length ts \<Longrightarrow> isum (take i ts) + (20 + length (ikey (ts ! i))) + isum (drop (Suc i) ts) = isum ts"
  using isum_take_drop [of "Suc i" ts] isum_take_Suc [of i ts] by simp

lemma leaf_merge_fits:
  assumes ps: "129 \<le> ps" and cap: "lcap ps ts" and i: "i < length ts"
    and "5 * (32 + lsum (take i ts)) < 2 * ps" and "5 * (32 + lsum (drop (Suc i) ts)) < 2 * ps"
  shows "32 + lsum ts \<le> ps"
  using assms(4,5) slot_cap_bounds [OF ps] lcap_nth [OF cap i] lsum_around [OF i] by (simp add: algebra_simps)

text \<open>The two halves of \<open>ts\<close> at the cut \<open>m\<close> are neither too small nor too large.\<close>

definition leaf_cut_ok :: "nat \<Rightarrow> leaf_slot list \<Rightarrow> nat \<Rightarrow> bool" where
  "leaf_cut_ok ps ts m \<longleftrightarrow> 0 < m \<and> m < length ts \<and>
     2 * ps \<le> 5 * (32 + lsum (take m ts)) \<and> 2 * ps \<le> 5 * (32 + lsum (drop m ts)) \<and>
     32 + lsum (take m ts) \<le> ps \<and> 32 + lsum (drop m ts) \<le> ps"

lemma leaf_cut_okI:
  assumes "129 \<le> ps" and "2 * ps \<le> 5 * (32 + lsum (take m ts))" and "2 * ps \<le> 5 * (32 + lsum (drop m ts))"
    and "32 + lsum (take m ts) \<le> ps" and "32 + lsum (drop m ts) \<le> ps"
  shows "leaf_cut_ok ps ts m"
proof -
  have "m \<noteq> 0" using assms(1,2) by (cases m) auto
  moreover have "m < length ts"
  proof (rule ccontr)
    assume "\<not> m < length ts"
    then have "lsum (drop m ts) = 0" by simp
    with assms(1,3) show False by simp
  qed
  ultimately show ?thesis using assms by (simp add: leaf_cut_ok_def)
qed

lemma leaf_redistribute_left:
  assumes ps: "129 \<le> ps" and cap: "lcap ps ts" and n: "n \<le> length ts"
    and donor: "2 * ps \<le> 5 * (32 + lsum (take n ts))" "32 + lsum (take n ts) \<le> ps"
    and small: "5 * (32 + lsum (drop n ts)) < 2 * ps"
  shows "(\<exists>m. redistribute_loop ps True (length A) bk (LeafPage a q (take n ts)) (LeafPage b q' (drop n ts))
        (parent_with l pc A c B k) =
      (Inr True, (LeafPage a q (take m ts), LeafPage b q' (drop m ts), parent_with l pc A c B (lkey (ts ! m)))) \<and>
      leaf_cut_ok ps ts m) \<or>
    redistribute_loop ps True (length A) bk (LeafPage a q (take n ts)) (LeafPage b q' (drop n ts))
        (parent_with l pc A c B k) = (Inr False, bk) \<and> 32 + lsum ts \<le> ps"
proof -
  note c5 = slot_cap_bounds [OF ps]
  define d where "d j = LeafPage a q (take (n - j) ts)" for j
  define r where "r j = LeafPage b q' (drop (n - j) ts)" for j
  define p where "p j = parent_with l pc A c B (if j = 0 then k else lkey (ts ! (n - j)))" for j
  have step: "redistribute_step True (length A) (d j) (r j) (p j) = (Inr (), (d (Suc j), r (Suc j), p (Suc j)))"
    if "j < n" for j
  proof -
    have "n - j = Suc (n - Suc j)" "n - Suc j < length ts" using that n by auto
    then show ?thesis using leaf_step_left [of "n - Suc j" ts] by (simp add: d_def r_def p_def)
  qed
  have can: "Suc j < n" if "j < n" "\<not> is_page_underpopulated ps (d (Suc j))" for j
    using that ps by (cases "n - Suc j") (auto simp: d_def underpop_leaf)
  have n0: "0 < n" using donor(1) ps by (cases n) auto
  have r0: "is_page_underpopulated ps (r 0)" using small by (simp add: r_def underpop_leaf)
  have sub: "i < n \<Longrightarrow> n - Suc i < length ts \<and> Suc (n - Suc i) = n - i" for i using n by auto
  show ?thesis
  proof (rule redistribute_loop_cases [where can = "\<lambda>j. j < n" and d = d and r = r and p = p and bk = bk, OF step can n0 r0])
    fix i
    assume 1: "redistribute_loop ps True (length A) bk (d 0) (r 0) (p 0) = (Inr True, (d (Suc i), r (Suc i), p (Suc i)))"
      "\<not> is_page_underpopulated ps (r (Suc i))" "\<not> is_page_underpopulated ps (d (Suc i))"
      "is_page_underpopulated ps (r i)" "i < n"
    let ?m = "n - Suc i"
    note s = sub [OF 1(5)]
    have h: "2 * ps \<le> 5 * (32 + lsum (take ?m ts))" "2 * ps \<le> 5 * (32 + lsum (drop ?m ts))"
      "5 * (32 + lsum (drop (Suc ?m) ts)) < 2 * ps"
      using 1(2,3,4) s by (simp_all add: d_def r_def underpop_leaf)
    have "lsum (drop ?m ts) \<le> slot_cap ps + lsum (drop (Suc ?m) ts)"
      using drop_parts [of ?m ts] lcap_nth [OF cap, of ?m] s by simp
    then have "32 + lsum (drop ?m ts) \<le> ps" using h(3) c5 by (simp add: algebra_simps)
    moreover have "take n ts = take ?m ts @ drop ?m (take n ts)" by (metis append_take_drop_id diff_le_self min.absorb1 take_take)
    then have "lsum (take ?m ts) \<le> lsum (take n ts)" by (metis le_add1 sums_simps(3))
    then have "32 + lsum (take ?m ts) \<le> ps" using donor(2) by simp
    ultimately have "leaf_cut_ok ps ts ?m" using h by (intro leaf_cut_okI [OF ps])
    with 1(1) show ?thesis by (intro disjI1 exI [of _ ?m]) (simp add: d_def r_def p_def)
  next
    fix i
    assume 2: "redistribute_loop ps True (length A) bk (d 0) (r 0) (p 0) = (Inr False, bk)"
      "is_page_underpopulated ps (r i)" "is_page_underpopulated ps (d (Suc i))" "i < n"
    have "32 + lsum ts \<le> ps"
      by (rule leaf_merge_fits [OF ps cap, of "n - Suc i"]) (use 2(2,3) sub [OF 2(4)] in \<open>simp_all add: d_def r_def underpop_leaf\<close>)
    with 2(1) show ?thesis by (intro disjI2) (simp add: d_def r_def p_def)
  qed
qed


lemma lsum_take_mono: "i \<le> j \<Longrightarrow> lsum (take i ts) \<le> lsum (take j ts)"
  by (metis append_take_drop_id le_add1 min.absorb1 sums_simps(3) take_take)

lemma lsum_drop_mono: "i \<le> j \<Longrightarrow> lsum (drop j ts) \<le> lsum (drop i ts)"
  using lsum_take_mono [of i j ts] lsum_take_drop [of i ts] lsum_take_drop [of j ts] by simp

lemma leaf_redistribute_right:
  assumes ps: "129 \<le> ps" and cap: "lcap ps ts" and n: "n \<le> length ts"
    and donor: "2 * ps \<le> 5 * (32 + lsum (drop n ts))" "32 + lsum (drop n ts) \<le> ps"
    and small: "5 * (32 + lsum (take n ts)) < 2 * ps"
  shows "(\<exists>m. redistribute_loop ps False (length A) bk (LeafPage b q' (drop n ts)) (LeafPage a q (take n ts))
        (parent_with l pc A c B k) =
      (Inr True, (LeafPage b q' (drop m ts), LeafPage a q (take m ts), parent_with l pc A c B (lkey (ts ! m)))) \<and>
      leaf_cut_ok ps ts m) \<or>
    redistribute_loop ps False (length A) bk (LeafPage b q' (drop n ts)) (LeafPage a q (take n ts))
        (parent_with l pc A c B k) = (Inr False, bk) \<and> 32 + lsum ts \<le> ps"
proof -
  note c5 = slot_cap_bounds [OF ps]
  define d where "d j = LeafPage b q' (drop (n + j) ts)" for j
  define r where "r j = LeafPage a q (take (n + j) ts)" for j
  define p where "p j = parent_with l pc A c B (if j = 0 then k else lkey (ts ! (n + j)))" for j
  have step: "redistribute_step False (length A) (d j) (r j) (p j) = (Inr (), (d (Suc j), r (Suc j), p (Suc j)))"
    if "Suc (n + j) < length ts" for j
    using leaf_step_right [OF that] by (simp add: d_def r_def p_def)
  have two: "Suc m < length ts" if "2 * ps \<le> 5 * (32 + lsum (drop m ts))" for m
  proof (rule ccontr)
    assume "\<not> Suc m < length ts"
    then have "lsum (drop m ts) \<le> slot_cap ps"
      using drop_parts [of m ts] lcap_nth [OF cap, of m] by (cases "m < length ts") auto
    with that c5 ps show False by (simp add: algebra_simps)
  qed
  have can: "Suc (n + Suc j) < length ts" if "Suc (n + j) < length ts" "\<not> is_page_underpopulated ps (d (Suc j))" for j
    using two [of "n + Suc j"] that by (simp add: d_def underpop_leaf)
  have n0: "Suc (n + 0) < length ts" using two [OF donor(1)] by simp
  have r0: "is_page_underpopulated ps (r 0)" using small by (simp add: r_def underpop_leaf)
  show ?thesis
  proof (rule redistribute_loop_cases [where can = "\<lambda>j. Suc (n + j) < length ts" and d = d and r = r and p = p and bk = bk, OF step can n0 r0])
    fix i
    assume 1: "redistribute_loop ps False (length A) bk (d 0) (r 0) (p 0) = (Inr True, (d (Suc i), r (Suc i), p (Suc i)))"
      "\<not> is_page_underpopulated ps (r (Suc i))" "\<not> is_page_underpopulated ps (d (Suc i))"
      "is_page_underpopulated ps (r i)" "Suc (n + i) < length ts"
    let ?m = "n + Suc i"
    have h: "2 * ps \<le> 5 * (32 + lsum (take ?m ts))" "2 * ps \<le> 5 * (32 + lsum (drop ?m ts))"
      "5 * (32 + lsum (take (n + i) ts)) < 2 * ps"
      using 1(2,3,4) by (simp_all add: d_def r_def underpop_leaf)
    have "lsum (take ?m ts) \<le> slot_cap ps + lsum (take (n + i) ts)"
      using lsum_take_Suc [of "n + i" ts] lcap_nth [OF cap, of "n + i"] 1(5) by simp
    then have "32 + lsum (take ?m ts) \<le> ps" using h(3) c5 by (simp add: algebra_simps)
    moreover have "32 + lsum (drop ?m ts) \<le> ps" using donor(2) lsum_drop_mono [of n ?m ts] by simp
    ultimately have "leaf_cut_ok ps ts ?m" using h by (intro leaf_cut_okI [OF ps])
    with 1(1) show ?thesis by (intro disjI1 exI [of _ ?m]) (simp add: d_def r_def p_def)
  next
    fix i
    assume 2: "redistribute_loop ps False (length A) bk (d 0) (r 0) (p 0) = (Inr False, bk)"
      "is_page_underpopulated ps (r i)" "is_page_underpopulated ps (d (Suc i))" "Suc (n + i) < length ts"
    have "32 + lsum ts \<le> ps"
      by (rule leaf_merge_fits [OF ps cap, of "n + i"]) (use 2(2,3,4) in \<open>simp_all add: d_def r_def underpop_leaf\<close>)
    with 2(1) show ?thesis by (intro disjI2) (simp add: d_def r_def p_def)
  qed
qed

text \<open>
  Internal pages: the slots of the left neighbour, the separator with the leftmost child of the right
  neighbour, and the slots of the right neighbour are a list \<open>ts\<close>; the slot at the cut is the separator.
\<close>

definition left_part :: "nat \<Rightarrow> nat \<Rightarrow> internal_slot list \<Rightarrow> nat \<Rightarrow> node" where
  "left_part a q ts m = InternalPage a q (take m ts)"

definition right_part :: "nat \<Rightarrow> internal_slot list \<Rightarrow> nat \<Rightarrow> node" where
  "right_part b ts m = InternalPage b (child_page_id (ts ! m)) (drop (Suc m) ts)"

lemma internal_step_left:
  assumes "Suc i < length ts"
  shows "redistribute_step True (length A) (left_part a q ts (Suc i)) (right_part b ts (Suc i))
      (parent_with l pc A c B (ikey (ts ! Suc i))) =
    (Inr (), (left_part a q ts i, right_part b ts i, parent_with l pc A c B (ikey (ts ! i))))"
proof -
  have i: "i < length ts" using assms by simp
  have "take (Suc i) ts \<noteq> []" using i by auto
  then show ?thesis
    using take_butlast [OF i] drop_parts [OF assms] by (simp add: left_part_def right_part_def Let_def)
qed

lemma internal_step_right:
  assumes "Suc i < length ts"
  shows "redistribute_step False (length A) (right_part b ts i) (left_part a q ts i)
      (parent_with l pc A c B (ikey (ts ! i))) =
    (Inr (), (right_part b ts (Suc i), left_part a q ts (Suc i), parent_with l pc A c B (ikey (ts ! Suc i))))"
  using assms drop_parts [OF assms] by (simp add: left_part_def right_part_def Let_def take_Suc_conv_app_nth)

definition internal_cut_ok :: "nat \<Rightarrow> internal_slot list \<Rightarrow> nat \<Rightarrow> bool" where
  "internal_cut_ok ps ts m \<longleftrightarrow> 0 < m \<and> Suc m < length ts \<and>
     2 * ps \<le> 5 * (32 + isum (take m ts)) \<and> 2 * ps \<le> 5 * (32 + isum (drop (Suc m) ts)) \<and>
     32 + isum (take m ts) \<le> ps \<and> 32 + isum (drop (Suc m) ts) \<le> ps"

lemma internal_cut_okI:
  assumes "129 \<le> ps" and "2 * ps \<le> 5 * (32 + isum (take m ts))" and "2 * ps \<le> 5 * (32 + isum (drop (Suc m) ts))"
    and "32 + isum (take m ts) \<le> ps" and "32 + isum (drop (Suc m) ts) \<le> ps"
  shows "internal_cut_ok ps ts m"
proof -
  have "m \<noteq> 0" using assms(1,2) by (cases m) auto
  moreover have "Suc m < length ts"
  proof (rule ccontr)
    assume "\<not> Suc m < length ts"
    then have "isum (drop (Suc m) ts) = 0" by simp
    with assms(1,3) show False by simp
  qed
  ultimately show ?thesis using assms by (simp add: internal_cut_ok_def)
qed

lemma isum_take_mono: "i \<le> j \<Longrightarrow> isum (take i ts) \<le> isum (take j ts)"
  by (metis append_take_drop_id le_add1 min.absorb1 isum_simps(3) take_take)

lemma isum_drop_mono: "i \<le> j \<Longrightarrow> isum (drop j ts) \<le> isum (drop i ts)"
  using isum_take_mono [of i j ts] isum_take_drop [of i ts] isum_take_drop [of j ts] by simp

lemma internal_merge_fits:
  assumes short: "ishort ps ts" and i: "Suc i < length ts"
    and "5 * (32 + isum (take i ts)) < 2 * ps" and "5 * (32 + isum (drop (Suc (Suc i)) ts)) < 2 * ps"
  shows "32 + isum ts \<le> ps"
proof -
  have "10 * (20 + length (ikey (ts ! i))) \<le> ps + 160" "10 * (20 + length (ikey (ts ! Suc i))) \<le> ps + 160"
    using short i by (simp_all add: ishort_def short_key_def)
  moreover have "isum (take i ts) + (20 + length (ikey (ts ! i))) + (20 + length (ikey (ts ! Suc i))) + isum (drop (Suc (Suc i)) ts) = isum ts"
    using isum_around [of "Suc i" ts] isum_take_Suc [of i ts] i by simp
  ultimately show ?thesis using assms(3,4) by (simp add: algebra_simps)
qed

lemma internal_redistribute_left:
  assumes ps: "129 \<le> ps" and cap: "icap ps ts" and short: "ishort ps ts" and n: "0 < n" "n < length ts"
    and donor: "32 + isum (take n ts) \<le> ps" and small: "5 * (32 + isum (drop (Suc n) ts)) < 2 * ps"
  shows "(\<exists>m. redistribute_loop ps True (length A) bk (left_part a q ts n) (right_part b ts n)
        (parent_with l pc A c B (ikey (ts ! n))) =
      (Inr True, (left_part a q ts m, right_part b ts m, parent_with l pc A c B (ikey (ts ! m)))) \<and>
      internal_cut_ok ps ts m) \<or>
    redistribute_loop ps True (length A) bk (left_part a q ts n) (right_part b ts n)
        (parent_with l pc A c B (ikey (ts ! n))) = (Inr False, bk) \<and> 32 + isum ts \<le> ps"
proof -
  note c5 = slot_cap_bounds [OF ps]
  define d where "d j = left_part a q ts (n - j)" for j
  define r where "r j = right_part b ts (n - j)" for j
  define p where "p j = parent_with l pc A c B (ikey (ts ! (n - j)))" for j
  note defs = d_def r_def p_def
  note under = left_part_def right_part_def underpop_internal
  have step: "redistribute_step True (length A) (d j) (r j) (p j) = (Inr (), (d (Suc j), r (Suc j), p (Suc j)))"
    if "j < n" for j
  proof -
    have "n - j = Suc (n - Suc j)" "Suc (n - Suc j) < length ts" using that n by auto
    then show ?thesis using internal_step_left [of "n - Suc j" ts] by (simp add: defs)
  qed
  have can: "Suc j < n" if "j < n" "\<not> is_page_underpopulated ps (d (Suc j))" for j
    using that ps by (cases "n - Suc j") (auto simp: d_def under)
  have r0: "is_page_underpopulated ps (r 0)" using small by (simp add: r_def under)
  have sub: "i < n \<Longrightarrow> Suc (n - Suc i) < length ts \<and> Suc (n - Suc i) = n - i" for i using n by auto
  show ?thesis
  proof (rule redistribute_loop_cases [where can = "\<lambda>j. j < n" and d = d and r = r and p = p and bk = bk, OF step can n(1) r0])
    fix i
    assume 1: "redistribute_loop ps True (length A) bk (d 0) (r 0) (p 0) = (Inr True, (d (Suc i), r (Suc i), p (Suc i)))"
      "\<not> is_page_underpopulated ps (r (Suc i))" "\<not> is_page_underpopulated ps (d (Suc i))"
      "is_page_underpopulated ps (r i)" "i < n"
    let ?m = "n - Suc i"
    note s = sub [OF 1(5)]
    have h: "2 * ps \<le> 5 * (32 + isum (take ?m ts))" "2 * ps \<le> 5 * (32 + isum (drop (Suc ?m) ts))"
      "5 * (32 + isum (drop (Suc (Suc ?m)) ts)) < 2 * ps"
      using 1(2,3,4) s by (simp_all add: d_def r_def under)
    have "isum (drop (Suc ?m) ts) \<le> slot_cap ps + 4 + isum (drop (Suc (Suc ?m)) ts)"
      using drop_parts [of "Suc ?m" ts] icap_nth [OF cap, of "Suc ?m"] s by simp
    then have "32 + isum (drop (Suc ?m) ts) \<le> ps" using h(3) c5 by (simp add: algebra_simps)
    moreover have "32 + isum (take ?m ts) \<le> ps" using donor isum_take_mono [of ?m n ts] by simp
    ultimately have "internal_cut_ok ps ts ?m" using h by (intro internal_cut_okI [OF ps])
    with 1(1) show ?thesis by (intro disjI1 exI [of _ ?m]) (simp add: defs)
  next
    fix i
    assume 2: "redistribute_loop ps True (length A) bk (d 0) (r 0) (p 0) = (Inr False, bk)"
      "is_page_underpopulated ps (r i)" "is_page_underpopulated ps (d (Suc i))" "i < n"
    have "32 + isum ts \<le> ps"
      by (rule internal_merge_fits [OF short, of "n - Suc i"]) (use 2(2,3) sub [OF 2(4)] in \<open>simp_all add: d_def r_def under\<close>)
    with 2(1) show ?thesis by (intro disjI2) (simp add: defs)
  qed
qed

lemma internal_redistribute_right:
  assumes ps: "129 \<le> ps" and cap: "icap ps ts" and short: "ishort ps ts" and n: "Suc n < length ts"
    and donor: "32 + isum (drop (Suc n) ts) \<le> ps" and small: "5 * (32 + isum (take n ts)) < 2 * ps"
  shows "(\<exists>m. redistribute_loop ps False (length A) bk (right_part b ts n) (left_part a q ts n)
        (parent_with l pc A c B (ikey (ts ! n))) =
      (Inr True, (right_part b ts m, left_part a q ts m, parent_with l pc A c B (ikey (ts ! m)))) \<and>
      internal_cut_ok ps ts m) \<or>
    redistribute_loop ps False (length A) bk (right_part b ts n) (left_part a q ts n)
        (parent_with l pc A c B (ikey (ts ! n))) = (Inr False, bk) \<and> 32 + isum ts \<le> ps"
proof -
  note c5 = slot_cap_bounds [OF ps]
  define d where "d j = right_part b ts (n + j)" for j
  define r where "r j = left_part a q ts (n + j)" for j
  define p where "p j = parent_with l pc A c B (ikey (ts ! (n + j)))" for j
  note defs = d_def r_def p_def
  note under = left_part_def right_part_def underpop_internal
  have step: "redistribute_step False (length A) (d j) (r j) (p j) = (Inr (), (d (Suc j), r (Suc j), p (Suc j)))"
    if "Suc (n + j) < length ts" for j
    using internal_step_right [OF that] by (simp add: defs)
  have one: "Suc m < length ts" if "2 * ps \<le> 5 * (32 + isum (drop (Suc m) ts))" for m
    using that ps by (cases "Suc m < length ts") auto
  have can: "Suc (n + Suc j) < length ts" if "Suc (n + j) < length ts" "\<not> is_page_underpopulated ps (d (Suc j))" for j
    using one [of "n + Suc j"] that by (simp add: d_def under)
  have n0: "Suc (n + 0) < length ts" using n by simp
  have r0: "is_page_underpopulated ps (r 0)" using small by (simp add: r_def under)
  show ?thesis
  proof (rule redistribute_loop_cases [where can = "\<lambda>j. Suc (n + j) < length ts" and d = d and r = r and p = p and bk = bk, OF step can n0 r0])
    fix i
    assume 1: "redistribute_loop ps False (length A) bk (d 0) (r 0) (p 0) = (Inr True, (d (Suc i), r (Suc i), p (Suc i)))"
      "\<not> is_page_underpopulated ps (r (Suc i))" "\<not> is_page_underpopulated ps (d (Suc i))"
      "is_page_underpopulated ps (r i)" "Suc (n + i) < length ts"
    let ?m = "n + Suc i"
    have h: "2 * ps \<le> 5 * (32 + isum (take ?m ts))" "2 * ps \<le> 5 * (32 + isum (drop (Suc ?m) ts))"
      "5 * (32 + isum (take (n + i) ts)) < 2 * ps"
      using 1(2,3,4) by (simp_all add: d_def r_def under)
    have "isum (take ?m ts) \<le> slot_cap ps + 4 + isum (take (n + i) ts)"
      using isum_take_Suc [of "n + i" ts] icap_nth [OF cap, of "n + i"] 1(5) by simp
    then have "32 + isum (take ?m ts) \<le> ps" using h(3) c5 by (simp add: algebra_simps)
    moreover have "32 + isum (drop (Suc ?m) ts) \<le> ps" using donor isum_drop_mono [of "Suc n" "Suc ?m" ts] by simp
    ultimately have "internal_cut_ok ps ts ?m" using h by (intro internal_cut_okI [OF ps])
    with 1(1) show ?thesis by (intro disjI1 exI [of _ ?m]) (simp add: defs)
  next
    fix i
    assume 2: "redistribute_loop ps False (length A) bk (d 0) (r 0) (p 0) = (Inr False, bk)"
      "is_page_underpopulated ps (r i)" "is_page_underpopulated ps (d (Suc i))" "Suc (n + i) < length ts"
    have "32 + isum ts \<le> ps"
      by (rule internal_merge_fits [OF short, of "n + i"]) (use 2(2,3,4) in \<open>simp_all add: d_def r_def under\<close>)
    with 2(1) show ?thesis by (intro disjI2) (simp add: defs)
  qed
qed

text \<open>
  Outside the range of the theorems the transfer loop has other outcomes. With separators close to the limit on
  records two neighbours can neither help each other nor fit on one page, so the branch marked unreachable is
  reached; with pages below 128 bytes a leaf can give away its only record, and reading the first key of the
  emptied leaf raises.
\<close>

definition wide_slot :: "byte \<Rightarrow> nat \<Rightarrow> internal_slot" where
  "wide_slot k n = InternalSlot (k # replicate n 0) 7"

lemma wide_slot_simps [simp]: "child_page_id (wide_slot k n) = 7" "ikey (wide_slot k n) = k # replicate n 0"
  by (simp_all add: wide_slot_def)

lemma neighbours_can_be_stuck:
  defines "donor \<equiv> InternalPage 0 7 [wide_slot 1 29, wide_slot 2 56, wide_slot 3 56]"
    and "recipient \<equiv> InternalPage 0 7 [wide_slot 5 56, wide_slot 6 29]"
    and "parent \<equiv> InternalPage 0 7 [wide_slot 4 56]"
  shows "redistribute_loop 400 True 0 bk donor recipient parent = (Inr False, bk)"
    and "\<exists>probe. merge_probe donor recipient parent 0 = Inr probe \<and> is_page_overpopulated 400 probe"
    and "icap 400 (islots donor @ islots recipient @ islots parent)" "is_page_underpopulated 400 recipient"
    "\<not> is_page_underpopulated 400 donor" "\<not> is_page_overpopulated 400 donor"
  by (simp_all add: donor_def recipient_def parent_def pop_defs slot_cap_def redistribute_loop.simps Let_def)

lemma tiny_pages_raise:
  defines "donor \<equiv> LeafPage 0 0 [LeafSlot [2] [0]]"
  shows "\<exists>pages. redistribute_loop 125 False 0 bk donor (LeafPage 0 9 []) (InternalPage 0 7 [wide_slot 2 0]) = (Inl IndexError, pages)"
    and "int (calculate_leaf_record_size [2] [0]) \<le> get_max_leaf_record_size 125" "\<not> is_page_underpopulated 125 donor" "MIN_PAGE_SIZE \<le> 125"
  by (simp_all add: donor_def pop_defs redistribute_loop.simps Let_def calculate_leaf_slot_size_def calculate_leaf_record_size_def
      get_max_leaf_record_size_def MIN_PAGE_SIZE_def)

end
