(* ===== verification/TreeMoves.thy ===== *)
theory TreeMoves
  imports TreeSizes
begin

text \<open>
  Splitting, regrouping and merging as operations on abstract trees: what a split of an overfull page, a
  transfer of slots between two neighbours and a merge of two neighbours do to the tree of pages, to
  the in-order sequence and to the sizes. The lemmas tie the node-level code (\<^verbatim>\<open>_split_page\<close>,
  \<^verbatim>\<open>_try_redistribute_slots\<close>, the merge of \<^verbatim>\<open>_redistribute_or_merge_page\<close>) to the relations \<open>splits\<close>,
  \<open>regroups\<close> and \<open>merges\<close>; \<open>reseq\<close> says that a part of a sequence may replace another one.
\<close>

section \<open>Restructuring the sequence\<close>

definition keys_short :: "nat \<Rightarrow> item list \<Rightarrow> bool" where
  "keys_short ps xs \<longleftrightarrow> (\<forall>m \<in> set (marks xs). short_key ps (fst m))"

definition seq_fine :: "nat \<Rightarrow> item list \<Rightarrow> bool" where
  "seq_fine ps xs \<longleftrightarrow> seq_ok ps xs \<and> keys_short ps xs"

text \<open>A part of a sequence that can stand for another wherever that one is.\<close>

definition reseq :: "nat \<Rightarrow> item list \<Rightarrow> item list \<Rightarrow> bool" where
  "reseq ps X Y \<longleftrightarrow> entries Y = entries X \<and> (\<forall>A B. seq_fine ps (A @ X @ B) \<longrightarrow> seq_fine ps (A @ Y @ B))"

lemma reseq_refl [simp]: "reseq ps X X"
  by (simp add: reseq_def)

lemma reseqI:
  assumes "entries Y = entries X"
    and "\<And>A B. sorted_wrt (<) (marks (A @ X @ B)) \<Longrightarrow> sorted_wrt (<) (marks (A @ Y @ B))"
    and "\<And>z. linked z X \<Longrightarrow> linked z Y" and "\<And>z. first_leaf z Y = first_leaf z X"
    and "\<forall>x \<in> set X. item_capped ps x \<Longrightarrow> \<forall>x \<in> set Y. item_capped ps x"
    and "fst ` set (marks Y) \<subseteq> fst ` set (marks X)"
  shows "reseq ps X Y"
proof -
  have "seq_fine ps (A @ Y @ B)" if ok: "seq_fine ps (A @ X @ B)" for A B
  proof -
    have "seq_ok ps (A @ X @ B)" using ok by (simp add: seq_fine_def)
    moreover from this have "\<forall>x \<in> set X. item_capped ps x" "sorted_wrt (<) (marks (A @ X @ B))" by (auto simp: seq_ok_def)
    ultimately have "seq_ok ps (A @ Y @ B)" using assms by (intro seq_ok_replace [of ps A X B Y]) auto
    moreover have "short_key ps (fst m)" if "m \<in> set (marks Y)" for m
    proof -
      from that assms(6) obtain m' where "m' \<in> set (marks X)" "fst m' = fst m" by force
      with ok show ?thesis unfolding seq_fine_def keys_short_def seq_simps set_append by (metis Un_iff)
    qed
    ultimately show ?thesis using ok by (auto simp: seq_fine_def keys_short_def)
  qed
  with assms(1) show ?thesis by (simp add: reseq_def)
qed

lemma sorted_insert_mid:
  fixes x :: "'a::linorder"
  assumes "sorted_wrt (<) (P @ Q)" and "P \<noteq> []" and "Q \<noteq> []" and "last P < x" and "x < hd Q"
  shows "sorted_wrt (<) (P @ x # Q)"
proof -
  have "y < x" if "y \<in> set P" for y
  proof -
    have P: "P = butlast P @ [last P]" using assms(2) by simp
    have "sorted_wrt (<) (butlast P @ [last P])" using assms(1,2) by (simp add: sorted_wrt_append)
    then have "\<forall>y \<in> set (butlast P). y < last P" by (simp add: sorted_wrt_append)
    then show ?thesis using that P assms(4) by (metis Un_iff empty_iff insert_iff less_trans list.set set_append)
  qed
  moreover have "x < y" if "y \<in> set Q" for y
    using that assms(1,3,5) by (cases Q) (auto simp: sorted_wrt_append intro: less_trans)
  ultimately show ?thesis using assms(1) by (auto simp: sorted_wrt_append)
qed

lemma sorted_drop_mid: "sorted_wrt (<) (P @ Q @ S) \<Longrightarrow> sorted_wrt (<) (P @ S)"
  by (auto simp: sorted_wrt_append)

text \<open>A separator can be put before any slot of a leaf but the first.\<close>

lemma sorted_cut:
  assumes srt: "sorted_wrt (<) (U @ map (\<lambda>s. (lkey s, True)) ts @ W)" and m: "0 < m" "m < length ts"
  shows "sorted_wrt (<) (U @ map (\<lambda>s. (lkey s, True)) (take m ts) @ (lkey (ts ! m), False) # map (\<lambda>s. (lkey s, True)) (drop m ts) @ W)"
proof -
  let ?f = "\<lambda>s. (lkey s, True)"
  let ?P = "U @ map ?f (take m ts)" and ?Q = "map ?f (drop m ts) @ W"
  have ts: "ts = take m ts @ drop m ts" by simp
  have s: "sorted_wrt (<) (?P @ ?Q)" using srt by (metis append.assoc append_take_drop_id map_append)
  have P: "?P \<noteq> []" using m by auto
  have ne: "take m ts \<noteq> []" using m by auto
  have lastP: "last ?P = ?f (ts ! (m - 1))"
    using m ne last_conv_nth [OF ne] by (simp add: last_map)
  have hdQ: "hd ?Q = ?f (ts ! m)" "?Q \<noteq> []" using m drop_parts [of m ts] by auto
  have "last ?P \<in> set ?P" "hd ?Q \<in> set ?Q" using P hdQ(2) by (meson last_in_set hd_in_set)+
  then have "last ?P < hd ?Q" using s unfolding sorted_wrt_append by blast
  then have "last ?P < (lkey (ts ! m), False)" "(lkey (ts ! m), False) < hd ?Q"
    by (simp_all add: lastP hdQ(1) mark_order)
  from sorted_insert_mid [OF s P hdQ(2) this] show ?thesis by simp
qed

lemma leaf_slot_key: "16 + length (lkey s) \<le> calculate_leaf_slot_size s True"
  by (simp add: calculate_leaf_slot_size_def)

lemma mem_take_drop: "s \<in> set (take m ts) \<Longrightarrow> s \<in> set ts" "s \<in> set (drop m ts) \<Longrightarrow> s \<in> set ts"
  by (auto dest: in_set_takeD in_set_dropD)

lemma fst_item_marks [simp]:
  "fst ` set (item_marks (LeafI p r ss)) = lkey ` set ss" "fst ` set (item_marks (Sep k)) = {k}"
  by (simp_all add: image_image)

lemma reseq_cut:
  assumes m: "0 < m" "m < length (ls @ rs)"
  shows "reseq ps [LeafI p q ls, Sep k, LeafI p' q' rs]
    [LeafI p q (take m (ls @ rs)), Sep (lkey ((ls @ rs) ! m)), LeafI p' q' (drop m (ls @ rs))]"
proof (rule reseqI)
  let ?ts = "ls @ rs"
  have nth: "?ts ! m \<in> set ?ts" using m by (meson nth_mem)
  show "entries [LeafI p q (take m ?ts), Sep (lkey (?ts ! m)), LeafI p' q' (drop m ?ts)] =
      entries [LeafI p q ls, Sep k, LeafI p' q' rs]"
    using append_take_drop_id [of m ?ts] by (simp del: append_take_drop_id take_append drop_append)
  show "sorted_wrt (<) (marks (A @ [LeafI p q (take m ?ts), Sep (lkey (?ts ! m)), LeafI p' q' (drop m ?ts)] @ B))"
    if "sorted_wrt (<) (marks (A @ [LeafI p q ls, Sep k, LeafI p' q' rs] @ B))" for A B
  proof -
    let ?f = "\<lambda>s. (lkey s, True)"
    have "sorted_wrt (<) ((marks A @ map ?f ls) @ [(k, False)] @ map ?f rs @ marks B)" using that by simp
    then have "sorted_wrt (<) (marks A @ map ?f ?ts @ marks B)" using sorted_drop_mid by fastforce
    from sorted_cut [OF this m] show ?thesis by (simp del: take_append drop_append)
  qed
  show "\<forall>x \<in> set [LeafI p q (take m ?ts), Sep (lkey (?ts ! m)), LeafI p' q' (drop m ?ts)]. item_capped ps x"
    if "\<forall>x \<in> set [LeafI p q ls, Sep k, LeafI p' q' rs]. item_capped ps x"
  proof -
    have c: "\<forall>s \<in> set ?ts. calculate_leaf_slot_size s True \<le> slot_cap ps" using that by auto
    have "16 + length (lkey (?ts ! m)) \<le> slot_cap ps" using c nth leaf_slot_key le_trans by blast
    with c show ?thesis by (auto dest: mem_take_drop simp del: take_append drop_append)
  qed
  show "fst ` set (marks [LeafI p q (take m ?ts), Sep (lkey (?ts ! m)), LeafI p' q' (drop m ?ts)]) \<subseteq>
      fst ` set (marks [LeafI p q ls, Sep k, LeafI p' q' rs])"
    using nth by (auto simp: image_Un dest!: mem_take_drop simp del: take_append drop_append item_marks.simps)
qed simp_all

lemma reseq_split:
  assumes m: "0 < m" "m < length ss"
  shows "reseq ps [LeafI p q ss] [LeafI p new (take m ss), Sep (lkey (ss ! m)), LeafI new q (drop m ss)]"
proof (rule reseqI)
  have nth: "ss ! m \<in> set ss" using m by simp
  show "sorted_wrt (<) (marks (A @ [LeafI p new (take m ss), Sep (lkey (ss ! m)), LeafI new q (drop m ss)] @ B))"
    if "sorted_wrt (<) (marks (A @ [LeafI p q ss] @ B))" for A B
    using sorted_cut [of "marks A" ss "marks B", OF _ m] that by simp
  show "\<forall>x \<in> set [LeafI p new (take m ss), Sep (lkey (ss ! m)), LeafI new q (drop m ss)]. item_capped ps x"
    if "\<forall>x \<in> set [LeafI p q ss]. item_capped ps x"
  proof -
    have c: "\<forall>s \<in> set ss. calculate_leaf_slot_size s True \<le> slot_cap ps" using that by auto
    have "16 + length (lkey (ss ! m)) \<le> slot_cap ps" using c nth leaf_slot_key le_trans by blast
    with c show ?thesis by (auto dest: mem_take_drop)
  qed
  show "fst ` set (marks [LeafI p new (take m ss), Sep (lkey (ss ! m)), LeafI new q (drop m ss)]) \<subseteq>
      fst ` set (marks [LeafI p q ss])"
    using nth by (auto simp: image_Un dest!: mem_take_drop simp del: item_marks.simps)
qed simp_all

lemma reseq_merge: "reseq ps [LeafI p q ls, Sep k, LeafI p' q' rs] [LeafI p q' (ls @ rs)]"
proof (rule reseqI)
  show "sorted_wrt (<) (marks (A @ [LeafI p q' (ls @ rs)] @ B))"
    if "sorted_wrt (<) (marks (A @ [LeafI p q ls, Sep k, LeafI p' q' rs] @ B))" for A B
    using that sorted_drop_mid [of "marks A @ map (\<lambda>s. (lkey s, True)) ls" "[(k, False)]"] by simp
qed auto

section \<open>Restructuring trees\<close>

definition page_fine :: "nat \<Rightarrow> node \<Rightarrow> bool" where
  "page_fine ps n \<longleftrightarrow> page_good ps n \<and> \<not> is_page_underpopulated ps n"

lemma page_fine_leaf: "page_fine ps (LeafPage l q ss) \<longleftrightarrow> 32 + lsum ss \<le> ps \<and> 2 * ps \<le> 5 * (32 + lsum ss)"
  by (auto simp: page_fine_def page_good_def pop_defs)

lemma page_good_internal: "page_good ps (InternalPage l c ss) \<longleftrightarrow> 32 + isum ss \<le> ps \<and> ss \<noteq> []"
  by (auto simp: page_good_def pop_defs)

lemma page_fine_internal: "page_fine ps (InternalPage l c ss) \<longleftrightarrow> 32 + isum ss \<le> ps \<and> ss \<noteq> [] \<and> 2 * ps \<le> 5 * (32 + isum ss)"
  by (auto simp: page_fine_def page_good_def pop_defs)

definition capped :: "nat \<Rightarrow> item list \<Rightarrow> bool" where
  "capped ps xs \<longleftrightarrow> (\<forall>x \<in> set xs. item_capped ps x)"

lemma capped_simps [simp]:
  "capped ps []" "capped ps (x # xs) \<longleftrightarrow> item_capped ps x \<and> capped ps xs" "capped ps (xs @ ys) \<longleftrightarrow> capped ps xs \<and> capped ps ys"
  by (auto simp: capped_def)

lemma row_seq_Sep: "(k, t) \<in> set kts \<Longrightarrow> Sep k \<in> set (row_seq kts)"
  by (force simp: row_seq_def)

lemma child_slots_Nil [simp]: "child_slots kts = [] \<longleftrightarrow> kts = []"
  by (simp add: child_slots_def)

lemma capped_child_slots: "capped ps (row_seq kts) \<Longrightarrow> icap ps (child_slots kts)"
  by (fastforce simp: icap_def child_slots_def capped_def dest: row_seq_Sep)

lemma keys_short_child_slots: "keys_short ps (row_seq kts) \<Longrightarrow> ishort ps (child_slots kts)"
  by (fastforce simp: ishort_def child_slots_def keys_short_def dest: row_seq_Sep mark_Sep)

lemma below_simps [simp]: "below (Lf p q ss) = []" "below (Nd p t kts) = pages t @ row_pages kts"
  by (simp_all add: below_def)

lemma row_split: "i < length kts \<Longrightarrow> kts = take i kts @ (fst (kts ! i), snd (kts ! i)) # drop (Suc i) kts"
  by (simp add: id_take_nth_drop)

lemma child_slots_nth: "i < length kts \<Longrightarrow> child_slots kts ! i = InternalSlot (fst (kts ! i)) (pid (snd (kts ! i)))"
  by (simp add: child_slots_def case_prod_unfold)

lemma child_slots_take_drop: "child_slots (take i kts) = take i (child_slots kts)" "child_slots (drop i kts) = drop i (child_slots kts)"
  by (simp_all add: child_slots_def take_map drop_map)

text \<open>The tree \<open>t\<close> becomes two trees with a separator, the second at the page \<open>new\<close>.\<close>

definition splits :: "nat \<Rightarrow> nat \<Rightarrow> btree \<Rightarrow> nat \<Rightarrow> btree \<Rightarrow> bytes \<Rightarrow> btree \<Rightarrow> bool" where
  "splits ps h t new l k r \<longleftrightarrow> pid l = pid t \<and> pid r = new \<and> depth_ok h l \<and> depth_ok h r \<and>
     mset (below l) + mset (below r) = mset (below t) \<and> page_fine ps (tnode l) \<and> page_fine ps (tnode r) \<and>
     reseq ps (leaf_seq t) (leaf_seq l @ Sep k # leaf_seq r)"

text \<open>Two neighbours and their separator become two others at the same pages.\<close>

definition regroups :: "nat \<Rightarrow> nat \<Rightarrow> btree \<Rightarrow> bytes \<Rightarrow> btree \<Rightarrow> btree \<Rightarrow> bytes \<Rightarrow> btree \<Rightarrow> bool" where
  "regroups ps h l k r l' k' r' \<longleftrightarrow> pid l' = pid l \<and> pid r' = pid r \<and> depth_ok h l' \<and> depth_ok h r' \<and>
     mset (below l') + mset (below r') = mset (below l) + mset (below r) \<and>
     page_fine ps (tnode l') \<and> page_fine ps (tnode r') \<and>
     reseq ps (leaf_seq l @ Sep k # leaf_seq r) (leaf_seq l' @ Sep k' # leaf_seq r')"

text \<open>Two neighbours become one at the page of the left one.\<close>

definition merges :: "nat \<Rightarrow> nat \<Rightarrow> btree \<Rightarrow> bytes \<Rightarrow> btree \<Rightarrow> btree \<Rightarrow> bool" where
  "merges ps h l k r m \<longleftrightarrow> pid m = pid l \<and> depth_ok h m \<and> mset (below m) = mset (below l) + mset (below r) \<and>
     page_fine ps (tnode m) \<and> reseq ps (leaf_seq l @ Sep k # leaf_seq r) (leaf_seq m)"

text \<open>How far the page in focus may have outgrown the page size.\<close>

fun overhang :: "nat \<Rightarrow> node \<Rightarrow> nat" where
  "overhang ps (LeafPage l r ss) = slot_cap ps"
| "overhang ps (InternalPage l c ss) = slot_cap ps + 4"

lemma split_tree_leaf:
  assumes ps: "129 \<le> ps" and cap: "lcap ps ss" and over: "ps < 32 + lsum ss" "32 + lsum ss \<le> ps + slot_cap ps"
    and i: "i = choose_split_point ps (LeafPage a q ss) (cumulative 0 (slot_sizes (LeafPage a q ss)))"
  shows "split_node i (LeafPage a q ss) new op_lsn = Inr (LeafPage a new (take i ss), LeafPage op_lsn q (drop i ss), lkey (ss ! i))"
    and "splits ps 0 (Lf p q ss) new (Lf p new (take i ss)) (lkey (ss ! i)) (Lf new q (drop i ss))"
proof -
  note s = leaf_split_point [OF ps cap over i]
  then show "split_node i (LeafPage a q ss) new op_lsn = Inr (LeafPage a new (take i ss), LeafPage op_lsn q (drop i ss), lkey (ss ! i))"
    by simp
  have "0 < i" "i < length ss" using s by auto
  from reseq_split [OF this] s
  show "splits ps 0 (Lf p q ss) new (Lf p new (take i ss)) (lkey (ss ! i)) (Lf new q (drop i ss))"
    by (simp add: splits_def page_fine_leaf)
qed

lemma split_tree_internal:
  assumes ps: "129 \<le> ps" and cap: "ishort ps (child_slots kts)" and d: "depth_ok (Suc h) (Nd p t0 kts)"
    and over: "ps < 32 + isum (child_slots kts)" "32 + isum (child_slots kts) \<le> ps + slot_cap ps + 4"
    and i: "i = choose_split_point ps (InternalPage a (pid t0) (child_slots kts))
      (cumulative 0 (slot_sizes (InternalPage a (pid t0) (child_slots kts))))"
  shows "split_node i (InternalPage a (pid t0) (child_slots kts)) new op_lsn =
      Inr (InternalPage a (pid t0) (child_slots (take i kts)),
           InternalPage op_lsn (pid (snd (kts ! i))) (child_slots (drop (Suc i) kts)), fst (kts ! i))"
    and "splits ps (Suc h) (Nd p t0 kts) new (Nd p t0 (take i kts)) (fst (kts ! i)) (Nd new (snd (kts ! i)) (drop (Suc i) kts))"
proof -
  note s = internal_split_point [OF ps cap over i]
  then have il: "i < length kts" by simp
  then show "split_node i (InternalPage a (pid t0) (child_slots kts)) new op_lsn =
      Inr (InternalPage a (pid t0) (child_slots (take i kts)),
           InternalPage op_lsn (pid (snd (kts ! i))) (child_slots (drop (Suc i) kts)), fst (kts ! i))"
    by (simp add: child_slots_nth child_slots_take_drop)
  have "kts ! i \<in> set kts" using il by simp
  with d have dep: "depth_ok h (snd (kts ! i))" "\<forall>(k, t) \<in> set (take i kts). depth_ok h t"
    "\<forall>(k, t) \<in> set (drop (Suc i) kts). depth_ok h t"
    by (auto dest: in_set_takeD in_set_dropD)
  note row = row_split [OF il]
  have "row_seq kts = row_seq (take i kts) @ Sep (fst (kts ! i)) # leaf_seq (snd (kts ! i)) @ row_seq (drop (Suc i) kts)"
    "row_pages kts = row_pages (take i kts) @ pages (snd (kts ! i)) @ row_pages (drop (Suc i) kts)"
    using arg_cong [OF row, of row_seq] arg_cong [OF row, of row_pages] by (simp_all del: prod.collapse)
  moreover have "take i kts \<noteq> []" "drop (Suc i) kts \<noteq> []" using s by auto
  moreover from this have "take i (child_slots kts) \<noteq> []" "drop (Suc i) (child_slots kts) \<noteq> []"
    using s by auto
  ultimately show "splits ps (Suc h) (Nd p t0 kts) new (Nd p t0 (take i kts)) (fst (kts ! i)) (Nd new (snd (kts ! i)) (drop (Suc i) kts))"
    using dep d s by (simp add: splits_def page_fine_internal child_slots_take_drop)
qed

lemma split_tree:
  assumes ps: "129 \<le> ps" and d: "depth_ok h t" and y: "strip y = tnode t" and cap: "capped ps (leaf_seq t)" "keys_short ps (leaf_seq t)"
    and over: "ps < calculate_page_size y" "calculate_page_size y \<le> ps + overhang ps y"
    and i: "i = choose_split_point ps y (cumulative 0 (slot_sizes y))"
  obtains l k r y1 y2 where "split_node i y new op_lsn = Inr (y1, y2, k)" "strip y1 = tnode l" "strip y2 = tnode r"
    "splits ps h t new l k r" "cumulative 0 (slot_sizes y) \<noteq> []" "is_LeafPage y1 = is_LeafPage y"
proof (cases t)
  case (Lf p q ss)
  with y obtain a where y: "y = LeafPage a q ss" using strip_leaf by fastforce
  have c: "lcap ps ss" using cap(1) Lf by (simp add: lcap_def)
  have ov: "ps < 32 + lsum ss" "32 + lsum ss \<le> ps + slot_cap ps" using over y by simp_all
  have "ss \<noteq> []" using over ps y by auto
  moreover have "h = 0" using d Lf by (cases h) auto
  ultimately show thesis
    using that [of _ _ _ "Lf p new (take i ss)" "Lf new q (drop i ss)"] y Lf
      split_tree_leaf [OF ps c ov i [unfolded y]] by simp
next
  case (Nd p t0 kts)
  with y obtain a where y: "y = InternalPage a (pid t0) (child_slots kts)" using strip_internal by fastforce
  obtain h' where h: "h = Suc h'" using d Nd by (cases h) auto
  have c: "ishort ps (child_slots kts)" by (rule keys_short_child_slots) (use cap(2) Nd in \<open>simp add: keys_short_def\<close>)
  have ov: "ps < 32 + isum (child_slots kts)" "32 + isum (child_slots kts) \<le> ps + slot_cap ps + 4" using over y by simp_all
  have ne: "child_slots kts \<noteq> []" using over ps y by auto
  note sp = split_tree_internal [OF ps c d [unfolded h Nd] ov i [unfolded y]]
  show thesis
    by (rule that [of "InternalPage a (pid t0) (child_slots (take i kts))"
          "InternalPage op_lsn (pid (snd (kts ! i))) (child_slots (drop (Suc i) kts))" "fst (kts ! i)"
          "Nd p t0 (take i kts)" "Nd new (snd (kts ! i)) (drop (Suc i) kts)"])
       (use sp y h Nd ne in simp_all)
qed

text \<open>The pages of a merge.\<close>

lemma merge_tree:
  assumes ps: "129 \<le> ps" and d: "depth_ok h l" "depth_ok h r" and y: "strip yl = tnode l" "strip yr = tnode r"
    and full: "\<not> is_page_underpopulated ps (tnode l) \<or> \<not> is_page_underpopulated ps (tnode r)"
    and parent: "sep = int (length A)" "parent = parent_with a pc A c B k" "c = pid r"
  obtains m probe where "merge_probe yl yr parent sep = Inr probe" "strip probe = tnode m"
    "calculate_page_size probe \<le> ps \<Longrightarrow> merges ps h l k r m"
proof (cases l)
  case (Lf p q ls)
  then have h: "h = 0" using d by (cases h) auto
  with d obtain p' q' rs where r: "r = Lf p' q' rs" by (cases r) auto
  obtain a1 a2 where yy: "yl = LeafPage a1 q ls" "yr = LeafPage a2 q' rs"
    using y Lf r strip_leaf [of yl] strip_leaf [of yr] by auto
  have "2 * ps \<le> 5 * (32 + lsum (ls @ rs))"
    using full Lf r by (auto simp: pop_defs)
  with that [of "LeafPage 0 q' (ls @ rs)" "Lf p q' (ls @ rs)"] reseq_merge [of ps p q ls k p' q' rs] h
  show thesis by (simp add: yy Lf r merges_def page_fine_leaf)
next
  case (Nd p t0 kts)
  then obtain h' where h: "h = Suc h'" using d by (cases h) auto
  with d obtain p' t0' kts' where r: "r = Nd p' t0' kts'" by (cases r) auto
  obtain a1 a2 where yy: "yl = InternalPage a1 (pid t0) (child_slots kts)" "yr = InternalPage a2 (pid t0') (child_slots kts')"
    using y Nd r strip_internal [of yl] strip_internal [of yr] by auto
  have "merge_probe yl yr parent sep =
      Inr (InternalPage 0 (pid t0) (child_slots (kts @ (k, t0') # kts')))"
    by (simp add: yy parent) (simp add: parent_with_def)
  moreover have "2 * ps \<le> 5 * (32 + isum (child_slots (kts @ (k, t0') # kts')))" using full Nd r by (auto simp: pop_defs)
  ultimately show thesis
    using that [of "InternalPage 0 (pid t0) (child_slots (kts @ (k, t0') # kts'))" "Nd p t0 (kts @ (k, t0') # kts')"] d h
    by (simp add: Nd r merges_def page_fine_internal) blast
qed

text \<open>
  The outcome of a transfer between the neighbours \<open>l\<close> and \<open>r\<close> with the separator \<open>k\<close>: they regroup, or nothing
  changes and they fit on one page.
\<close>

definition transferred ::
  "nat \<Rightarrow> nat \<Rightarrow> bool \<Rightarrow> btree \<Rightarrow> bytes \<Rightarrow> btree \<Rightarrow> node \<Rightarrow> node \<Rightarrow> (bytes \<Rightarrow> node) \<Rightarrow> int \<Rightarrow> node \<times> node \<times> node \<Rightarrow>
     bool result \<times> node \<times> node \<times> node \<Rightarrow> bool" where
  "transferred ps h donor_is_left l k r yl yr parent sep backup out \<longleftrightarrow>
     (\<exists>l' k' r' yl' yr'. out = (Inr True, (if donor_is_left then (yl', yr', parent k') else (yr', yl', parent k'))) \<and>
        strip yl' = tnode l' \<and> strip yr' = tnode r' \<and> regroups ps h l k r l' k' r') \<or>
     (out = (Inr False, backup) \<and>
        (\<forall>probe. merge_probe yl yr (parent k) sep = Inr probe \<longrightarrow> calculate_page_size probe \<le> ps))"

lemma transferredI1:
  "out = (Inr True, (if left then (yl', yr', parent k') else (yr', yl', parent k'))) \<Longrightarrow>
   strip yl' = tnode l' \<Longrightarrow> strip yr' = tnode r' \<Longrightarrow> regroups ps h l k r l' k' r' \<Longrightarrow>
   transferred ps h left l k r yl yr parent sep bk out"
  unfolding transferred_def by blast

lemma leaf_regroup:
  assumes "leaf_cut_ok ps (ls @ rs) m"
  shows "regroups ps 0 (Lf p q ls) k (Lf p' q' rs) (Lf p q (take m (ls @ rs))) (lkey ((ls @ rs) ! m)) (Lf p' q' (drop m (ls @ rs)))"
  using assms reseq_cut [of m ls rs ps p q k p' q']
  by (simp add: leaf_cut_ok_def regroups_def page_fine_leaf del: take_append drop_append)

lemma internal_regroup:
  assumes d: "depth_ok (Suc h) (Nd p t0 kts)" "depth_ok (Suc h) (Nd p' t0' kts')"
    and full: "full = kts @ (k, t0') # kts'" and cut: "internal_cut_ok ps (child_slots full) m"
  shows "regroups ps (Suc h) (Nd p t0 kts) k (Nd p' t0' kts')
    (Nd p t0 (take m full)) (fst (full ! m)) (Nd p' (snd (full ! m)) (drop (Suc m) full))"
proof -
  have m: "0 < m" "Suc m < length full" using cut by (simp_all add: internal_cut_ok_def)
  then have ml: "m < length full" by simp
  note row = row_split [OF ml]
  have r1: "row_seq kts @ Sep k # leaf_seq t0' @ row_seq kts' =
      row_seq (take m full) @ Sep (fst (full ! m)) # leaf_seq (snd (full ! m)) @ row_seq (drop (Suc m) full)"
    using arg_cong [OF row, of row_seq] by (simp add: full del: prod.collapse)
  have "mset (row_pages full) = mset (row_pages (take m full)) + mset (pages (snd (full ! m))) + mset (row_pages (drop (Suc m) full))"
    using arg_cong [OF row, of row_pages] by (simp del: prod.collapse)
  then have ms: "mset (row_pages (take m full)) + mset (pages (snd (full ! m))) + mset (row_pages (drop (Suc m) full)) =
      mset (row_pages kts) + mset (pages t0') + mset (row_pages kts')"
    using full by (metis add.assoc mset_append row_pages_simps(2,3))
  have dep: "\<forall>(k, t) \<in> set full. depth_ok h t" using d by (auto simp: full)
  have "full ! m \<in> set full" using ml by simp
  with dep have "depth_ok h (snd (full ! m))" "\<forall>(k, t) \<in> set (take m full). depth_ok h t"
    "\<forall>(k, t) \<in> set (drop (Suc m) full). depth_ok h t"
    by (auto dest: in_set_takeD in_set_dropD)
  moreover have "take m full \<noteq> []" "drop (Suc m) full \<noteq> []" using m by auto
  ultimately show ?thesis
    using d cut ms r1 by (simp add: regroups_def page_fine_internal internal_cut_ok_def child_slots_take_drop ac_simps)
qed

lemma leaf_transferred:
  assumes ps: "129 \<le> ps" and cap: "lcap ps (ls @ rs)"
    and y: "yl = LeafPage a1 q ls" "yr = LeafPage a2 q' rs"
    and parent: "parent = parent_with a pc A c B" "sep = int (length A)"
    and left: "left \<Longrightarrow> page_fine ps yl" "left \<Longrightarrow> is_page_underpopulated ps yr"
    and right: "\<not> left \<Longrightarrow> page_fine ps yr" "\<not> left \<Longrightarrow> is_page_underpopulated ps yl"
  shows "transferred ps 0 left (Lf p q ls) k (Lf p' q' rs) yl yr parent sep bk
    (redistribute_loop ps left (length A) bk (if left then yl else yr) (if left then yr else yl) (parent k))"
    (is "transferred _ _ _ ?l _ ?r _ _ _ _ _ ?out")
proof -
  let ?ts = "ls @ rs" and ?n = "length ls"
  have moved: ?thesis if "?out = (Inr True, (if left then (LeafPage a1 q (take m ?ts), LeafPage a2 q' (drop m ?ts), parent (lkey (?ts ! m)))
      else (LeafPage a2 q' (drop m ?ts), LeafPage a1 q (take m ?ts), parent (lkey (?ts ! m)))))" "leaf_cut_ok ps ?ts m" for m
    by (rule transferredI1 [where parent = parent, OF that(1) _ _ leaf_regroup [OF that(2)]]) simp_all
  have stuck: ?thesis if "?out = (Inr False, bk)" "32 + lsum ?ts \<le> ps"
    using that by (simp add: transferred_def y)
  show ?thesis
  proof (cases left)
    case True
    from leaf_redistribute_left [OF ps cap, of ?n A bk a1 q a2 q' a pc c B k] True left moved stuck show ?thesis
      by (auto simp: y parent page_fine_leaf underpop_leaf)
  next
    case False
    from leaf_redistribute_right [OF ps cap, of ?n A bk a2 q' a1 q a pc c B k] False right moved stuck show ?thesis
      by (auto simp: y parent page_fine_leaf underpop_leaf)
  qed
qed

lemma internal_transferred:
  assumes ps: "129 \<le> ps" and d: "depth_ok (Suc h) (Nd p t0 kts)" "depth_ok (Suc h) (Nd p' t0' kts')"
    and full: "full = kts @ (k, t0') # kts'" and cap: "icap ps (child_slots full)" and short: "ishort ps (child_slots full)"
    and y: "yl = InternalPage a1 (pid t0) (child_slots kts)" "yr = InternalPage a2 (pid t0') (child_slots kts')"
    and parent: "parent = parent_with a pc A c B" "sep = int (length A)"
    and left: "left \<Longrightarrow> page_fine ps yl" "left \<Longrightarrow> is_page_underpopulated ps yr"
    and right: "\<not> left \<Longrightarrow> page_fine ps yr" "\<not> left \<Longrightarrow> is_page_underpopulated ps yl"
  shows "transferred ps (Suc h) left (Nd p t0 kts) k (Nd p' t0' kts') yl yr parent sep bk
    (redistribute_loop ps left (length A) bk (if left then yl else yr) (if left then yr else yl) (parent k))"
    (is "transferred _ _ _ ?l _ ?r _ _ _ _ _ ?out")
proof -
  let ?ts = "child_slots full" and ?n = "length kts"
  have yl: "yl = left_part a1 (pid t0) ?ts ?n" and yr: "yr = right_part a2 ?ts ?n" and k: "ikey (?ts ! ?n) = k"
    by (simp_all add: y full left_part_def right_part_def nth_append)
  have n: "?n < length ?ts" by (simp add: full)
  have ne: "left \<Longrightarrow> 0 < ?n" "\<not> left \<Longrightarrow> Suc ?n < length ?ts"
    using left(1) right(1) by (auto simp: y full page_fine_internal)
  have moved: ?thesis if m: "?out = (Inr True, (if left then (left_part a1 (pid t0) ?ts m, right_part a2 ?ts m, parent (ikey (?ts ! m)))
      else (right_part a2 ?ts m, left_part a1 (pid t0) ?ts m, parent (ikey (?ts ! m)))))" "internal_cut_ok ps ?ts m" for m
  proof -
    have ml: "m < length full" using m(2) by (simp add: internal_cut_ok_def)
    have key: "ikey (?ts ! m) = fst (full ! m)" by (simp add: child_slots_nth [OF ml])
    then show ?thesis
      by (intro transferredI1 [where parent = parent, OF m(1) [unfolded key] _ _ internal_regroup [OF d full m(2)]])
        (simp_all add: left_part_def right_part_def child_slots_nth [OF ml] child_slots_take_drop)
  qed
  have stuck: ?thesis if "?out = (Inr False, bk)" "32 + isum ?ts \<le> ps"
    using that by (auto simp: transferred_def y parent full parent_with_def)
  show ?thesis
  proof (cases left)
    case True
    from internal_redistribute_left [OF ps cap short ne(1) [OF True] n, of A bk a1 "pid t0" a2 a pc c B] True left moved stuck
    show ?thesis unfolding yl [symmetric] yr [symmetric] k
      by (auto simp: parent y full page_fine_internal underpop_internal)
  next
    case False
    from internal_redistribute_right [OF ps cap short ne(2) [OF False], of A bk a2 a1 "pid t0" a pc c B] False right moved stuck
    show ?thesis unfolding yl [symmetric] yr [symmetric] k
      by (auto simp: parent y full page_fine_internal underpop_internal)
  qed
qed

lemma tree_transferred:
  assumes ps: "129 \<le> ps" and d: "depth_ok h l" "depth_ok h r" and y: "strip yl = tnode l" "strip yr = tnode r"
    and seq: "capped ps (leaf_seq l @ Sep k # leaf_seq r)" "keys_short ps (leaf_seq l @ Sep k # leaf_seq r)"
    and parent: "parent = parent_with a pc A c B" "sep = int (length A)"
    and left: "left \<Longrightarrow> page_fine ps (tnode l)" "left \<Longrightarrow> is_page_underpopulated ps yr"
    and right: "\<not> left \<Longrightarrow> page_fine ps (tnode r)" "\<not> left \<Longrightarrow> is_page_underpopulated ps yl"
  shows "transferred ps h left l k r yl yr parent sep bk
    (redistribute_loop ps left (length A) bk (if left then yl else yr) (if left then yr else yl) (parent k))"
proof (cases l)
  case (Lf p q ls)
  then have h: "h = 0" using d by (cases h) auto
  with d obtain p' q' rs where r: "r = Lf p' q' rs" by (cases r) auto
  obtain a1 a2 where yy: "yl = LeafPage a1 q ls" "yr = LeafPage a2 q' rs"
    using y Lf r strip_leaf [of yl] strip_leaf [of yr] by auto
  have cap: "lcap ps (ls @ rs)" using seq(1) Lf r by (auto simp: lcap_def)
  show ?thesis unfolding h Lf r
    by (rule leaf_transferred [OF ps cap yy parent]) (use left right Lf r yy in \<open>simp_all add: page_fine_leaf\<close>)
next
  case (Nd p t0 kts)
  then obtain h' where h: "h = Suc h'" using d by (cases h) auto
  with d obtain p' t0' kts' where r: "r = Nd p' t0' kts'" by (cases r) auto
  obtain a1 a2 where yy: "yl = InternalPage a1 (pid t0) (child_slots kts)" "yr = InternalPage a2 (pid t0') (child_slots kts')"
    using y Nd r strip_internal [of yl] strip_internal [of yr] by auto
  have row: "row_seq (kts @ (k, t0') # kts') = row_seq kts @ Sep k # leaf_seq t0' @ row_seq kts'" by simp
  have cap: "icap ps (child_slots (kts @ (k, t0') # kts'))"
    by (rule capped_child_slots) (use seq(1) Nd r in \<open>simp del: child_slots_simps\<close>)
  have short: "ishort ps (child_slots (kts @ (k, t0') # kts'))"
    by (rule keys_short_child_slots) (use seq(2) Nd r in \<open>auto simp: keys_short_def\<close>)
  show ?thesis unfolding h Nd r
    by (rule internal_transferred [OF ps _ _ refl cap short yy parent])
      (use d h left right Nd r yy in \<open>simp_all add: page_fine_internal\<close>)
qed

end
