(* ===== verification/TreeFocus.thy ===== *)
theory TreeFocus
  imports TreeMoves
begin

text \<open>
  The invariant of the rebalancing loop. \<open>focus_ok\<close> describes a tree in which one page, the page in
  focus, may be too large or too small; the lemmas say how it moves up one level when that page
  splits, regroups or merges with a neighbour, and that the tree is well formed again when the page in focus
  is in order.
\<close>

section \<open>Pages in the store\<close>

lemma map_of_perm:
  assumes "distinct (map fst xs)" and "mset xs = mset ys"
  shows "map_of xs = map_of ys" and "distinct (map fst ys)"
proof -
  have m: "mset (map fst xs) = mset (map fst ys)" using assms(2) by simp
  show d: "distinct (map fst ys)" using assms(1) mset_eq_imp_distinct_iff [OF m] by simp
  have "map_of xs p = Some x \<longleftrightarrow> map_of ys p = Some x" for p x
    using assms d mset_eq_setD [OF assms(2)] by (simp add: map_of_eq_Some_iff)
  then show "map_of xs = map_of ys" by (intro ext) (metis not_Some_eq)
qed

lemma pool_state_stats [simp]:
  "pool_state E V R H U n r (s\<lparr>tr_stats := st\<rparr>) = pool_state E V R H U n r s"
proof -
  have same: "pager_same s (s\<lparr>tr_stats := st\<rparr>)" by (simp add: pager_same_def)
  show ?thesis
    using pager_same_laws [OF same] pool_view_same [OF same] by (simp add: pool_state_def pool_ok_def)
qed

lemma bind_tr_bump [simp]: "bind_op (tr_bump_stat g) f s = f () (s\<lparr>tr_stats := g (tr_stats s)\<rparr>)"
  by (simp add: tr_bump_stat_def)

section \<open>Frames\<close>

text \<open>The slots of a frame's page up to and behind the hole.\<close>

fun fpre :: "frame \<Rightarrow> nat \<Rightarrow> internal_slot list" where
  "fpre (FL p B) c = []"
| "fpre (FS p t0 A k B) c = child_slots A @ [InternalSlot k c]"

fun fpost :: "frame \<Rightarrow> internal_slot list" where
  "fpost (FL p B) = child_slots B"
| "fpost (FS p t0 A k B) = child_slots B"

lemma fslots_parts: "fslots F c mid = fpre F c @ mid @ fpost F"
  by (cases F) simp_all

lemma length_fpre [simp]: "length (fpre F c) = sepidx F"
  by (cases F) simp_all

lemma fnode2_parent: "fnode2 F c k d = parent_with 0 (fleft F c) (fpre F c) d (fpost F) k"
  by (simp add: fnode2_def parent_with_def fslots_parts)

lemma fnode_strip [simp]: "strip (fnode F c) = fnode F c" "strip (fnode2 F c k d) = fnode2 F c k d"
  by (simp_all add: fnode_def fnode2_def)

lemma insort_by_at:
  assumes "sorted_wrt (<) (map key (P @ x # S))"
  shows "insort_by key (P @ S) x = P @ x # S"
proof -
  have P: "\<forall>y \<in> set P. key y < key x" and S: "\<forall>y \<in> set S. key x < key y"
    and s: "sorted_wrt (<) (map key (P @ S))"
    using assms by (auto simp: sorted_wrt_append)
  have "takeWhile (\<lambda>k. k \<le> key x) (map key P @ map key S) = map key P @ takeWhile (\<lambda>k. k \<le> key x) (map key S)"
    using P by (intro takeWhile_append2) auto
  moreover have "takeWhile (\<lambda>k. k \<le> key x) (map key S) = []" using S by (cases S) auto
  ultimately have "length (takeWhile (\<lambda>k. k \<le> key x) (map key (P @ S))) = length P" by simp
  then show ?thesis
    using bisect_right_takeWhile [OF strict_sorted_imp_sorted [OF s], of "key x"] by (simp add: insort_by_def)
qed

lemma plug2_keys:
  assumes "sorted_wrt (<) (marks (leaf_seq (plug2 F l k r)))"
  shows "insort_by ikey (fslots F (pid l) []) (InternalSlot k (pid r)) = fslots F (pid l) [InternalSlot k (pid r)]"
proof -
  obtain p t0 kts where T: "plug2 F l k r = Nd p t0 kts" "child_slots kts = fslots F (pid l) [InternalSlot k (pid r)]"
    by (cases F) simp_all
  have "sorted_wrt (<) (map fst kts)"
    using assms by (intro sorted_row_keys) (simp add: T(1) sorted_wrt_append)
  moreover have "map fst kts = map ikey (child_slots kts)" by (auto simp: child_slots_def)
  ultimately have "sorted_wrt (<) (map ikey (fpre F (pid l) @ InternalSlot k (pid r) # fpost F))"
    by (simp add: T(2) fslots_parts)
  from insort_by_at [OF this] show ?thesis by (simp add: fslots_parts)
qed

text \<open>The neighbours of the hole: the frame seen as one with two children in its hole.\<close>

lemma left_view:
  obtains (none) "\<And>c. left_sibling_id (fleft F c) (fslots F c []) (findex F) = None"
  | (some) F' l k where "\<And>t. plug F t = plug2 F' l k t" "fpid F' = fpid F" "findex F = int (sepidx F')"
      "\<And>c. left_sibling_id (fleft F c) (fslots F c []) (findex F) = Some (pid l)"
proof (cases F)
  case (FL p B)
  then show thesis by (intro none) (simp add: left_sibling_id_def)
next
  case (FS p t0 A k B)
  show thesis
  proof (cases A rule: rev_cases)
    case Nil
    then show thesis by (intro some [of "FL p B" t0 k]) (simp_all add: FS left_sibling_id_def)
  next
    case (snoc A' kt)
    obtain k' l where kt: "kt = (k', l)" by (cases kt)
    show thesis
      by (rule some [of "FS p t0 A' k' B" l k])
        (simp_all add: FS snoc kt left_sibling_id_def nth_append nat_add_distrib)
  qed
qed

lemma right_view:
  obtains (none) "\<And>c. right_sibling_id (fslots F c []) (findex F) = None" "\<And>c. fslots F c [] = fpre F c"
  | (some) F' k r where "\<And>t. plug F t = plug2 F' t k r" "fpid F' = fpid F" "findex F + 1 = int (sepidx F')"
      "\<And>c. right_sibling_id (fslots F c []) (findex F) = Some (pid r)"
proof (cases F)
  case (FL p B)
  show thesis
  proof (cases B)
    case Nil
    then show thesis by (intro none) (simp_all add: FL right_sibling_id_def)
  next
    case (Cons kt B')
    obtain k r where kt: "kt = (k, r)" by (cases kt)
    show thesis by (rule some [of "FL p B'" k r]) (simp_all add: FL Cons kt right_sibling_id_def)
  qed
next
  case (FS p t0 A k0 B)
  show thesis
  proof (cases B)
    case Nil
    then show thesis by (intro none) (simp_all add: FS right_sibling_id_def)
  next
    case (Cons kt B')
    obtain k r where kt: "kt = (k, r)" by (cases kt)
    show thesis
      by (rule some [of "FS p t0 A k0 B'" k r])
        (simp_all add: FS Cons kt right_sibling_id_def nth_append nat_add_distrib)
  qed
qed

lemma only_child:
  assumes "\<And>c. left_sibling_id (fleft F c) (fslots F c []) (findex F) = None"
    and "\<And>c. right_sibling_id (fslots F c []) (findex F) = None"
  shows "fslots F c [] = []"
proof (cases F)
  case (FL p B)
  with assms(2) [of c] show ?thesis by (cases B) (auto simp: right_sibling_id_def)
next
  case (FS p t0 A k B)
  with assms(1) [of c] show ?thesis by (auto simp: left_sibling_id_def split: if_splits)
qed

text \<open>The pages of a tree, with the page of the frame and of its children in front.\<close>

lemma mset_focus:
  "mset (pages (plugs fs t)) = mset ((pid t, tnode t) # below t @ outer fs (pid t))"
  by (simp add: mset_pages_plugs pages_below [of t])

lemma mset_frame:
  "mset (pages (plugs fs (plug F t))) =
     mset ((fpid F, fnode F (pid t)) # (pid t, tnode t) # below t @ flank F @ outer fs (fpid F))"
  by (simp add: mset_pages_plugs mset_pages_plug pages_below [of t] ac_simps)

lemma mset_frame2:
  "mset (pages (plugs fs (plug2 F l k r))) =
     mset ((fpid F, fnode2 F (pid l) k (pid r)) # (pid l, tnode l) # (pid r, tnode r) #
       below l @ below r @ flank F @ outer fs (fpid F))"
  by (simp add: mset_pages_plugs mset_pages_plug pages_below [of l] pages_below [of r] ac_simps)

section \<open>The invariant of the rebalancing loop\<close>

lemma fine_simps [simp]:
  "fine ps R []" "fine ps R (xs @ ys) \<longleftrightarrow> fine ps R xs \<and> fine ps R ys"
  "fine ps R (x # xs) \<longleftrightarrow> page_good ps (snd x) \<and> (fst x \<noteq> R \<longrightarrow> \<not> is_page_underpopulated ps (snd x)) \<and> fine ps R xs"
  by (auto simp: fine_def)

lemma fine_perm: "mset xs = mset ys \<Longrightarrow> fine ps R xs \<longleftrightarrow> fine ps R ys"
  by (drule mset_eq_setD) (simp add: fine_def)

lemma fine_reroot: "fine ps R xs \<Longrightarrow> R \<notin> fst ` set xs \<Longrightarrow> fine ps R' xs"
  by (force simp: fine_def)

text \<open>The page ID of the root, given the frames and the page ID of the focus.\<close>

fun root_id :: "frame list \<Rightarrow> nat \<Rightarrow> nat" where
  "root_id [] p = p"
| "root_id (F # fs) p = root_id fs (fpid F)"

lemma pid_root_id: "pid (plugs fs t) = root_id fs (pid t)"
  by (induction fs arbitrary: t) simp_all

lemma root_id_in: "root_id fs p \<in> insert p (fst ` set (outer fs p))"
  by (induction fs arbitrary: p) force+

lemma distinct_perm: "mset xs = mset ys \<Longrightarrow> distinct (map fst xs) \<longleftrightarrow> distinct (map fst ys)"
  by (metis map_of_perm(2))

text \<open>
  The tree with the page in focus: every other page is in order, the page in focus may be too large
  by one slot or too small.
\<close>

definition focus_ok :: "nat \<Rightarrow> nat \<Rightarrow> frame list \<Rightarrow> btree \<Rightarrow> bool" where
  "focus_ok ps h fs t \<longleftrightarrow> depth_ok h t \<and> frames_depth h fs \<and>
     distinct (map fst (pages (plugs fs t))) \<and> seq_fine ps (leaf_seq (plugs fs t)) \<and>
     fine ps (root_id fs (pid t)) (below t @ outer fs (pid t)) \<and>
     calculate_page_size (tnode t) \<le> ps + overhang ps (tnode t) \<and>
     (fs = [] \<longrightarrow> is_InternalPage (tnode t) \<longrightarrow> islots (tnode t) \<noteq> [])"

definition tree_fine :: "nat \<Rightarrow> nat \<Rightarrow> btree \<Rightarrow> bool" where
  "tree_fine ps h T \<longleftrightarrow> tree_ok ps h T \<and> keys_short ps (leaf_seq T)"

lemma focus_frameD:
  assumes "focus_ok ps h (F # fs) t"
  shows "depth_ok h t" "frame_depth h F" "frames_depth (Suc h) fs" "page_good ps (fnode F (pid t))"
    "fine ps (root_id fs (fpid F)) (below t @ flank F @ outer fs (fpid F))"
    "distinct (map fst ((fpid F, fnode F (pid t)) # (pid t, tnode t) # below t @ flank F @ outer fs (fpid F)))"
    "seq_fine ps (lseqs fs @ (lseq F @ leaf_seq t @ rseq F) @ rseqs fs)"
  using assms distinct_perm [OF mset_frame, of fs F t] by (simp_all add: focus_ok_def leaf_seq_plugs)

lemma focus_plug2I:
  assumes "frame_depth h F" "frames_depth (Suc h) fs" "depth_ok h l" "depth_ok h r"
    and "32 + isum (fslots F (pid l) [InternalSlot k (pid r)]) \<le> ps + slot_cap ps + 4"
    and "page_fine ps (tnode l)" "page_fine ps (tnode r)" "fine ps (root_id fs (fpid F)) (below l @ below r @ flank F @ outer fs (fpid F))"
    and "distinct (map fst ((fpid F, fnode2 F (pid l) k (pid r)) # (pid l, tnode l) # (pid r, tnode r) #
      below l @ below r @ flank F @ outer fs (fpid F)))"
    and "seq_fine ps (lseqs fs @ (lseq F @ leaf_seq l @ Sep k # leaf_seq r @ rseq F) @ rseqs fs)"
  shows "focus_ok ps (Suc h) fs (plug2 F l k r)"
proof -
  let ?T = "plug2 F l k r"
  have "mset (below ?T) = mset ((pid l, tnode l) # (pid r, tnode r) # below l @ below r @ flank F)"
    using mset_pages_plug(2) [of F l k r] pages_below [of ?T] pages_below [of l] pages_below [of r] by (simp add: ac_simps)
  from fine_perm [OF this, of ps "root_id fs (fpid F)"] have "fine ps (root_id fs (fpid F)) (below ?T @ outer fs (fpid F))"
    using assms(6-8) by (simp add: page_fine_def)
  moreover have "distinct (map fst (pages (plugs fs ?T)))"
    using distinct_perm [OF mset_frame2, of fs F l k r] assms(9) by simp
  moreover have "fslots F (pid l) [InternalSlot k (pid r)] \<noteq> []" by (simp add: fslots_parts)
  ultimately show ?thesis using assms by (simp add: focus_ok_def leaf_seq_plugs fnode2_def)
qed

lemma seq_fine_reseq:
  assumes "seq_fine ps (A @ X @ B)" and "reseq ps X Y"
  shows "seq_fine ps (A @ Y @ B)" and "entries (A @ Y @ B) = entries (A @ X @ B)"
  using assms by (simp_all add: reseq_def)

lemma seq_fine_Sep: "seq_fine ps (A @ Sep k # B) \<Longrightarrow> 16 + length k \<le> slot_cap ps"
  by (auto simp: seq_fine_def seq_ok_def)

lemma focus_split:
  assumes foc: "focus_ok ps h (F # fs) t" and sp: "splits ps h t new l k r"
    and fresh: "new \<notin> fst ` set (pages (plugs (F # fs) t))"
  shows "focus_ok ps (Suc h) fs (plug2 F l k r)"
    and "entries (leaf_seq (plugs fs (plug2 F l k r))) = entries (leaf_seq (plugs (F # fs) t))"
proof -
  note f = focus_frameD [OF foc]
  have s: "pid l = pid t" "pid r = new" "depth_ok h l" "depth_ok h r" "mset (below l) + mset (below r) = mset (below t)"
    "page_fine ps (tnode l)" "page_fine ps (tnode r)" "reseq ps (leaf_seq t) (leaf_seq l @ Sep k # leaf_seq r)"
    using sp by (simp_all add: splits_def)
  let ?rest = "below l @ below r @ flank F @ outer fs (fpid F)"
  have perm: "mset ?rest = mset (below t @ flank F @ outer fs (fpid F))"
    using s(5) by (metis add.assoc mset_append)
  have seq: "seq_fine ps ((lseqs fs @ lseq F) @ leaf_seq t @ (rseq F @ rseqs fs))" using f(7) by simp
  note q = seq_fine_reseq [OF seq s(8)]
  have k: "16 + length k \<le> slot_cap ps"
    using q(1) seq_fine_Sep [of ps "lseqs fs @ lseq F @ leaf_seq l" k "leaf_seq r @ rseq F @ rseqs fs"] by simp
  have nw: "new \<notin> fst ` set ((fpid F, fnode F (pid t)) # (pid t, tnode t) # below t @ flank F @ outer fs (fpid F))"
    using fresh mset_eq_setD [OF mset_frame, of fs F t] by simp
  have fst_perm: "mset (map fst ?rest) = mset (map fst (below t @ flank F @ outer fs (fpid F)))"
    using perm by (metis mset_map)
  show "focus_ok ps (Suc h) fs (plug2 F l k r)"
  proof (rule focus_plug2I [OF f(2,3) s(3,4) _ s(6,7)])
    show "fine ps (root_id fs (fpid F)) ?rest" using fine_perm [OF perm, of ps "root_id fs (fpid F)"] f(5) by simp
    show "32 + isum (fslots F (pid l) [InternalSlot k (pid r)]) \<le> ps + slot_cap ps + 4"
      using f(4) k s(1) by (simp add: fnode_def page_good_internal fslots_parts)
    show "distinct (map fst ((fpid F, fnode2 F (pid l) k (pid r)) # (pid l, tnode l) # (pid r, tnode r) # ?rest))"
      using f(6) nw s(1,2) mset_eq_imp_distinct_iff [OF fst_perm] mset_eq_setD [OF fst_perm] by auto
    show "seq_fine ps (lseqs fs @ (lseq F @ leaf_seq l @ Sep k # leaf_seq r @ rseq F) @ rseqs fs)"
      using q(1) by simp
  qed
  show "entries (leaf_seq (plugs fs (plug2 F l k r))) = entries (leaf_seq (plugs (F # fs) t))"
    using s(8) by (simp add: leaf_seq_plugs reseq_def)
qed

lemma focus_split_root:
  assumes ps: "129 \<le> ps" and foc: "focus_ok ps h [] t" and sp: "splits ps h t new l k r"
    and fresh: "new \<notin> fst ` set (pages t)" "root \<notin> fst ` set (pages t)" "root \<noteq> new"
  shows "focus_ok ps (Suc h) [] (Nd root l [(k, r)])"
    and "entries (leaf_seq (Nd root l [(k, r)])) = entries (leaf_seq t)"
proof -
  have s: "pid l = pid t" "pid r = new" "depth_ok h l" "depth_ok h r" "mset (below l) + mset (below r) = mset (below t)"
    "page_fine ps (tnode l)" "page_fine ps (tnode r)" "reseq ps (leaf_seq t) (leaf_seq l @ Sep k # leaf_seq r)"
    using sp by (simp_all add: splits_def)
  have f: "distinct (map fst (pages t))" "seq_fine ps (leaf_seq t)" "fine ps (pid t) (below t)"
    using foc by (simp_all add: focus_ok_def)
  have perm: "mset (below l @ below r) = mset (below t)" using s(5) by simp
  then have fst_perm: "mset (map fst (below l @ below r)) = mset (map fst (below t))" by (metis mset_map)
  have d: "distinct (map fst (pages (Nd root l [(k, r)])))"
    using f(1) fresh s(1,2) mset_eq_imp_distinct_iff [OF fst_perm] mset_eq_setD [OF fst_perm]
    by (auto simp: pages_below [of l] pages_below [of r] pages_below [of t])
  have q: "seq_fine ps (leaf_seq l @ Sep k # leaf_seq r)" using seq_fine_reseq(1) [of ps "[]" "leaf_seq t" "[]"] f(2) s(8) by simp
  have "16 + length k \<le> slot_cap ps" using seq_fine_Sep [OF q] .
  moreover have "fine ps root (below t)" by (rule fine_reroot [OF f(3)]) (use f(1) in \<open>simp add: pages_below [of t]\<close>)
  then have "fine ps root (below l)" "fine ps root (below r)" using fine_perm [OF perm, of ps root] by simp_all
  ultimately show "focus_ok ps (Suc h) [] (Nd root l [(k, r)])"
    using s d q ps by (simp add: focus_ok_def pages_below [of l] pages_below [of r] page_fine_def)
  show "entries (leaf_seq (Nd root l [(k, r)])) = entries (leaf_seq t)" using s(8) by (simp add: reseq_def)
qed

text \<open>When the page in focus is in order, the tree is.\<close>

lemma focus_done:
  assumes ps: "129 \<le> ps" and foc: "focus_ok ps h fs t" and size: "calculate_page_size (tnode t) \<le> ps"
    and full: "fs \<noteq> [] \<Longrightarrow> \<not> is_page_underpopulated ps (tnode t)"
  shows "tree_fine ps (h + length fs) (plugs fs t)"
proof -
  have f: "depth_ok h t" "frames_depth h fs" "distinct (map fst (pages (plugs fs t)))" "seq_fine ps (leaf_seq (plugs fs t))"
    "fine ps (root_id fs (pid t)) (below t @ outer fs (pid t))" "fs = [] \<longrightarrow> is_InternalPage (tnode t) \<longrightarrow> islots (tnode t) \<noteq> []"
    using foc by (simp_all add: focus_ok_def)
  have ne: "is_InternalPage (tnode t) \<longrightarrow> islots (tnode t) \<noteq> []"
  proof (cases "fs = []")
    case True
    with f(6) show ?thesis by simp
  next
    case False
    with full ps show ?thesis by (cases t) (auto simp: underpop_internal)
  qed
  have "page_good ps (tnode t)" using size ne by (simp add: page_good_def pop_defs)
  then have "fine ps (root_id fs (pid t)) ((pid t, tnode t) # below t @ outer fs (pid t))" using f(5) full by (cases fs) simp_all
  then have "fine ps (pid (plugs fs t)) (pages (plugs fs t))" using fine_perm [OF mset_focus] by (simp add: pid_root_id)
  with f depth_ok_plugsI [OF f(1,2)] show ?thesis
    by (simp add: tree_fine_def tree_ok_def seq_fine_def)
qed

text \<open>What is known of two neighbours under the frame of the page in focus.\<close>

lemma pair_in_focus:
  assumes foc: "focus_ok ps h (F # fs) t" and view: "plug F t = plug2 F' l k r" "fpid F' = fpid F" and t: "t = l \<or> t = r"
  shows "frame_depth h F'" "frames_depth (Suc h) fs" "depth_ok h l" "depth_ok h r"
    "page_good ps (fnode2 F' (pid l) k (pid r))" "fine ps (root_id fs (fpid F)) (outer fs (fpid F))"
    "fine ps (root_id fs (fpid F)) (flank F')" "fine ps (root_id fs (fpid F)) (below l)" "fine ps (root_id fs (fpid F)) (below r)"
    "distinct (map fst ((fpid F, fnode2 F' (pid l) k (pid r)) # (pid l, tnode l) # (pid r, tnode r) #
      below l @ below r @ flank F' @ outer fs (fpid F)))"
    "seq_fine ps ((lseqs fs @ lseq F') @ (leaf_seq l @ Sep k # leaf_seq r) @ (rseq F' @ rseqs fs))"
    "t = l \<Longrightarrow> page_fine ps (tnode r)" "t = r \<Longrightarrow> page_fine ps (tnode l)"
proof -
  note f = focus_frameD [OF foc]
  have "depth_ok (Suc h) (plug F t)" using f(1,2) by simp
  then show "frame_depth h F'" "depth_ok h l" "depth_ok h r" by (simp_all add: view(1))
  show "frames_depth (Suc h) fs" by (rule f(3))
  have nd: "fnode F (pid t) = fnode2 F' (pid l) k (pid r)" using arg_cong [OF view(1), of tnode] by simp
  with f(4) show "page_good ps (fnode2 F' (pid l) k (pid r))" by simp
  have T: "plugs fs (plug F t) = plugs fs (plug2 F' l k r)" by (simp add: view(1))
  have perm: "mset ((fpid F, fnode F (pid t)) # (pid t, tnode t) # below t @ flank F @ outer fs (fpid F)) =
      mset ((fpid F, fnode2 F' (pid l) k (pid r)) # (pid l, tnode l) # (pid r, tnode r) #
        below l @ below r @ flank F' @ outer fs (fpid F))"
    using mset_frame [of fs F t] mset_frame2 [of fs F' l k r] T view(2) by metis
  show dist: "distinct (map fst ((fpid F, fnode2 F' (pid l) k (pid r)) # (pid l, tnode l) # (pid r, tnode r) #
      below l @ below r @ flank F' @ outer fs (fpid F)))"
    using f(6) distinct_perm [OF perm] by blast
  let ?R = "root_id fs (fpid F)" and ?rest = "below l @ below r @ flank F' @ outer fs (fpid F)"
  show "fine ps ?R (outer fs (fpid F))" using f(5) by simp
  have cut: "t = l \<Longrightarrow> mset (below t @ flank F @ outer fs (fpid F)) = mset ((pid r, tnode r) # ?rest)"
    "t = r \<Longrightarrow> mset (below t @ flank F @ outer fs (fpid F)) = mset ((pid l, tnode l) # ?rest)"
    using perm nd by auto
  have "fine ps ?R (below l @ below r @ flank F')"
    using t f(5) fine_perm [OF cut(1), of ps ?R] fine_perm [OF cut(2), of ps ?R] by auto
  then show "fine ps ?R (flank F')" "fine ps ?R (below l)" "fine ps ?R (below r)" by simp_all
  have "pid l \<notin> insert (fpid F) (fst ` set (outer fs (fpid F)))" "pid r \<notin> insert (fpid F) (fst ` set (outer fs (fpid F)))"
    using dist by (simp_all add: image_Un)
  then have "pid l \<noteq> ?R" "pid r \<noteq> ?R" using root_id_in [of fs "fpid F"] by metis+
  then show "t = l \<Longrightarrow> page_fine ps (tnode r)" "t = r \<Longrightarrow> page_fine ps (tnode l)"
    using f(5) fine_perm [OF cut(1), of ps ?R] fine_perm [OF cut(2), of ps ?R] by (auto simp: page_fine_def)
  have sq: "lseq F @ leaf_seq t @ rseq F = lseq F' @ leaf_seq l @ Sep k # leaf_seq r @ rseq F'"
    using arg_cong [OF view(1), of leaf_seq] by simp
  show "seq_fine ps ((lseqs fs @ lseq F') @ (leaf_seq l @ Sep k # leaf_seq r) @ (rseq F' @ rseqs fs))"
    using f(7) [unfolded sq] by simp
qed


lemma focus_regroup:
  assumes foc: "focus_ok ps h (F # fs) t" and view: "plug F t = plug2 F' l k r" "fpid F' = fpid F" and t: "t = l \<or> t = r"
    and rg: "regroups ps h l k r l' k' r'"
  shows "focus_ok ps (Suc h) fs (plug2 F' l' k' r')"
    and "entries (leaf_seq (plugs fs (plug2 F' l' k' r'))) = entries (leaf_seq (plugs (F # fs) t))"
    and "mset (pages (plugs fs (plug2 F' l' k' r'))) = mset ((fpid F, fnode2 F' (pid l) k' (pid r)) #
      (pid l, tnode l') # (pid r, tnode r') # below l @ below r @ flank F' @ outer fs (fpid F))"
proof -
  note f = pair_in_focus [OF foc view t]
  have g: "pid l' = pid l" "pid r' = pid r" "depth_ok h l'" "depth_ok h r'"
    "mset (below l') + mset (below r') = mset (below l) + mset (below r)" "page_fine ps (tnode l')" "page_fine ps (tnode r')"
    "reseq ps (leaf_seq l @ Sep k # leaf_seq r) (leaf_seq l' @ Sep k' # leaf_seq r')"
    using rg by (simp_all add: regroups_def)
  note q = seq_fine_reseq [OF f(11) g(8)]
  have k: "16 + length k' \<le> slot_cap ps"
    using q(1) seq_fine_Sep [of ps "lseqs fs @ lseq F' @ leaf_seq l'" k' "leaf_seq r' @ rseq F' @ rseqs fs"] by simp
  have perm: "mset (below l' @ below r' @ flank F' @ outer fs (fpid F)) = mset (below l @ below r @ flank F' @ outer fs (fpid F))"
    using g(5) by (metis add.assoc mset_append)
  have fst_perm: "mset (map fst (below l' @ below r' @ flank F' @ outer fs (fpid F))) =
      mset (map fst (below l @ below r @ flank F' @ outer fs (fpid F)))" using perm by (metis mset_map)
  have sz: "32 + isum (fslots F' (pid l) [InternalSlot k (pid r)]) \<le> ps" using f(5) by (simp add: fnode2_def page_good_internal)
  show "focus_ok ps (Suc h) fs (plug2 F' l' k' r')"
  proof (rule focus_plug2I [OF f(1,2) g(3,4) _ g(6,7)])
    show "32 + isum (fslots F' (pid l') [InternalSlot k' (pid r')]) \<le> ps + slot_cap ps + 4"
      using sz k g(1,2) by (simp add: fslots_parts)
    show "fine ps (root_id fs (fpid F')) (below l' @ below r' @ flank F' @ outer fs (fpid F'))"
      using fine_perm [OF perm, of ps "root_id fs (fpid F)"] f(6-9) view(2) by simp
    show "distinct (map fst ((fpid F', fnode2 F' (pid l') k' (pid r')) # (pid l', tnode l') # (pid r', tnode r') #
        below l' @ below r' @ flank F' @ outer fs (fpid F')))"
      using f(10) g(1,2) view(2) mset_eq_imp_distinct_iff [OF fst_perm] mset_eq_setD [OF fst_perm] by auto
    show "seq_fine ps (lseqs fs @ (lseq F' @ leaf_seq l' @ Sep k' # leaf_seq r' @ rseq F') @ rseqs fs)" using q(1) by simp
  qed
  have "leaf_seq (plugs (F # fs) t) = (lseqs fs @ lseq F') @ (leaf_seq l @ Sep k # leaf_seq r) @ (rseq F' @ rseqs fs)"
    using arg_cong [OF view(1), of leaf_seq] by (simp add: leaf_seq_plugs)
  with q(2) show "entries (leaf_seq (plugs fs (plug2 F' l' k' r'))) = entries (leaf_seq (plugs (F # fs) t))"
    by (simp add: leaf_seq_plugs)
  show "mset (pages (plugs fs (plug2 F' l' k' r'))) = mset ((fpid F, fnode2 F' (pid l) k' (pid r)) #
      (pid l, tnode l') # (pid r, tnode r') # below l @ below r @ flank F' @ outer fs (fpid F))"
    using mset_frame2 [of fs F' l' k' r'] perm g(1,2) view(2) by simp
qed

lemma focus_merge:
  assumes foc: "focus_ok ps h (F # fs) t" and view: "plug F t = plug2 F' l k r" "fpid F' = fpid F" and t: "t = l \<or> t = r"
    and mg: "merges ps h l k r m"
  shows "fs \<noteq> [] \<or> fslots F' (pid l) [] \<noteq> [] \<Longrightarrow> focus_ok ps (Suc h) fs (plug F' m)"
    and "entries (leaf_seq (plugs fs (plug F' m))) = entries (leaf_seq (plugs (F # fs) t))"
    and "mset (pages (plugs fs (plug F' m))) = mset ((fpid F, fnode F' (pid l)) #
      (pid l, tnode m) # below l @ below r @ flank F' @ outer fs (fpid F))"
    and "fs = [] \<Longrightarrow> fslots F' (pid l) [] = [] \<Longrightarrow> focus_ok ps h [] m \<and> page_fine ps (tnode m) \<and>
      entries (leaf_seq m) = entries (leaf_seq (plugs (F # fs) t)) \<and>
      mset (pages m) = mset ((pid l, tnode m) # below l @ below r @ flank F' @ outer fs (fpid F)) \<and> fleft F' (pid l) = pid m"
proof -
  note f = pair_in_focus [OF foc view t]
  have g: "pid m = pid l" "depth_ok h m" "mset (below m) = mset (below l) + mset (below r)" "page_fine ps (tnode m)"
    "reseq ps (leaf_seq l @ Sep k # leaf_seq r) (leaf_seq m)"
    using mg by (simp_all add: merges_def)
  note q = seq_fine_reseq [OF f(11) g(5)]
  have perm: "mset (below m @ flank F' @ outer fs (fpid F)) = mset (below l @ below r @ flank F' @ outer fs (fpid F))"
    using g(3) by (metis add.assoc mset_append)
  have sz: "32 + isum (fslots F' (pid l) [InternalSlot k (pid r)]) \<le> ps" using f(5) by (simp add: fnode2_def page_good_internal)
  show ms: "mset (pages (plugs fs (plug F' m))) = mset ((fpid F, fnode F' (pid l)) #
      (pid l, tnode m) # below l @ below r @ flank F' @ outer fs (fpid F))"
    using mset_frame [of fs F' m] perm g(1) view(2) by simp
  have fst_perm: "mset (map fst (pages (plugs fs (plug F' m)))) =
      mset (map fst ((fpid F, fnode F' (pid l)) # (pid l, tnode m) # below l @ below r @ flank F' @ outer fs (fpid F)))"
    using ms by (metis mset_map)
  have dist: "distinct (map fst (pages (plugs fs (plug F' m))))"
    using f(10) mset_eq_imp_distinct_iff [OF fst_perm] by simp
  have seq: "leaf_seq (plugs (F # fs) t) = (lseqs fs @ lseq F') @ (leaf_seq l @ Sep k # leaf_seq r) @ (rseq F' @ rseqs fs)"
    using arg_cong [OF view(1), of leaf_seq] by (simp add: leaf_seq_plugs)
  show ent: "entries (leaf_seq (plugs fs (plug F' m))) = entries (leaf_seq (plugs (F # fs) t))"
    using q(2) seq by (simp add: leaf_seq_plugs)
  have bel: "mset (below (plug F' m)) = mset ((pid m, tnode m) # below m @ flank F')"
    using mset_pages_plug(1) [of F' m] pages_below [of "plug F' m"] pages_below [of m] by (simp add: ac_simps)
  let ?R = "root_id fs (fpid F)"
  have fm: "fine ps ?R (below m)" using fine_perm [of "below m" "below l @ below r" ps ?R] g(3) f(8,9) by simp
  have fb: "fine ps ?R (below (plug F' m) @ outer fs (fpid F'))"
    using fine_perm [OF bel, of ps ?R] f(6-9) g(4) fm view(2) by (simp add: page_fine_def)
  show "focus_ok ps (Suc h) fs (plug F' m)" if "fs \<noteq> [] \<or> fslots F' (pid l) [] \<noteq> []"
    using that f(1,2) g(1,2) dist q(1) fb sz view(2) by (auto simp: focus_ok_def leaf_seq_plugs fnode_def fslots_parts)
  show "focus_ok ps h [] m \<and> page_fine ps (tnode m) \<and> entries (leaf_seq m) = entries (leaf_seq (plugs (F # fs) t)) \<and>
      mset (pages m) = mset ((pid l, tnode m) # below l @ below r @ flank F' @ outer fs (fpid F)) \<and> fleft F' (pid l) = pid m"
    if fs: "fs = []" and sl: "fslots F' (pid l) [] = []"
  proof -
    have F': "F' = FL (fpid F) []" using sl view(2) by (cases F') auto
    have pm: "mset (pages m) = mset ((pid l, tnode m) # below l @ below r @ flank F' @ outer fs (fpid F))"
      using g(1,3) fs F' by (simp add: pages_below [of m])
    have d: "distinct (map fst (pages m))" using dist fs F' by simp
    have sq: "seq_fine ps (leaf_seq m)" using q(1) fs F' by simp
    have e: "entries (leaf_seq m) = entries (leaf_seq (plugs (F # fs) t))" using ent fs F' by simp
    have "calculate_page_size (tnode m) \<le> ps" "is_InternalPage (tnode m) \<longrightarrow> islots (tnode m) \<noteq> []"
      using g(4) by (auto simp: page_fine_def page_good_def pop_defs)
    moreover have "fine ps (pid m) (below m)" by (rule fine_reroot [OF fm]) (use dist fs F' in \<open>simp add: pages_below [of m]\<close>)
    ultimately show ?thesis using g(1,2,4) d sq e pm F' by (simp add: focus_ok_def)
  qed
qed

end
