(* ===== verification/TreeBalance.thy ===== *)
theory TreeBalance
  imports TreeFocus
begin

text \<open>
  The rebalancing loop over the pool. Each operation of \<^verbatim>\<open>tree.py\<close> that restructures pages (\<^verbatim>\<open>_split_page\<close>,
  \<^verbatim>\<open>_try_redistribute_slots\<close>, the merge of \<^verbatim>\<open>_redistribute_or_merge_page\<close>) is shown to carry out, on the pages
  the pool holds, the move on abstract trees that \<open>TreeFocus\<close> proves harmless; \<open>balance_loop_ok\<close> then
  follows the cascade from a leaf to the root.
\<close>

section \<open>Splitting a page\<close>

text \<open>
  One step of the cascade ends with the parent in focus: the returned page is the root of \<open>t\<close>, in the
  pool, and at most this page is modified and not yet marked dirty.
\<close>

definition continues ::
  "store_env \<Rightarrow> nat \<Rightarrow> nat \<Rightarrow> frame list \<Rightarrow> leaf_slot list \<Rightarrow> nat \<Rightarrow> (nat \<times> node) result \<times> 'z tree_scheme \<Rightarrow> bool" where
  "continues E ps h fs es n out \<longleftrightarrow> (\<exists>t y H U s'. out = (Inr (pid t, y), s') \<and> strip y = tnode t \<and>
     focus_ok ps h fs t \<and> entries (leaf_seq (plugs fs t)) = es \<and>
     pool_state E (map_of (pages (plugs fs t))) {} H U n (pid (plugs fs t)) s' \<and> pid t \<in> H \<and> U \<subseteq> {pid t})"

lemma continuesI:
  assumes "out = (Inr (pid t, y), s')" "strip y = tnode t" "focus_ok ps h fs t" "entries (leaf_seq (plugs fs t)) = es"
    "pool_state E (map_of (pages (plugs fs t))) {} H U n (pid (plugs fs t)) s'" "pid t \<in> H" "U \<subseteq> {pid t}"
  shows "continues E ps h fs es n out"
  using assms unfolding continues_def by blast

lemma continuesE:
  assumes "continues E ps h fs es n out"
  obtains t y H U s' where "out = (Inr (pid t, y), s')" "strip y = tnode t" "focus_ok ps h fs t"
    "entries (leaf_seq (plugs fs t)) = es"
    "pool_state E (map_of (pages (plugs fs t))) {} H U n (pid (plugs fs t)) s'" "pid t \<in> H" "U \<subseteq> {pid t}"
  using assms unfolding continues_def by blast

lemma pid_plugs: "pid (plugs fs t) = (if fs = [] then pid t else fpid (last fs))"
  by (induction fs arbitrary: t) simp_all

lemma seq_fine_capped: "seq_fine ps (A @ X @ B) \<Longrightarrow> capped ps X \<and> keys_short ps X"
  by (auto simp: seq_fine_def seq_ok_def capped_def keys_short_def)

lemma focus_sorted: "focus_ok ps h fs t \<Longrightarrow> sorted_wrt (<) (marks (leaf_seq t))"
  by (simp add: focus_ok_def seq_fine_def seq_ok_def leaf_seq_plugs sorted_wrt_append)

text \<open>The first part of a split: the two halves are in place, the parent does not know of the new one yet.\<close>

lemma split_halves:
  fixes s :: "'z tree_scheme"
  assumes ps: "129 \<le> ps" "env_page_size E = ps" and foc: "focus_ok ps h fs t"
    and st: "pool_state E V {} H U (n + 2) root s" and V: "V = map_of (pages (plugs fs t))"
    and t: "pid t \<in> H" "U \<subseteq> {pid t}" and y: "strip y = tnode t" and over: "ps < calculate_page_size y"
  obtains new l k r s' where "split_page (pid t) parent y op_lsn s = attach_sibling (pid t) parent k new op_lsn s'"
    "splits ps h t new l k r" "new \<notin> fst ` set (pages (plugs fs t))"
    "pool_state E (V(pid t \<mapsto> tnode l, new \<mapsto> tnode r)) {} (insert new H) {} n root s'"
proof -
  have d: "depth_ok h t" and sq: "seq_fine ps (lseqs fs @ leaf_seq t @ rseqs fs)"
    using foc by (simp_all add: focus_ok_def leaf_seq_plugs)
  have sz: "calculate_page_size y \<le> ps + overhang ps y"
    using foc y by (cases y) (auto simp: focus_ok_def dest: sym)
  have cap: "capped ps (leaf_seq t)" "keys_short ps (leaf_seq t)" using seq_fine_capped [OF sq] by simp_all
  from pool.alloc_law [OF st] obtain new s1 where
    s1: "allocate_page s = (Inr new, s1)" "new \<notin> dom V" "pool_state E V {new} H U (n + 2) root s1" by auto
  obtain l k r y1 y2 where sp: "split_node (choose_split_point ps y (cumulative 0 (slot_sizes y))) y new op_lsn = Inr (y1, y2, k)"
    "strip y1 = tnode l" "strip y2 = tnode r" "splits ps h t new l k r" "cumulative 0 (slot_sizes y) \<noteq> []"
    by (rule split_tree [OF ps(1) d y cap over sz refl])
  from pool.mutate_law [OF s1(3) t(1), of y1] sp(2) obtain s2 where
    s2: "mutate_page (pid t) y1 s1 = (Inr (), s2)"
      "pool_state E (V(pid t \<mapsto> tnode l)) {new} H (insert (pid t) U) (n + 2) root s2" by auto
  let ?g = "if is_LeafPage y then (\<lambda>st. st\<lparr>leaf_splits := leaf_splits st + 1\<rparr>) else (\<lambda>st. st\<lparr>internal_splits := internal_splits st + 1\<rparr>)"
  let ?s2 = "s2\<lparr>tr_stats := ?g (tr_stats s2)\<rparr>"
  have st2: "pool_state E (V(pid t \<mapsto> tnode l)) {new} H (insert (pid t) U) (Suc (Suc n)) root ?s2" using s2(2) by simp
  have U0: "insert (pid t) U - {pid t} = {}" using t(2) by auto
  from pool.mark_law [OF st2 t(1), of op_lsn] U0 obtain s3 where
    s3: "pool_mark_dirty (pid t) op_lsn ?s2 = (Inr (), s3)"
      "pool_state E (V(pid t \<mapsto> tnode l)) {new} H {} (Suc n) root s3" by auto
  from pool.install_law [OF s3(2), of new y2 op_lsn] sp(3) obtain s4 where
    s4: "pool_insert new y2 op_lsn s3 = (Inr (), s4)"
      "pool_state E (V(pid t \<mapsto> tnode l, new \<mapsto> tnode r)) {} (insert new H) {} n root s4" by auto
  have "split_page (pid t) parent y op_lsn s = attach_sibling (pid t) parent k new op_lsn s4"
    using sp(5) tree_meta(2) [OF st]
    by (simp add: split_page_def bind_op_def ps(2) Let_def s1(1) sp(1) s2(1) s3(1) s4(1) tr_bump_stat_def)
  moreover have "new \<notin> fst ` set (pages (plugs fs t))" using s1(2) by (simp add: V dom_map_of_conv_image_fst)
  ultimately show thesis using sp(4) s4(2) that by blast
qed

lemma split_page_ok:
  fixes s :: "'z tree_scheme"
  assumes ps: "129 \<le> ps" "env_page_size E = ps" and foc: "focus_ok ps h (F # fs) t"
    and st: "pool_state E (map_of (pages (plugs (F # fs) t))) {} H U (n + 3) root s"
    and root: "root = pid (plugs (F # fs) t)" and t: "pid t \<in> H" "U \<subseteq> {pid t}" and y: "strip y = tnode t"
    and over: "ps < calculate_page_size y"
  shows "continues E ps (Suc h) fs (entries (leaf_seq (plugs (F # fs) t))) n (split_page (pid t) (Some (fpid F)) y op_lsn s)"
proof -
  note f = focus_frameD [OF foc]
  let ?rest = "below t @ flank F @ outer fs (fpid F)" and ?V = "map_of (pages (plugs (F # fs) t))"
  have V: "?V = map_of ((fpid F, fnode F (pid t)) # (pid t, tnode t) # ?rest)"
    using map_of_perm(1) [OF _ mset_frame] foc by (simp add: focus_ok_def)
  have st': "pool_state E ?V {} H U (Suc n + 2) root s" using st by (simp add: numeral_3_eq_3)
  obtain new l k r s4 where sp: "split_page (pid t) (Some (fpid F)) y op_lsn s = attach_sibling (pid t) (Some (fpid F)) k new op_lsn s4"
    "splits ps h t new l k r" "new \<notin> fst ` set (pages (plugs (F # fs) t))"
    "pool_state E (?V(pid t \<mapsto> tnode l, new \<mapsto> tnode r)) {} (insert new H) {} (Suc n) root s4"
    by (rule split_halves [OF ps foc st' refl t y over])
  have pl: "pid l = pid t" "pid r = new" "mset (below l) + mset (below r) = mset (below t)"
    using sp(2) by (simp_all add: splits_def)
  note fs' = focus_split [OF foc sp(2,3)]
  have ids: "fpid F \<noteq> pid t" "new \<noteq> fpid F" "new \<noteq> pid t" "fpid F \<notin> fst ` set ?rest" "pid t \<notin> fst ` set ?rest" "new \<notin> fst ` set ?rest"
    using f(6) sp(3) mset_eq_setD [OF mset_frame, of fs F t] by auto
  have Vp: "(?V(pid t \<mapsto> tnode l, new \<mapsto> tnode r)) (fpid F) = Some (fnode F (pid t))"
    unfolding V using ids by simp
  from pool.fetch_law [OF sp(4) Vp] obtain yp s5 where
    s5: "pool_get (fpid F) s4 = (Inr yp, s5)" "strip yp = fnode F (pid t)"
      "pool_state E (?V(pid t \<mapsto> tnode l, new \<mapsto> tnode r)) {} (insert (fpid F) (insert new H)) {} n root s5"
    by blast
  then obtain a where yp: "yp = InternalPage a (fleft F (pid t)) (fslots F (pid t) [])"
    using strip_internal [of yp] by (auto simp: fnode_def)
  let ?yp = "InternalPage a (fleft F (pid t)) (fslots F (pid t) [InternalSlot k new])"
  have ins: "insort_by ikey (fslots F (pid t) []) (InternalSlot k new) = fslots F (pid t) [InternalSlot k new]"
    using plug2_keys [OF focus_sorted [OF fs'(1)]] pl by simp
  from pool.mutate_law [OF s5(3), of "fpid F" ?yp] obtain s6 where
    s6: "mutate_page (fpid F) ?yp s5 = (Inr (), s6)"
      "pool_state E (?V(pid t \<mapsto> tnode l, new \<mapsto> tnode r, fpid F \<mapsto> strip ?yp)) {}
        (insert (fpid F) (insert new H)) {fpid F} n root s6" by auto
  have "?V(pid t \<mapsto> tnode l, new \<mapsto> tnode r, fpid F \<mapsto> strip ?yp) =
      map_of ((fpid F, fnode2 F (pid l) k (pid r)) # (pid l, tnode l) # (pid r, tnode r) # ?rest)"
    unfolding V using ids pl by (auto simp: fun_eq_iff fnode2_def)
  also have "\<dots> = map_of (pages (plugs fs (plug2 F l k r)))"
    using fs'(1) mset_frame2 [of fs F l k r] pl(3)
    by (intro map_of_perm(1) [symmetric]) (simp add: focus_ok_def, metis (no_types, lifting) add.assoc mset.simps(2) mset_append)
  finally have V': "?V(pid t \<mapsto> tnode l, new \<mapsto> tnode r, fpid F \<mapsto> strip ?yp) = map_of (pages (plugs fs (plug2 F l k r)))" .
  have run: "split_page (pid t) (Some (fpid F)) y op_lsn s = (Inr (fpid F, ?yp), s6)"
    by (simp add: sp(1) attach_sibling_def bind_op_def Let_def s5(1) yp ins s6(1))
  have rt: "pid (plugs fs (plug2 F l k r)) = root" by (simp add: root pid_plugs)
  show ?thesis
    by (rule continuesI [where t = "plug2 F l k r" and y = ?yp and s' = s6, OF _ _ _ _ s6(2) [unfolded V' rt [symmetric]]])
      (use run fs' pl in \<open>simp_all add: fnode2_def\<close>)
qed

lemma split_root_ok:
  fixes s :: "'z tree_scheme"
  assumes ps: "129 \<le> ps" "env_page_size E = ps" and foc: "focus_ok ps h [] t"
    and st: "pool_state E (map_of (pages t)) {} H U (n + 3) (pid t) s"
    and t: "pid t \<in> H" "U \<subseteq> {pid t}" and y: "strip y = tnode t"
    and over: "ps < calculate_page_size y"
  obtains T y' H' s' where "split_page (pid t) None y op_lsn s = (Inr (pid T, y'), s')" "strip y' = tnode T"
    "focus_ok ps (Suc h) [] T" "entries (leaf_seq T) = entries (leaf_seq t)"
    "pool_state E (map_of (pages T)) {} H' {} n (pid T) s'" "pid T \<in> H'" "calculate_page_size y' \<le> ps"
proof -
  have st': "pool_state E (map_of (pages t)) {} H U (Suc n + 2) (pid t) s" using st by (simp add: numeral_3_eq_3)
  obtain new l k r s4 where sp: "split_page (pid t) None y op_lsn s = attach_sibling (pid t) None k new op_lsn s4"
    "splits ps h t new l k r" "new \<notin> fst ` set (pages (plugs [] t))"
    "pool_state E ((map_of (pages t))(pid t \<mapsto> tnode l, new \<mapsto> tnode r)) {} (insert new H) {} (Suc n) (pid t) s4"
    by (rule split_halves [OF ps foc st' _ t y over]) simp_all
  have pl: "pid l = pid t" "pid r = new" "mset (below l) + mset (below r) = mset (below t)"
    using sp(2) by (simp_all add: splits_def)
  let ?V = "(map_of (pages t))(pid t \<mapsto> tnode l, new \<mapsto> tnode r)"
  from pool.alloc_law [OF sp(4)] obtain root s5 where
    s5: "allocate_page s4 = (Inr root, s5)" "root \<notin> dom ?V" "pool_state E ?V {root} (insert new H) {} (Suc n) (pid t) s5" by auto
  let ?yr = "InternalPage op_lsn (pid t) [InternalSlot k new]"
  from pool.install_law [OF s5(3), of root ?yr op_lsn] obtain s6 where
    s6: "pool_insert root ?yr op_lsn s5 = (Inr (), s6)"
      "pool_state E (?V(root \<mapsto> strip ?yr)) {} (insert root (insert new H)) {} n (pid t) s6" by auto
  from pool.root_law [OF s6(2), of root] obtain s7 where
    s7: "update_meta (root_page_id_update (\<lambda>_. root)) s6 = (Inr (), s7)"
      "pool_state E (?V(root \<mapsto> strip ?yr)) {} (insert root (insert new H)) {} n root s7" by auto
  have ids: "root \<noteq> new" "root \<notin> fst ` set (pages t)" "root \<noteq> pid t" "new \<noteq> pid t" "pid t \<notin> fst ` set (below t)"
      "new \<notin> fst ` set (below t)" "root \<notin> fst ` set (below t)" "new \<notin> fst ` set (pages t)"
    using s5(2) sp(3) foc by (auto simp: dom_map_of_conv_image_fst pages_below [of t] focus_ok_def)
  note fs' = focus_split_root [OF ps(1) foc sp(2) ids(8,2,1)]
  have "?V(root \<mapsto> strip ?yr) = map_of ((root, strip ?yr) # (pid l, tnode l) # (pid r, tnode r) # below t)"
    using ids pl by (auto simp: fun_eq_iff pages_below [of t])
  also have "\<dots> = map_of (pages (Nd root l [(k, r)]))"
    using fs'(1) pl by (intro map_of_perm(1) [symmetric])
      (simp add: focus_ok_def, simp add: pages_below [of l] pages_below [of r] ac_simps)
  finally have V': "?V(root \<mapsto> strip ?yr) = map_of (pages (plugs [] (Nd root l [(k, r)])))" by simp
  have run: "split_page (pid t) None y op_lsn s = (Inr (root, ?yr), s7)"
    by (simp add: sp(1) attach_sibling_def bind_op_def Let_def s5(1) s6(1) s7(1))
  have "pool_state E (map_of (pages (Nd root l [(k, r)]))) {} (insert root (insert new H)) {} n (pid (Nd root l [(k, r)])) s7"
    using s7(2) unfolding V' by simp
  moreover have "16 + length k \<le> slot_cap ps"
    using fs'(1) seq_fine_Sep [of ps "leaf_seq l" k "leaf_seq r"] by (simp add: focus_ok_def)
  then have "calculate_page_size ?yr \<le> ps" using slot_cap_bounds [OF ps(1)] by simp
  ultimately show thesis using that [of "Nd root l [(k, r)]" ?yr s7 "insert root (insert new H)"] run fs' pl by simp
qed

section \<open>Redistribution\<close>

text \<open>The cascade is over: the store holds a well-formed tree with the entries \<open>es\<close>, everything marked dirty.\<close>

definition rebalanced ::
  "store_env \<Rightarrow> nat \<Rightarrow> leaf_slot list \<Rightarrow> unit result \<times> 'z tree_scheme \<Rightarrow> bool" where
  "rebalanced E ps es out \<longleftrightarrow> (\<exists>T h H s'. out = (Inr (), s') \<and> tree_fine ps h T \<and> entries (leaf_seq T) = es \<and>
     pool_state E (map_of (pages T)) {} H {} 0 (pid T) s')"

text \<open>The outcome of \<^verbatim>\<open>_redistribute_or_merge_page\<close>: the parent to go on with, or none and the cascade is over.\<close>

definition stepped ::
  "store_env \<Rightarrow> nat \<Rightarrow> nat \<Rightarrow> frame list \<Rightarrow> leaf_slot list \<Rightarrow> nat \<Rightarrow> (nat \<times> node) option result \<times> 'z tree_scheme \<Rightarrow> bool" where
  "stepped E ps h fs es n out \<longleftrightarrow>
     (\<exists>p y s'. out = (Inr (Some (p, y)), s') \<and> continues E ps h fs es n (Inr (p, y), s')) \<or>
     (\<exists>s'. out = (Inr None, s') \<and> rebalanced E ps es (Inr (), s'))"

lemma rebalancedI:
  assumes "tree_fine ps h T" "entries (leaf_seq T) = es" "pool_state E (map_of (pages T)) {} H {} n (pid T) s'"
  shows "rebalanced E ps es (Inr (), s')"
  using assms pool.weaken [OF assms(3), of H 0] pool.facts [OF assms(3)] unfolding rebalanced_def by blast

text \<open>
  A pair of neighbours of which one is in focus, fetched from the pool: the nodes \<open>yl\<close>, \<open>yr\<close> and \<open>yp\<close> are
  the two and their parent.
\<close>

definition fetched_pair ::
  "nat \<Rightarrow> nat \<Rightarrow> frame \<Rightarrow> frame list \<Rightarrow> btree \<Rightarrow> frame \<Rightarrow> btree \<Rightarrow> bytes \<Rightarrow> btree \<Rightarrow> node \<Rightarrow> node \<Rightarrow> node \<Rightarrow> nat set \<Rightarrow> nat set \<Rightarrow> bool" where
  "fetched_pair ps h F fs t F' l k r yl yr yp H U \<longleftrightarrow> 129 \<le> ps \<and> focus_ok ps h (F # fs) t \<and>
     plug F t = plug2 F' l k r \<and> fpid F' = fpid F \<and> (t = l \<or> t = r) \<and>
     strip yl = tnode l \<and> strip yr = tnode r \<and> strip yp = fnode2 F' (pid l) k (pid r) \<and>
     is_page_underpopulated ps (tnode t) \<and> {fpid F, pid l, pid r} \<subseteq> H \<and> U \<subseteq> {pid t}"

lemma pair_pages:
  assumes "fetched_pair ps h F fs t F' l k r yl yr yp H U"
  shows "map_of (pages (plugs (F # fs) t)) = map_of ((fpid F, fnode2 F' (pid l) k (pid r)) # (pid l, tnode l) # (pid r, tnode r) #
      below l @ below r @ flank F' @ outer fs (fpid F))"
    and "pid l \<noteq> pid r" "fpid F \<noteq> pid l" "fpid F \<noteq> pid r"
    "{fpid F, pid l, pid r} \<inter> fst ` set (below l @ below r @ flank F' @ outer fs (fpid F)) = {}"
proof -
  have a: "focus_ok ps h (F # fs) t" "plug F t = plug2 F' l k r" "fpid F' = fpid F" "t = l \<or> t = r"
    using assms by (simp_all add: fetched_pair_def)
  note d = pair_in_focus(10) [OF a]
  have "mset (pages (plugs (F # fs) t)) = mset ((fpid F, fnode2 F' (pid l) k (pid r)) # (pid l, tnode l) # (pid r, tnode r) #
      below l @ below r @ flank F' @ outer fs (fpid F))"
    using mset_frame2 [of fs F' l k r] a(2,3) by simp
  from map_of_perm(1) [OF _ this] a(1)
  show "map_of (pages (plugs (F # fs) t)) = map_of ((fpid F, fnode2 F' (pid l) k (pid r)) # (pid l, tnode l) # (pid r, tnode r) #
      below l @ below r @ flank F' @ outer fs (fpid F))" by (simp add: focus_ok_def)
  show "pid l \<noteq> pid r" "fpid F \<noteq> pid l" "fpid F \<noteq> pid r"
    "{fpid F, pid l, pid r} \<inter> fst ` set (below l @ below r @ flank F' @ outer fs (fpid F)) = {}"
    using d by auto
qed

lemma pair_transferred:
  assumes pair: "fetched_pair ps h F fs t F' l k r yl yr yp H U" and left: "left \<longleftrightarrow> t = r" and tl: "l \<noteq> r"
    and yp: "yp = parent_with a (fleft F' (pid l)) (fpre F' (pid l)) (pid r) (fpost F') k"
  shows "transferred ps h left l k r yl yr (parent_with a (fleft F' (pid l)) (fpre F' (pid l)) (pid r) (fpost F')) (int (sepidx F')) bk
    (redistribute_loop ps left (sepidx F') bk (if left then yl else yr) (if left then yr else yl) yp)"
proof -
  have a: "129 \<le> ps" "focus_ok ps h (F # fs) t" "plug F t = plug2 F' l k r" "fpid F' = fpid F" "t = l \<or> t = r"
    "strip yl = tnode l" "strip yr = tnode r" "is_page_underpopulated ps (tnode t)"
    using pair by (simp_all add: fetched_pair_def)
  note f = pair_in_focus [OF a(2-5)]
  note sq = seq_fine_capped [OF f(11)]
  have und: "is_page_underpopulated ps y = is_page_underpopulated ps (tnode x)" if "strip y = tnode x" for y x
    using strip_size [of y] that by (simp add: is_page_underpopulated_def)
  have "transferred ps h left l k r yl yr (parent_with a (fleft F' (pid l)) (fpre F' (pid l)) (pid r) (fpost F')) (int (sepidx F')) bk
    (redistribute_loop ps left (length (fpre F' (pid l))) bk (if left then yl else yr) (if left then yr else yl)
      (parent_with a (fleft F' (pid l)) (fpre F' (pid l)) (pid r) (fpost F') k))"
    by (rule tree_transferred [OF a(1) f(3,4) a(6,7) _ _ refl])
      (use sq left a tl f(12,13) und [OF a(6)] und [OF a(7)] in auto)
  then show ?thesis by (simp add: yp)
qed

text \<open>Writing back the three pages of a transfer.\<close>

lemma save_pair:
  fixes s :: "'z tree_scheme"
  assumes pair: "fetched_pair ps h F fs t F' l k r yl yr yp H U"
    and st: "pool_state E (map_of (pages (plugs (F # fs) t))) {} H U (n + 2) (pid (plugs (F # fs) t)) s"
    and y': "strip yl' = tnode l'" "strip yr' = tnode r'" "strip yp' = fnode2 F' (pid l) k' (pid r)"
    and rg: "regroups ps h l k r l' k' r'"
    and d: "d = (if left then pid l else pid r)" "e = (if left then pid r else pid l)" and e: "e = pid t"
  obtains s1 s2 s3 s4 s5 where "mutate_page d (if left then yl' else yr') s = (Inr (), s1)"
    "mutate_page e (if left then yr' else yl') s1 = (Inr (), s2)" "mutate_page (fpid F) yp' s2 = (Inr (), s3)"
    "pool_mark_dirty e op_lsn s3 = (Inr (), s4)" "pool_mark_dirty d op_lsn s4 = (Inr (), s5)"
    "pool_state E (map_of (pages (plugs fs (plug2 F' l' k' r')))) {} H {fpid F} n (pid (plugs fs (plug2 F' l' k' r'))) s5"
proof -
  let ?V = "map_of (pages (plugs (F # fs) t))" and ?root = "pid (plugs (F # fs) t)"
  have a: "focus_ok ps h (F # fs) t" "plug F t = plug2 F' l k r" "fpid F' = fpid F" "t = l \<or> t = r"
    "{fpid F, pid l, pid r} \<subseteq> H" "U \<subseteq> {pid t}" using pair by (simp_all add: fetched_pair_def)
  note pg = pair_pages [OF pair]
  have mem: "d \<in> H" "e \<in> H" "fpid F \<in> H" "d \<noteq> e" "fpid F \<noteq> d" "fpid F \<noteq> e" using a(5) d pg(2-4) by auto
  let ?yd = "if left then yl' else yr'" and ?ye = "if left then yr' else yl'"
  from pool.mutate_law [OF st mem(1), of ?yd] obtain s1 where s1: "mutate_page d ?yd s = (Inr (), s1)"
    "pool_state E (?V(d \<mapsto> strip ?yd)) {} H (insert d U) (n + 2) ?root s1" by blast
  from pool.mutate_law [OF s1(2) mem(2), of ?ye] obtain s2 where s2: "mutate_page e ?ye s1 = (Inr (), s2)"
    "pool_state E (?V(d \<mapsto> strip ?yd, e \<mapsto> strip ?ye)) {} H (insert e (insert d U)) (n + 2) ?root s2" by blast
  from pool.mutate_law [OF s2(2) mem(3), of yp'] obtain s3 where s3: "mutate_page (fpid F) yp' s2 = (Inr (), s3)"
    "pool_state E (?V(d \<mapsto> strip ?yd, e \<mapsto> strip ?ye, fpid F \<mapsto> strip yp')) {} H (insert (fpid F) (insert e (insert d U))) (Suc (Suc n)) ?root s3"
    by auto
  let ?V' = "?V(d \<mapsto> strip ?yd, e \<mapsto> strip ?ye, fpid F \<mapsto> strip yp')"
  from pool.mark_law [OF s3(2) mem(2), of op_lsn] obtain s4 where s4: "pool_mark_dirty e op_lsn s3 = (Inr (), s4)"
    "pool_state E ?V' {} H (insert (fpid F) (insert e (insert d U)) - {e}) (Suc n) ?root s4" by blast
  from pool.mark_law [OF s4(2) mem(1), of op_lsn] obtain s5 where s5: "pool_mark_dirty d op_lsn s4 = (Inr (), s5)"
    "pool_state E ?V' {} H (insert (fpid F) (insert e (insert d U)) - {e} - {d}) n ?root s5" by blast
  have U': "insert (fpid F) (insert e (insert d U)) - {e} - {d} = {fpid F}" using a(6) e mem by auto
  let ?rest = "below l @ below r @ flank F' @ outer fs (fpid F)"
  note fr = focus_regroup [OF a(1-4) rg]
  have rt: "?root = pid (plugs fs (plug2 F' l' k' r'))" using a(3) by (simp add: pid_plugs)
  have "?V' = map_of ((fpid F, fnode2 F' (pid l) k' (pid r)) # (pid l, tnode l') # (pid r, tnode r') # ?rest)"
    unfolding pg(1) using pg(2-5) y' d by (auto simp: fun_eq_iff)
  also have "\<dots> = map_of (pages (plugs fs (plug2 F' l' k' r')))"
    using fr(1) by (intro map_of_perm(1) [OF _ fr(3), symmetric]) (simp add: focus_ok_def)
  finally have "pool_state E (map_of (pages (plugs fs (plug2 F' l' k' r')))) {} H {fpid F} n (pid (plugs fs (plug2 F' l' k' r'))) s5"
    using s5(2) rt unfolding U' by metis
  with s1(1) s2(1) s3(1) s4(1) s5(1) that show thesis by blast
qed

lemma redistribute_one:
  fixes s :: "'z tree_scheme"
  assumes E: "env_page_size E = ps" and pair: "fetched_pair ps h F fs t F' l k r yl yr yp H U" and left: "left \<longleftrightarrow> t = r"
    and st: "pool_state E (map_of (pages (plugs (F # fs) t))) {} H U (n + 3) (pid (plugs (F # fs) t)) s"
    and i: "(if left then i else i + 1) = int (sepidx F')"
    and sib: "sid = (if left then pid l else pid r)" "sib = (if left then yl else yr)" "y = (if left then yr else yl)"
  shows "(\<exists>res s'. redistribute_from ((left, Some (sid, sib)) # sibs) (pid t) y (fpid F) yp i op_lsn s = (Inr (Some res), s') \<and>
      stepped E ps (Suc h) fs (entries (leaf_seq (plugs (F # fs) t))) n (Inr res, s')) \<or>
    redistribute_from ((left, Some (sid, sib)) # sibs) (pid t) y (fpid F) yp i op_lsn s =
      redistribute_from sibs (pid t) y (fpid F) yp i op_lsn s \<and>
    (\<forall>probe. merge_probe yl yr yp (int (sepidx F')) = Inr probe \<longrightarrow> calculate_page_size probe \<le> ps)"
proof -
  have a: "129 \<le> ps" "focus_ok ps h (F # fs) t" "plug F t = plug2 F' l k r" "fpid F' = fpid F" "t = l \<or> t = r"
    "strip yl = tnode l" "strip yr = tnode r" "strip yp = fnode2 F' (pid l) k (pid r)" "{fpid F, pid l, pid r} \<subseteq> H"
    using pair by (simp_all add: fetched_pair_def)
  note pg = pair_pages [OF pair]
  obtain b where yp: "yp = parent_with b (fleft F' (pid l)) (fpre F' (pid l)) (pid r) (fpost F') k"
    using a(8) strip_internal [of yp] by (auto simp: fnode2_parent parent_with_def)
  let ?P = "parent_with b (fleft F' (pid l)) (fpre F' (pid l)) (pid r) (fpost F')"
  have sep: "0 \<le> (if left then i else i + 1)" "(if left then i else i + 1) < int (length (islots yp))"
    unfolding i by (simp_all add: yp parent_with_def)
  have lr: "l \<noteq> r" using pg(2) by auto
  have e: "(if left then pid r else pid l) = pid t" using left a(5) by auto
  have loop: "try_redistribute_slots sid sib (pid t) y (fpid F) yp (if left then i else i + 1) left s =
      (case redistribute_loop ps left (sepidx F') (sib, y, yp) sib y yp of
       (res, (donor', recipient', parent')) \<Rightarrow>
         bind_op (mutate_page sid donor') (\<lambda>_. bind_op (mutate_page (pid t) recipient') (\<lambda>_.
         bind_op (mutate_page (fpid F) parent') (\<lambda>_. bind_op (lift_r res) (\<lambda>moved. ret (moved, parent'))))) s)"
    using sep i tree_meta(2) [OF st] by (simp add: try_redistribute_slots_def bind_op_def E split: prod.split)
  have "transferred ps h left l k r yl yr ?P (int (sepidx F')) (sib, y, yp) (redistribute_loop ps left (sepidx F') (sib, y, yp) sib y yp)"
    using pair_transferred [OF pair left lr yp] sib by simp
  then consider (moved) l' k' r' yl' yr' where "redistribute_loop ps left (sepidx F') (sib, y, yp) sib y yp =
      (Inr True, (if left then (yl', yr', ?P k') else (yr', yl', ?P k')))" "strip yl' = tnode l'" "strip yr' = tnode r'" "regroups ps h l k r l' k' r'"
    | (stuck) "redistribute_loop ps left (sepidx F') (sib, y, yp) sib y yp = (Inr False, (sib, y, yp))"
      "\<forall>probe. merge_probe yl yr yp (int (sepidx F')) = Inr probe \<longrightarrow> calculate_page_size probe \<le> ps"
    unfolding transferred_def yp by blast
  then show ?thesis
  proof cases
    case stuck
    have "map_of (pages (plugs (F # fs) t)) sid = Some (strip sib)" "map_of (pages (plugs (F # fs) t)) (pid t) = Some (strip y)"
      "map_of (pages (plugs (F # fs) t)) (fpid F) = Some (strip yp)"
      unfolding pg(1) using pg(2-4) a(6-8) sib e by (auto split: if_splits)
    note rs = this [THEN pool.restore_law [OF st]]
    have "redistribute_from ((left, Some (sid, sib)) # sibs) (pid t) y (fpid F) yp i op_lsn s =
        redistribute_from sibs (pid t) y (fpid F) yp i op_lsn s"
      by (simp add: bind_op_def loop stuck(1) rs)
    with stuck(2) show ?thesis by blast
  next
    case moved
    have yp': "strip (?P k') = fnode2 F' (pid l) k' (pid r)" by (simp add: fnode2_parent parent_with_def)
    have st2: "pool_state E (map_of (pages (plugs (F # fs) t))) {} H U (Suc n + 2) (pid (plugs (F # fs) t)) s" using st by (simp add: numeral_3_eq_3)
    obtain s1 s2 s3 s4 s5 where sv: "mutate_page sid (if left then yl' else yr') s = (Inr (), s1)"
      "mutate_page (pid t) (if left then yr' else yl') s1 = (Inr (), s2)" "mutate_page (fpid F) (?P k') s2 = (Inr (), s3)"
      "pool_mark_dirty (pid t) op_lsn s3 = (Inr (), s4)" "pool_mark_dirty sid op_lsn s4 = (Inr (), s5)"
      "pool_state E (map_of (pages (plugs fs (plug2 F' l' k' r')))) {} H {fpid F} (Suc n) (pid (plugs fs (plug2 F' l' k' r'))) s5"
      by (rule save_pair [OF pair st2 moved(2,3) yp' moved(4) sib(1) e [symmetric] refl, of op_lsn])
    let ?g = "if is_LeafPage y then (\<lambda>st. st\<lparr>leaf_redistributes := leaf_redistributes st + 1\<rparr>) else (\<lambda>st. st\<lparr>internal_redistributes := internal_redistributes st + 1\<rparr>)"
    let ?s5 = "s5\<lparr>tr_stats := ?g (tr_stats s5)\<rparr>" and ?T = "plug2 F' l' k' r'"
    have st5: "pool_state E (map_of (pages (plugs fs ?T))) {} H {fpid F} (Suc n) (pid (plugs fs ?T)) ?s5" using sv(6) by simp
    note fr = focus_regroup [OF a(2-5) moved(4)]
    have pT: "pid ?T = fpid F" "strip (?P k') = tnode ?T" using a(4) moved(4) yp' by (simp_all add: regroups_def)
    have run: "redistribute_from ((left, Some (sid, sib)) # sibs) (pid t) y (fpid F) yp i op_lsn s =
        (if is_page_overpopulated ps (?P k') \<or> is_page_underpopulated ps (?P k') then (Inr (Some (Some (fpid F, ?P k'))), ?s5)
         else bind_op (pool_mark_dirty (fpid F) op_lsn) (\<lambda>_. ret (Some None)) ?s5)"
    proof -
      have tried: "try_redistribute_slots sid sib (pid t) y (fpid F) yp (if left then i else i + 1) left s = (Inr (True, ?P k'), s3)"
        using loop moved(1) sv(1-3) by (cases left) (simp_all add: bind_op_def)
      note m = tree_meta(2) [OF st5]
      show ?thesis unfolding redistribute_from.simps bind_op_def tried
        by (simp add: sv(4,5) m tr_bump_stat_def E bind_op_def)
    qed
    show ?thesis
    proof (cases "is_page_overpopulated ps (?P k') \<or> is_page_underpopulated ps (?P k')")
      case True
      have w: "pool_state E (map_of (pages (plugs fs ?T))) {} H {fpid F} n (pid (plugs fs ?T)) ?s5"
        by (rule pool.weaken [OF st5]) (use a(9) in auto)
      have "continues E ps (Suc h) fs (entries (leaf_seq (plugs (F # fs) t))) n (Inr (fpid F, ?P k'), ?s5)"
        by (rule continuesI [where t = ?T and y = "?P k'" and s' = ?s5, OF _ pT(2) fr(1,2) w]) (use a(9) pT(1) in auto)
      with True run show ?thesis by (auto simp: stepped_def)
    next
      case False
      from pool.mark_law [OF st5, of "fpid F" op_lsn] a(9) obtain s6 where
        s6: "pool_mark_dirty (fpid F) op_lsn ?s5 = (Inr (), s6)" "pool_state E (map_of (pages (plugs fs ?T))) {} H {} n (pid (plugs fs ?T)) s6"
        by auto
      have "calculate_page_size (tnode ?T) \<le> ps" "\<not> is_page_underpopulated ps (tnode ?T)"
        using False strip_size [of "?P k'"] unfolding pT(2) by (simp_all add: pop_defs)
      then have "tree_fine ps (Suc h + length fs) (plugs fs ?T)" by (intro focus_done [OF a(1) fr(1)])
      from rebalancedI [OF this fr(2) s6(2)] False run s6(1) show ?thesis by (auto simp: stepped_def bind_op_def)
    qed
  qed
qed

section \<open>Merging\<close>

lemma outer_last: "fs \<noteq> [] \<Longrightarrow> fpid (last fs) \<in> fst ` set (outer fs c)"
  by (induction fs arbitrary: c) (auto simp: image_Un)

lemma root_of_frames:
  assumes "focus_ok ps h (F # fs) t"
  shows "fpid F = pid (plugs (F # fs) t) \<longleftrightarrow> fs = []"
proof (cases fs rule: rev_cases)
  case Nil
  then show ?thesis by simp
next
  case (snoc fs' G)
  have "fpid F \<notin> fst ` set (outer fs (fpid F))" using focus_frameD(6) [OF assms] by simp
  moreover have "fpid (last fs) \<in> fst ` set (outer fs (fpid F))" using snoc by (intro outer_last) simp
  ultimately have "fpid F \<noteq> fpid (last fs)" by metis
  then show ?thesis using snoc by (simp add: pid_plugs)
qed

text \<open>The merge up to the point where the right page is released.\<close>

lemma merge_body:
  fixes s :: "'z tree_scheme"
  assumes pair: "fetched_pair ps h F fs t F' l k r yl yr yp H U" and mg: "merges ps h l k r m" and probe: "strip probe = tnode m"
    and st: "pool_state E (map_of (pages (plugs (F # fs) t))) {} H U (n + 2) (pid (plugs (F # fs) t)) s"
  obtains yp' s1 s2 s3 s4 s5 where "mutate_page (pid l) probe s = (Inr (), s1)"
    "remove_separator (int (sepidx F')) yp = Inr yp'" "mutate_page (fpid F) yp' s1 = (Inr (), s2)"
    "pool_mark_dirty (pid l) op_lsn s2 = (Inr (), s3)" "pool_mark_dirty (fpid F) op_lsn s3 = (Inr (), s4)"
    "bind_op (pool_delete (pid r)) (\<lambda>_. free_page (pid r)) s4 = (Inr (), s5)"
    "pool_state E (map_of (pages (plugs fs (plug F' m)))) {} (H - {pid r}) {} n (pid (plugs (F # fs) t)) s5"
    "strip yp' = fnode F' (pid l)"
proof -
  let ?V = "map_of (pages (plugs (F # fs) t))" and ?root = "pid (plugs (F # fs) t)"
  have a: "focus_ok ps h (F # fs) t" "plug F t = plug2 F' l k r" "fpid F' = fpid F" "t = l \<or> t = r"
    "{fpid F, pid l, pid r} \<subseteq> H" "U \<subseteq> {pid t}" "strip yp = fnode2 F' (pid l) k (pid r)"
    using pair by (simp_all add: fetched_pair_def)
  note pg = pair_pages [OF pair]
  obtain b where yp: "yp = parent_with b (fleft F' (pid l)) (fpre F' (pid l)) (pid r) (fpost F') k"
    using a(7) strip_internal [of yp] by (auto simp: fnode2_parent parent_with_def)
  let ?yp' = "InternalPage b (fleft F' (pid l)) (fslots F' (pid l) [])"
  have rm: "remove_separator (int (sepidx F')) yp = Inr ?yp'"
    by (simp add: remove_separator_def yp parent_with_def fslots_parts)
  have mem: "pid l \<in> H" "fpid F \<in> H" using a(5) by auto
  from pool.mutate_law [OF st mem(1), of probe] probe obtain s1 where s1: "mutate_page (pid l) probe s = (Inr (), s1)"
    "pool_state E (?V(pid l \<mapsto> tnode m)) {} H (insert (pid l) U) (n + 2) ?root s1" by auto
  from pool.mutate_law [OF s1(2) mem(2), of ?yp'] obtain s2 where s2: "mutate_page (fpid F) ?yp' s1 = (Inr (), s2)"
    "pool_state E (?V(pid l \<mapsto> tnode m, fpid F \<mapsto> strip ?yp')) {} H (insert (fpid F) (insert (pid l) U)) (Suc (Suc n)) ?root s2" by auto
  let ?V2 = "?V(pid l \<mapsto> tnode m, fpid F \<mapsto> strip ?yp')"
  from pool.mark_law [OF s2(2) mem(1), of op_lsn] obtain s3 where s3: "pool_mark_dirty (pid l) op_lsn s2 = (Inr (), s3)"
    "pool_state E ?V2 {} H (insert (fpid F) (insert (pid l) U) - {pid l}) (Suc n) ?root s3" by blast
  from pool.mark_law [OF s3(2) mem(2), of op_lsn] obtain s4 where s4: "pool_mark_dirty (fpid F) op_lsn s3 = (Inr (), s4)"
    "pool_state E ?V2 {} H (insert (fpid F) (insert (pid l) U) - {pid l} - {fpid F}) n ?root s4" by blast
  have "pid r \<in> dom ?V2" unfolding pg(1) by auto
  from pool.drop_page [OF s4(2) this] obtain s5 where s5: "bind_op (pool_delete (pid r)) (\<lambda>_. free_page (pid r)) s4 = (Inr (), s5)"
    "pool_state E (?V2(pid r := None)) {} (H - {pid r}) (insert (fpid F) (insert (pid l) U) - {pid l} - {fpid F} - {pid r}) n ?root s5"
    by blast
  have U': "insert (fpid F) (insert (pid l) U) - {pid l} - {fpid F} - {pid r} = {}" using a(4,6) by auto
  let ?rest = "below l @ below r @ flank F' @ outer fs (fpid F)"
  note fm = focus_merge [OF a(1-4) mg]
  have r_out: "map_of ?rest (pid r) = None" using pg(5) by (simp only: map_of_eq_None_iff) auto
  have "?V2(pid r := None) = map_of ((fpid F, fnode F' (pid l)) # (pid l, tnode m) # ?rest)"
    unfolding pg(1) using pg(2-4) r_out by (auto simp: fun_eq_iff fnode_def simp del: map_of_append)
  also have "\<dots> = map_of (pages (plugs fs (plug F' m)))"
  proof (rule map_of_perm(1) [OF _ fm(3) [symmetric]])
    show "distinct (map fst ((fpid F, fnode F' (pid l)) # (pid l, tnode m) # ?rest))" using pair_in_focus(10) [OF a(1-4)] by simp
  qed
  finally show thesis using that [OF s1(1) rm s2(1) s3(1) s4(1) s5(1)] s5(2) unfolding U' by (simp add: fnode_def)
qed

lemma merge_pages_ok:
  fixes s :: "'z tree_scheme"
  assumes pair: "fetched_pair ps h F fs t F' l k r yl yr yp H U" and mg: "merges ps h l k r m" and probe: "strip probe = tnode m"
    and st: "pool_state E (map_of (pages (plugs (F # fs) t))) {} H U (n + 2) (pid (plugs (F # fs) t)) s"
  shows "stepped E ps (Suc h) fs (entries (leaf_seq (plugs (F # fs) t))) n
    (merge_pages (pid l) (pid r) probe (fpid F) yp (int (sepidx F')) op_lsn s)"
proof -
  let ?root = "pid (plugs (F # fs) t)"
  have a: "focus_ok ps h (F # fs) t" "plug F t = plug2 F' l k r" "fpid F' = fpid F" "t = l \<or> t = r"
    "{fpid F, pid l, pid r} \<subseteq> H" "129 \<le> ps" using pair by (simp_all add: fetched_pair_def)
  obtain yp' s1 s2 s3 s4 s5 where b: "mutate_page (pid l) probe s = (Inr (), s1)"
    "remove_separator (int (sepidx F')) yp = Inr yp'" "mutate_page (fpid F) yp' s1 = (Inr (), s2)"
    "pool_mark_dirty (pid l) op_lsn s2 = (Inr (), s3)" "pool_mark_dirty (fpid F) op_lsn s3 = (Inr (), s4)"
    "bind_op (pool_delete (pid r)) (\<lambda>_. free_page (pid r)) s4 = (Inr (), s5)"
    "pool_state E (map_of (pages (plugs fs (plug F' m)))) {} (H - {pid r}) {} n ?root s5" "strip yp' = fnode F' (pid l)"
    by (rule merge_body [OF assms, of op_lsn])
  obtain c where yp': "yp' = InternalPage c (fleft F' (pid l)) (fslots F' (pid l) [])"
    using b(8) strip_internal [of yp'] by (auto simp: fnode_def)
  let ?g = "if is_LeafPage probe then (\<lambda>st. st\<lparr>leaf_merges := leaf_merges st + 1\<rparr>) else (\<lambda>st. st\<lparr>internal_merges := internal_merges st + 1\<rparr>)"
  let ?s5 = "s5\<lparr>tr_stats := ?g (tr_stats s5)\<rparr>"
  have st5: "pool_state E (map_of (pages (plugs fs (plug F' m)))) {} (H - {pid r}) {} n ?root ?s5" using b(7) by simp
  note root = root_of_frames [OF a(1)]
  note meta = tree_meta(1) [OF st5]
  have run: "merge_pages (pid l) (pid r) probe (fpid F) yp (int (sepidx F')) op_lsn s =
      (if islots yp' = [] \<and> fpid F = ?root then
         bind_op (update_meta (root_page_id_update (\<lambda>_. leftmost_child_page_id yp'))) (\<lambda>_.
         bind_op (bind_op (pool_delete ?root) (\<lambda>_. free_page ?root)) (\<lambda>_.
         bind_op (tr_bump_stat (\<lambda>st. st\<lparr>root_collapses := root_collapses st + 1\<rparr>)) (\<lambda>_. ret None))) ?s5
       else (Inr (Some (fpid F, yp')), ?s5))"
    using b(6) meta by (simp add: merge_pages_def bind_op_def [of "mutate_page _ _"] bind_op_def [of "pool_mark_dirty _ _"]
        bind_op_def [of "bind_op (pool_delete (pid r)) _"] bind_op_def [of tree_root] b(1-5))
  note fm = focus_merge [OF a(1-4) mg]
  have rt: "?root = pid (plugs fs (plug F' m))" using a(3) by (simp add: pid_plugs)
  have pm: "pid m = pid l" using mg by (simp add: merges_def)
  have mem: "fpid F \<in> H - {pid r}" using a(5) pair_pages(4) [OF pair] by auto
  show ?thesis
  proof (cases "fs = [] \<and> fslots F' (pid l) [] = []")
    case True
    then have fs: "fs = []" and sl: "fslots F' (pid l) [] = []" by auto
    note col = fm(4) [OF fs sl]
    from pool.root_law [OF st5, of "pid m"] obtain s6 where s6: "update_meta (root_page_id_update (\<lambda>_. pid m)) ?s5 = (Inr (), s6)"
      "pool_state E (map_of (pages (plugs fs (plug F' m)))) {} (H - {pid r}) {} n (pid m) s6" by blast
    have "fpid F \<in> dom (map_of (pages (plugs fs (plug F' m))))" using pool.facts [OF s6(2)] mem by blast
    from pool.drop_page [OF s6(2) this] obtain s7 where s7: "bind_op (pool_delete (fpid F)) (\<lambda>_. free_page (fpid F)) s6 = (Inr (), s7)"
      "pool_state E ((map_of (pages (plugs fs (plug F' m))))(fpid F := None)) {} (H - {pid r} - {fpid F}) {} n (pid m) s7" by auto
    have "F' = FL (fpid F) []" using sl a(3) by (cases F') auto
    then have pgs: "pages (plugs fs (plug F' m)) = (fpid F, fnode F' (pid m)) # pages m" by (simp add: fs fnode_def)
    have "distinct (map fst (pages (plugs fs (plug F' m))))"
      unfolding distinct_perm [OF fm(3)] using pair_in_focus(10) [OF a(1-4)] by simp
    then have "map_of (pages m) (fpid F) = None" by (simp add: pgs map_of_eq_None_iff)
    then have V: "(map_of (pages (plugs fs (plug F' m))))(fpid F := None) = map_of (pages m)" by (auto simp: fun_eq_iff pgs)
    let ?s7 = "s7\<lparr>tr_stats := (tr_stats s7)\<lparr>root_collapses := root_collapses (tr_stats s7) + 1\<rparr>\<rparr>"
    have "calculate_page_size (tnode m) \<le> ps" using col by (simp add: page_fine_def page_good_def pop_defs)
    then have "tree_fine ps (h + length ([] :: frame list)) (plugs [] m)" using col by (intro focus_done [OF a(6)]) simp_all
    then have "rebalanced E ps (entries (leaf_seq (plugs (F # fs) t))) (Inr (), ?s7)"
      using col s7(2) V by (intro rebalancedI [where T = m]) simp_all
    moreover have "merge_pages (pid l) (pid r) probe (fpid F) yp (int (sepidx F')) op_lsn s = (Inr None, ?s7)"
      using run fs sl root s6(1) s7(1) col by (simp add: yp' bind_op_def [of "update_meta _"] bind_op_def [of "bind_op _ _"])
    ultimately show ?thesis by (auto simp: stepped_def)
  next
    case False
    then have "merge_pages (pid l) (pid r) probe (fpid F) yp (int (sepidx F')) op_lsn s = (Inr (Some (fpid F, yp')), ?s5)"
      using run root by (auto simp: yp')
    moreover have "continues E ps (Suc h) fs (entries (leaf_seq (plugs (F # fs) t))) n (Inr (fpid F, yp'), ?s5)"
    proof (rule continuesI [where t = "plug F' m" and y = yp' and s' = ?s5 and H = "H - {pid r}" and U = "{}"])
      show "pool_state E (map_of (pages (plugs fs (plug F' m)))) {} (H - {pid r}) {} n (pid (plugs fs (plug F' m))) ?s5"
        using st5 unfolding rt .
    qed (use False fm(1,2) a(3) b(8) pm mem in auto)
    ultimately show ?thesis by (auto simp: stepped_def)
  qed
qed


lemma merge_one:
  fixes s :: "'z tree_scheme"
  assumes E: "env_page_size E = ps" and pair: "fetched_pair ps h F fs t F' l k r yl yr yp H U" and left: "left \<longleftrightarrow> t = r"
    and st: "pool_state E (map_of (pages (plugs (F # fs) t))) {} H U (n + 2) (pid (plugs (F # fs) t)) s"
    and i: "(if left then i else i + 1) = int (sepidx F')"
    and sib: "sid = (if left then pid l else pid r)" "sib = (if left then yl else yr)" "y = (if left then yr else yl)"
    and fits: "\<forall>probe. merge_probe yl yr yp (int (sepidx F')) = Inr probe \<longrightarrow> calculate_page_size probe \<le> ps"
  shows "stepped E ps (Suc h) fs (entries (leaf_seq (plugs (F # fs) t))) n
    (merge_with ((left, Some (sid, sib)) # sibs) (pid t) y (fpid F) yp i op_lsn s)"
proof -
  have a: "129 \<le> ps" "focus_ok ps h (F # fs) t" "plug F t = plug2 F' l k r" "fpid F' = fpid F" "t = l \<or> t = r"
    "strip yl = tnode l" "strip yr = tnode r" "strip yp = fnode2 F' (pid l) k (pid r)"
    using pair by (simp_all add: fetched_pair_def)
  note f = pair_in_focus [OF a(2-5)]
  obtain b where yp: "yp = parent_with b (fleft F' (pid l)) (fpre F' (pid l)) (pid r) (fpost F') k"
    using a(8) strip_internal [of yp] by (auto simp: fnode2_parent parent_with_def)
  have full: "\<not> is_page_underpopulated ps (tnode l) \<or> \<not> is_page_underpopulated ps (tnode r)" using f(12,13) a(5) by (auto simp: page_fine_def)
  have len: "int (sepidx F') = int (length (fpre F' (pid l)))" by simp
  obtain m probe where m: "merge_probe yl yr yp (int (sepidx F')) = Inr probe" "strip probe = tnode m"
    "calculate_page_size probe \<le> ps \<Longrightarrow> merges ps h l k r m"
    using merge_tree [OF a(1) f(3,4) a(6,7) full len yp refl] by blast
  have sz: "calculate_page_size probe \<le> ps" using fits m(1) by blast
  have ids: "(if left then sid else pid t) = pid l" "(if left then pid t else sid) = pid r"
    "(if left then sib else y) = yl" "(if left then y else sib) = yr" using sib left a(5) by auto
  have "merge_with ((left, Some (sid, sib)) # sibs) (pid t) y (fpid F) yp i op_lsn s =
      merge_pages (pid l) (pid r) probe (fpid F) yp (int (sepidx F')) op_lsn s"
    using tree_meta(2) [OF st] sz unfolding merge_with.simps ids i by (simp add: m(1) bind_op_def Let_def E)
  then show ?thesis using merge_pages_ok [OF pair m(3) [OF sz] m(2) st] by simp
qed

section \<open>One level of the cascade\<close>

lemma get_sibling_None [simp]: "get_sibling None = ret None"
  by (simp add: get_sibling_def fun_eq_iff)

lemma get_sibling_ok:
  fixes s :: "'z tree_scheme"
  assumes "pool_state E V R H U (Suc n) r s" and "V p = Some x"
  obtains y s' where "get_sibling (Some p) s = (Inr (Some (p, y)), s')" "strip y = x" "pool_state E V R (insert p H) U n r s'"
  using pool.fetch_law [OF assms] by (auto simp: get_sibling_def bind_op_def)

lemma fetched_pairI:
  assumes "129 \<le> ps" "focus_ok ps h (F # fs) t" "is_page_underpopulated ps (tnode t)" "U \<subseteq> {pid t}"
    and "plug F t = plug2 F' l k r" "fpid F' = fpid F" "t = l \<or> t = r"
    and "strip yl = tnode l" "strip yr = tnode r" "strip yp = fnode F (pid t)" "{fpid F, pid l, pid r} \<subseteq> H"
  shows "fetched_pair ps h F fs t F' l k r yl yr yp H U"
  using assms arg_cong [OF assms(5), of tnode] unfolding fetched_pair_def tnode_plug by simp

lemma sibling_page:
  assumes "focus_ok ps h (F # fs) t" "plug F t = plug2 F' l k r"
  shows "map_of (pages (plugs (F # fs) t)) (pid l) = Some (tnode l)" "map_of (pages (plugs (F # fs) t)) (pid r) = Some (tnode r)"
proof -
  have d: "distinct (map fst (pages (plugs (F # fs) t)))" using assms(1) by (simp add: focus_ok_def)
  have "set (pages (plugs (F # fs) t)) = set ((fpid F', fnode2 F' (pid l) k (pid r)) # (pid l, tnode l) # (pid r, tnode r) #
      below l @ below r @ flank F' @ outer fs (fpid F'))"
    using mset_eq_setD [OF mset_frame2, of fs F' l k r] assms(2) by simp
  then show "map_of (pages (plugs (F # fs) t)) (pid l) = Some (tnode l)" "map_of (pages (plugs (F # fs) t)) (pid r) = Some (tnode r)"
    using map_of_is_SomeI [OF d] by auto
qed

text \<open>The siblings as the pool returned them.\<close>

definition left_of :: "frame \<Rightarrow> btree \<Rightarrow> nat set \<Rightarrow> (nat \<times> node) option \<Rightarrow> bool" where
  "left_of F t H sibling \<longleftrightarrow> (\<forall>p yl. sibling = Some (p, yl) \<longrightarrow> (\<exists>F' l k. p = pid l \<and> plug F t = plug2 F' l k t \<and>
     fpid F' = fpid F \<and> findex F = int (sepidx F') \<and> strip yl = tnode l \<and> pid l \<in> H))"

definition right_of :: "frame \<Rightarrow> btree \<Rightarrow> nat set \<Rightarrow> (nat \<times> node) option \<Rightarrow> bool" where
  "right_of F t H sibling \<longleftrightarrow> (\<forall>p yr. sibling = Some (p, yr) \<longrightarrow> (\<exists>F' k r. p = pid r \<and> plug F t = plug2 F' t k r \<and>
     fpid F' = fpid F \<and> findex F + 1 = int (sepidx F') \<and> strip yr = tnode r \<and> pid r \<in> H))"

lemma left_sibling_ok:
  fixes s :: "'z tree_scheme"
  assumes foc: "focus_ok ps h (F # fs) t" and st: "pool_state E (map_of (pages (plugs (F # fs) t))) {} H U (Suc n) root s"
  obtains sib s' H' where "get_sibling (left_sibling_id (fleft F (pid t)) (fslots F (pid t) []) (findex F)) s = (Inr sib, s')"
    "H \<subseteq> H'" "pool_state E (map_of (pages (plugs (F # fs) t))) {} H' U n root s'" "left_of F t H' sib"
    "sib = None \<longleftrightarrow> left_sibling_id (fleft F (pid t)) (fslots F (pid t) []) (findex F) = None"
proof (cases F rule: left_view)
  case none
  have "pool_state E (map_of (pages (plugs (F # fs) t))) {} H U n root s"
    by (rule pool.weaken [OF st]) (use pool.facts [OF st] in auto)
  with none that [of None s H] show thesis by (simp add: left_of_def)
next
  case (some F' l k)
  obtain y s' where s': "get_sibling (Some (pid l)) s = (Inr (Some (pid l, y)), s')" "strip y = tnode l"
    "pool_state E (map_of (pages (plugs (F # fs) t))) {} (insert (pid l) H) U n root s'"
    by (rule get_sibling_ok [OF st sibling_page(1) [OF foc some(1)]])
  have "left_of F t (insert (pid l) H) (Some (pid l, y))" using some s'(2) unfolding left_of_def by blast
  with that [of "Some (pid l, y)" s' "insert (pid l) H"] some(4) s' show thesis by auto
qed

lemma right_sibling_ok:
  fixes s :: "'z tree_scheme"
  assumes foc: "focus_ok ps h (F # fs) t" and st: "pool_state E (map_of (pages (plugs (F # fs) t))) {} H U (Suc n) root s"
  obtains sib s' H' where "get_sibling (right_sibling_id (fslots F (pid t) []) (findex F)) s = (Inr sib, s')"
    "H \<subseteq> H'" "pool_state E (map_of (pages (plugs (F # fs) t))) {} H' U n root s'" "right_of F t H' sib"
    "sib = None \<longleftrightarrow> right_sibling_id (fslots F (pid t) []) (findex F) = None"
proof (cases F rule: right_view)
  case none
  have "pool_state E (map_of (pages (plugs (F # fs) t))) {} H U n root s"
    by (rule pool.weaken [OF st]) (use pool.facts [OF st] in auto)
  with none that [of None s H] show thesis by (simp add: right_of_def)
next
  case (some F' k r)
  obtain y s' where s': "get_sibling (Some (pid r)) s = (Inr (Some (pid r, y)), s')" "strip y = tnode r"
    "pool_state E (map_of (pages (plugs (F # fs) t))) {} (insert (pid r) H) U n root s'"
    by (rule get_sibling_ok [OF st sibling_page(2) [OF foc some(1)]])
  have "right_of F t (insert (pid r) H) (Some (pid r, y))" using some s'(2) unfolding right_of_def by blast
  with that [of "Some (pid r, y)" s' "insert (pid r) H"] some(4) s' show thesis by auto
qed

text \<open>What the two loops over the siblings do, given the siblings.\<close>

lemma with_siblings:
  fixes s :: "'z tree_scheme"
  assumes ps: "129 \<le> ps" "env_page_size E = ps" and foc: "focus_ok ps h (F # fs) t"
    and st: "pool_state E (map_of (pages (plugs (F # fs) t))) {} H U (n + 3) (pid (plugs (F # fs) t)) s"
    and H: "{fpid F, pid t} \<subseteq> H" and t: "U \<subseteq> {pid t}" and y: "strip y = tnode t" and under: "is_page_underpopulated ps (tnode t)"
    and yp: "strip yp = fnode F (pid t)" and sibs: "left_of F t H left" "right_of F t H right" "left \<noteq> None \<or> right \<noteq> None"
  shows "stepped E ps (Suc h) fs (entries (leaf_seq (plugs (F # fs) t))) n
    (bind_op (redistribute_from [(True, left), (False, right)] (pid t) y (fpid F) yp (findex F) op_lsn)
      (\<lambda>r. case r of Some result \<Rightarrow> ret result
        | None \<Rightarrow> merge_with [(True, left), (False, right)] (pid t) y (fpid F) yp (findex F) op_lsn) s)"
    (is "?goal (bind_op (?red [(True, left), (False, right)]) ?k s)")
proof -
  have w: "pool_state E (map_of (pages (plugs (F # fs) t))) {} H U (n + 2) (pid (plugs (F # fs) t)) s"
    by (rule pool.weaken [OF st]) (use pool.facts [OF st] in auto)
  have fin: "?goal (bind_op (?red X) ?k s)" if "?red X s = (Inr (Some res), s')" "?goal (Inr res, s')" for X res s'
    using that by (simp add: bind_op_def)
  have right_try: "(\<exists>res s'. ?red [(False, right)] s = (Inr (Some res), s') \<and> ?goal (Inr res, s')) \<or>
      ?red [(False, right)] s = (Inr None, s) \<and>
      (right \<noteq> None \<longrightarrow> ?goal (merge_with [(False, right)] (pid t) y (fpid F) yp (findex F) op_lsn s))"
  proof (cases right)
    case None
    then show ?thesis by simp
  next
    case (Some pr)
    obtain p yr where pr: "pr = (p, yr)" by (cases pr)
    from sibs(2) Some pr obtain F' k r where r: "p = pid r" "plug F t = plug2 F' t k r" "fpid F' = fpid F"
      "findex F + 1 = int (sepidx F')" "strip yr = tnode r" "pid r \<in> H" unfolding right_of_def by blast
    have pair: "fetched_pair ps h F fs t F' t k r y yr yp H U"
      by (rule fetched_pairI [OF ps(1) foc under t r(2,3) _ y r(5) yp]) (use H r(6) in auto)
    have tr: "False \<longleftrightarrow> t = r" using pair_pages(2) [OF pair] by auto
    have i: "(if False then findex F else findex F + 1) = int (sepidx F')" "p = (if False then pid t else pid r)"
      "yr = (if False then y else yr)" "y = (if False then yr else y)" using r by simp_all
    from redistribute_one [OF ps(2) pair tr st i, of "[]" op_lsn] merge_one [OF ps(2) pair tr w i, of "[]" op_lsn]
    show ?thesis unfolding Some pr by (auto simp del: redistribute_from.simps(3) merge_with.simps(3))
  qed
  show ?thesis
  proof (cases left)
    case None
    with right_try sibs(3) fin [of "[(False, right)]"] show ?thesis by (auto simp: bind_op_def)
  next
    case (Some pl)
    obtain p yl where pl: "pl = (p, yl)" by (cases pl)
    from sibs(1) Some pl obtain F' l k where l: "p = pid l" "plug F t = plug2 F' l k t" "fpid F' = fpid F"
      "findex F = int (sepidx F')" "strip yl = tnode l" "pid l \<in> H" unfolding left_of_def by blast
    have pair: "fetched_pair ps h F fs t F' l k t yl y yp H U"
      by (rule fetched_pairI [OF ps(1) foc under t l(2,3) _ l(5) y yp]) (use H l(6) in auto)
    have tr: "True \<longleftrightarrow> t = t" by simp
    have i: "(if True then findex F else findex F + 1) = int (sepidx F')" "p = (if True then pid l else pid t)"
      "yl = (if True then yl else y)" "y = (if True then y else yl)" using l by simp_all
    from redistribute_one [OF ps(2) pair tr st i, of "[(False, right)]" op_lsn]
      merge_one [OF ps(2) pair tr w i, of "[(False, right)]" op_lsn] right_try
    show ?thesis unfolding Some pl by (auto simp: bind_op_def simp del: redistribute_from.simps merge_with.simps)
  qed
qed

lemma redistribute_or_merge_ok:
  fixes s :: "'z tree_scheme"
  assumes ps: "129 \<le> ps" "env_page_size E = ps" and foc: "focus_ok ps h (F # fs) t"
    and st: "pool_state E (map_of (pages (plugs (F # fs) t))) {} H U (n + 6) (pid (plugs (F # fs) t)) s"
    and t: "pid t \<in> H" "U \<subseteq> {pid t}" and y: "strip y = tnode t" and under: "is_page_underpopulated ps y"
  shows "stepped E ps (Suc h) fs (entries (leaf_seq (plugs (F # fs) t))) n
    (redistribute_or_merge_page (pid t) (Some (fitem F)) y op_lsn s)"
proof -
  let ?V = "map_of (pages (plugs (F # fs) t))" and ?root = "pid (plugs (F # fs) t)"
  note f = focus_frameD [OF foc]
  have und: "is_page_underpopulated ps (tnode t)" using under strip_size [of y] y by (simp add: is_page_underpopulated_def)
  have "set (pages (plugs (F # fs) t)) = set ((fpid F, fnode F (pid t)) # (pid t, tnode t) # below t @ flank F @ outer fs (fpid F))"
    using mset_eq_setD [OF mset_frame, of fs F t] by simp
  then have Vp: "?V (fpid F) = Some (fnode F (pid t))" using foc by (auto simp: focus_ok_def intro!: map_of_is_SomeI)
  have st1: "pool_state E ?V {} H U (Suc (Suc (Suc (n + 3)))) ?root s" using st by (simp add: eval_nat_numeral)
  from pool.fetch_law [OF st1 Vp] obtain yp s1 where
    s1: "pool_get (fpid F) s = (Inr yp, s1)" "strip yp = fnode F (pid t)"
      "pool_state E ?V {} (insert (fpid F) H) U (Suc (Suc (n + 3))) ?root s1" by blast
  then obtain b where yp: "yp = InternalPage b (fleft F (pid t)) (fslots F (pid t) [])"
    using strip_internal [of yp] by (auto simp: fnode_def)
  obtain left s2 H2 where s2: "get_sibling (left_sibling_id (fleft F (pid t)) (fslots F (pid t) []) (findex F)) s1 = (Inr left, s2)"
    "insert (fpid F) H \<subseteq> H2" "pool_state E ?V {} H2 U (Suc (n + 3)) ?root s2" "left_of F t H2 left"
    "left = None \<longleftrightarrow> left_sibling_id (fleft F (pid t)) (fslots F (pid t) []) (findex F) = None"
    by (rule left_sibling_ok [OF foc s1(3)])
  obtain right s3 H3 where s3: "get_sibling (right_sibling_id (fslots F (pid t) []) (findex F)) s2 = (Inr right, s3)"
    "H2 \<subseteq> H3" "pool_state E ?V {} H3 U (n + 3) ?root s3" "right_of F t H3 right"
    "right = None \<longleftrightarrow> right_sibling_id (fslots F (pid t) []) (findex F) = None"
    by (rule right_sibling_ok [OF foc s2(3)])
  have "fslots F (pid t) [] \<noteq> []" using f(4) by (simp add: fnode_def page_good_internal)
  then have some: "left \<noteq> None \<or> right \<noteq> None" using only_child [of F "pid t"] s2(5) s3(5)
    by (cases F) (auto simp: left_sibling_id_def right_sibling_id_def split: if_splits)
  have left3: "left_of F t H3 left" using s2(4) s3(2) unfolding left_of_def by blast
  have H3: "{fpid F, pid t} \<subseteq> H3" using s2(2) s3(2) t(1) by auto
  have run: "redistribute_or_merge_page (pid t) (Some (fitem F)) y op_lsn s =
      bind_op (redistribute_from [(True, left), (False, right)] (pid t) y (fpid F) yp (findex F) op_lsn)
        (\<lambda>r. case r of Some result \<Rightarrow> ret result
          | None \<Rightarrow> merge_with [(True, left), (False, right)] (pid t) y (fpid F) yp (findex F) op_lsn) s3"
    using s1(1) s2(1) s3(1) unfolding yp
    by (simp add: redistribute_or_merge_page_def fitem_def determine_same_parent_siblings_def bind_op_def Let_def)
  show ?thesis unfolding run by (rule with_siblings [OF ps foc s3(3) H3 t(2) y und s1(2) left3 s3(4) some])
qed

section \<open>The cascade\<close>

lemma focus_not_root:
  assumes "focus_ok ps h fs t" and "fs \<noteq> []"
  shows "pid t \<noteq> pid (plugs fs t)"
proof -
  have "pid t \<notin> fst ` set (outer fs (pid t))" using assms(1) distinct_perm [OF mset_focus, of fs t] by (simp add: focus_ok_def)
  moreover have "fpid (last fs) \<in> fst ` set (outer fs (pid t))" by (rule outer_last [OF assms(2)])
  ultimately have "pid t \<noteq> fpid (last fs)" by metis
  then show ?thesis using assms(2) by (simp add: pid_plugs)
qed

lemma balance_finish:
  fixes s :: "'z tree_scheme"
  assumes ps: "129 \<le> ps" "env_page_size E = ps" and foc: "focus_ok ps h fs t"
    and st: "pool_state E (map_of (pages (plugs fs t))) {} H U (Suc n) (pid (plugs fs t)) s"
    and t: "pid t \<in> H" "U \<subseteq> {pid t}" and y: "strip y = tnode t"
    and size: "calculate_page_size y \<le> ps" "fs \<noteq> [] \<Longrightarrow> \<not> is_page_underpopulated ps y"
  shows "rebalanced E ps (entries (leaf_seq (plugs fs t))) (balance_loop (Suc fuel) (pid t) y path op_lsn s)"
proof -
  from pool.mark_law [OF st t(1), of op_lsn] obtain s' where s': "pool_mark_dirty (pid t) op_lsn s = (Inr (), s')"
    "pool_state E (map_of (pages (plugs fs t))) {} H (U - {pid t}) n (pid (plugs fs t)) s'" by blast
  have "U - {pid t} = {}" using t(2) by auto
  with s'(2) have st': "pool_state E (map_of (pages (plugs fs t))) {} H {} n (pid (plugs fs t)) s'" by simp
  have "\<not> (is_page_underpopulated ps y \<and> pid t \<noteq> pid (plugs fs t))" using size(2) by (cases "fs = []") simp_all
  then have "is_page_underpopulated ps y \<Longrightarrow> pid (plugs fs t) = pid t" by auto
  then have run: "balance_loop (Suc fuel) (pid t) y path op_lsn s = (Inr (), s')"
    using tree_meta [OF st] s'(1) size(1) ps(2)
    by (cases "is_page_underpopulated ps y") (simp_all add: bind_op_def Let_def is_page_overpopulated_def)
  have sz: "calculate_page_size (tnode t) \<le> ps" "fs \<noteq> [] \<Longrightarrow> \<not> is_page_underpopulated ps (tnode t)"
    using size strip_size [of y] y by (simp_all add: is_page_underpopulated_def)
  show ?thesis unfolding run by (rule rebalancedI [OF focus_done [OF ps(1) foc sz] refl st'])
qed

lemma balance_loop_ok:
  fixes s :: "'z tree_scheme"
  assumes ps: "129 \<le> ps" "env_page_size E = ps" and foc: "focus_ok ps h fs t"
    and st: "pool_state E (map_of (pages (plugs fs t))) {} H U (6 * length fs + 4) (pid (plugs fs t)) s"
    and t: "pid t \<in> H" "U \<subseteq> {pid t}" and y: "strip y = tnode t" and fuel: "length fs + 2 \<le> fuel"
  shows "rebalanced E ps (entries (leaf_seq (plugs fs t))) (balance_loop fuel (pid t) y (rev (map fitem fs)) op_lsn s)"
  using foc st t y fuel
proof (induction fs arbitrary: h t H U y fuel s)
  case Nil
  then obtain fuel' where fuel: "fuel = Suc (Suc fuel')" by (cases fuel; cases "fuel - 1") auto
  show ?case
  proof (cases "ps < calculate_page_size y")
    case True
    have st: "pool_state E (map_of (pages t)) {} H U (1 + 3) (pid t) s" using Nil.prems(2) by simp
    obtain T y' H' s' where T: "split_page (pid t) None y op_lsn s = (Inr (pid T, y'), s')" "strip y' = tnode T"
      "focus_ok ps (Suc h) [] T" "entries (leaf_seq T) = entries (leaf_seq t)"
      "pool_state E (map_of (pages T)) {} H' {} 1 (pid T) s'" "pid T \<in> H'" "calculate_page_size y' \<le> ps"
      by (rule split_root_ok [OF ps Nil.prems(1) st Nil.prems(3-5) True])
    have "balance_loop fuel (pid t) y (rev (map fitem [])) op_lsn s = balance_loop (Suc fuel') (pid T) y' [] op_lsn s'"
      using tree_meta [OF st] T(1) True ps(2)
      by (simp add: fuel bind_op_def Let_def is_page_overpopulated_def del: balance_loop.simps(2)) (simp add: bind_op_def Let_def is_page_overpopulated_def)
    moreover have "rebalanced E ps (entries (leaf_seq (plugs [] T))) (balance_loop (Suc fuel') (pid T) y' [] op_lsn s')"
      by (rule balance_finish [OF ps T(3) _ T(6) _ T(2,7), where n = 0 and U = "{}"]) (use T(5) in simp_all)
    ultimately show ?thesis using T(4) by simp
  next
    case False
    have st: "pool_state E (map_of (pages (plugs [] t))) {} H U (Suc 3) (pid (plugs [] t)) s" using Nil.prems(2) by simp
    show ?thesis unfolding fuel
      by (rule balance_finish [OF ps Nil.prems(1) st Nil.prems(3-5)]) (use False in simp_all)
  qed
next
  case (Cons F fs)
  obtain fuel' where fuel: "fuel = Suc fuel'" "length fs + 2 \<le> fuel'" using Cons.prems(6) by (cases fuel) auto
  let ?T = "plugs (F # fs) t" and ?es = "entries (leaf_seq (plugs (F # fs) t))"
  note meta = tree_meta [OF Cons.prems(2)]
  have next_level: "rebalanced E ps ?es (balance_loop fuel' p yp (rev (map fitem fs)) op_lsn s')"
    if "continues E ps (Suc h) fs ?es (6 * length fs + 4) (Inr (p, yp), s')" for p yp and s' :: "'z tree_scheme"
  proof -
    from that obtain t' y' H' U' s'' where c: "(Inr (p, yp) :: (nat \<times> node) result, s') = (Inr (pid t', y'), s'')" "strip y' = tnode t'"
      "focus_ok ps (Suc h) fs t'" "entries (leaf_seq (plugs fs t')) = ?es"
      "pool_state E (map_of (pages (plugs fs t'))) {} H' U' (6 * length fs + 4) (pid (plugs fs t')) s''" "pid t' \<in> H'" "U' \<subseteq> {pid t'}"
      by (rule continuesE)
    from Cons.IH [OF c(3,5,6,7,2) fuel(2)] c(1,4) show ?thesis by simp
  qed
  show ?case
  proof (cases "ps < calculate_page_size y")
    case True
    have st: "pool_state E (map_of (pages ?T)) {} H U (6 * length fs + 4 + 3) (pid ?T) s"
      by (rule pool.weaken [OF Cons.prems(2)]) (use pool.facts [OF Cons.prems(2)] in auto)
    have c: "continues E ps (Suc h) fs ?es (6 * length fs + 4) (split_page (pid t) (Some (fpid F)) y op_lsn s)"
      by (rule split_page_ok [OF ps Cons.prems(1) st refl Cons.prems(3-5) True])
    then obtain p yp s' where sp: "split_page (pid t) (Some (fpid F)) y op_lsn s = (Inr (p, yp), s')" by (elim continuesE) auto
    have "balance_loop fuel (pid t) y (rev (map fitem (F # fs))) op_lsn s = balance_loop fuel' p yp (rev (map fitem fs)) op_lsn s'"
      using meta True sp ps(2) by (simp add: fuel(1) bind_op_def Let_def is_page_overpopulated_def fitem_def)
    with next_level c sp show ?thesis by simp
  next
    case small: False
    show ?thesis
    proof (cases "is_page_underpopulated ps y")
      case False
      have st: "pool_state E (map_of (pages ?T)) {} H U (Suc (6 * length (F # fs) + 3)) (pid ?T) s" using Cons.prems(2) by (simp add: numeral_eq_Suc)
      show ?thesis unfolding fuel(1)
        by (rule balance_finish [OF ps Cons.prems(1) st Cons.prems(3-5)]) (use False small in simp_all)
    next
      case True
      have st: "pool_state E (map_of (pages ?T)) {} H U (6 * length fs + 4 + 6) (pid ?T) s" using Cons.prems(2) by (simp add: algebra_simps)
      have c: "stepped E ps (Suc h) fs ?es (6 * length fs + 4) (redistribute_or_merge_page (pid t) (Some (fitem F)) y op_lsn s)"
        by (rule redistribute_or_merge_ok [OF ps Cons.prems(1) st Cons.prems(3-5) True])
      have nr: "pid t \<noteq> pid ?T" by (rule focus_not_root [OF Cons.prems(1)]) simp
      have run: "balance_loop fuel (pid t) y (rev (map fitem (F # fs))) op_lsn s =
          (case redistribute_or_merge_page (pid t) (Some (fitem F)) y op_lsn s of
             (Inl e, s') \<Rightarrow> (Inl e, s')
           | (Inr None, s') \<Rightarrow> (Inr (), s')
           | (Inr (Some (p, yp)), s') \<Rightarrow> balance_loop fuel' p yp (rev (map fitem fs)) op_lsn s')"
        using meta True small nr ps(2)
        by (simp add: fuel(1) bind_op_def Let_def is_page_overpopulated_def split: prod.split sum.split option.split)
      from c run next_level show ?thesis unfolding stepped_def by auto
    qed
  qed
qed

end
