(* ===== verification/Frames.thy ===== *)
theory Frames
  imports BTree
begin

text \<open>
  What the operations of the pool and the tree leave alone, by the calculus of \<open>keeps\<close>: reading never
  adds a dirty page, and the LSNs of cached pages always fit their field on disk. The operations of the
  pager touch neither the cache nor the tree's statistics.
\<close>

section \<open>LSNs that fit their field\<close>

lemma decode_page_lsn:
  assumes "decode_page data = Inr (Node n)"
  shows "last_modified_lsn n < 256 ^ 8"
proof (cases "32 \<le> length data")
  case False
  then show ?thesis
    using assms by (simp add: decode_page_def run_reader_def read_page_body_def bind_op_def read_struct_def unpack_from_def BufferReader_def)
next
  case True
  let ?l = "le_dec (take 8 (drop 16 data))"
  have "last_modified_lsn n = ?l"
    using assms True
    by (auto simp: decode_page_def run_reader_def read_page_body_def bind_op_def read_struct_def unpack_from_def BufferReader_def PAGE_HEADER_def
        split: if_splits prod.splits sum.splits)
  moreover have "?l < 256 ^ 8" using le_dec_bound [of "take 8 (drop 16 data)"] True by simp
  ultimately show ?thesis by simp
qed

definition lsns_fit :: "'z buffer_pool_scheme \<Rightarrow> bool" where
  "lsns_fit s \<longleftrightarrow> (\<forall>(p, e) \<in> set (bp_cache s). last_modified_lsn (cp_page e) < 256 ^ 8)"

lemma lsns_fit_simps [simp]:
  "lsns_fit (s\<lparr>bp_stats := st\<rparr>) = lsns_fit s" "lsns_fit (s\<lparr>pg_stats := ps\<rparr>) = lsns_fit s"
  by (simp_all add: lsns_fit_def)

text \<open>Operations of the pager leave the pool and the tree's statistics as they are.\<close>

definition keeps_pool :: "('z pager_scheme, 'a) op \<Rightarrow> bool" where
  "keeps_pool f \<longleftrightarrow> (\<forall>x. keeps (\<lambda>s. pager.more s = x) f)"

lemma keeps_poolI: "(\<And>x. keeps (\<lambda>s. pager.more s = x) f) \<Longrightarrow> keeps_pool f"
  by (simp add: keeps_pool_def)

lemma keeps_poolD: "keeps_pool f \<Longrightarrow> keeps (\<lambda>s. pager.more s = x) f"
  by (simp add: keeps_pool_def)

lemma keeps_pool_steps:
  "keeps_pool require_open" "keeps_pool require_meta" "keeps_pool (pg_bump_stat f)" "keeps_pool (update_meta g)"
  "keeps_pool (read_page p)" "keeps_pool (mark_freelist_page_dirty p fl)" "keeps_pool (forget_freelist_page p)"
  "keeps_pool extend_file_by_one_page"
  unfolding require_open_def require_meta_def pg_bump_stat_def update_meta_def read_page_def
    mark_freelist_page_dirty_def forget_freelist_page_def extend_file_by_one_page_def
  by (intro keeps_poolI keeps_rules keeps_modify; simp)+

lemma keeps_page_kind [keeps_rules]:
  "(\<And>n. keeps P (f n)) \<Longrightarrow> (\<And>fl. keeps P (g fl)) \<Longrightarrow> keeps P (case x of Node n \<Rightarrow> f n | Freelist fl \<Rightarrow> g fl)"
  "(\<And>l c ss. keeps P (f1 l c ss)) \<Longrightarrow> (\<And>l r ss. keeps P (g1 l r ss)) \<Longrightarrow>
     keeps P (case y of InternalPage l c ss \<Rightarrow> f1 l c ss | LeafPage l r ss \<Rightarrow> g1 l r ss)"
  by (auto split: page.split node.split)

lemma keeps_pool_allocator:
  "keeps_pool bump_allocate_one_page" "keeps_pool read_freelist_head_page"
  unfolding bump_allocate_one_page_def read_freelist_head_page_def get_freelist_page_def
  by (intro keeps_poolI keeps_rules keeps_modify keeps_pool_steps [THEN keeps_poolD]; simp)+

lemma keeps_pool_alloc:
  "keeps_pool allocate_page" "keeps_pool (free_page p)" "keeps_pool tree_page_size" "keeps_pool tree_root"
  unfolding allocate_page_def free_page_def free_page_new_head_def tree_page_size_def tree_root_def get_meta_def
  by (intro keeps_poolI keeps_rules keeps_pool_steps [THEN keeps_poolD] keeps_pool_allocator [THEN keeps_poolD])+

lemma keeps_from_pool:
  assumes "keeps_pool f" and "\<And>s s'. pager.more s' = pager.more s \<Longrightarrow> P s \<Longrightarrow> P s'"
  shows "keeps P f"
  using assms by (auto simp: keeps_def keeps_pool_def)

lemma keeps_bind_lift: "(\<And>a. r = Inr a \<Longrightarrow> keeps P (f a)) \<Longrightarrow> keeps P (bind_op (lift_r r) f)"
  by (auto simp: keeps_def bind_op_def split: sum.split)

lemma cache_entries_del: "set (cache_del p c) \<subseteq> set c"
  by (auto simp: cache_del_def)

lemma cache_entries_update: "x \<in> set (cache_update p f c) \<Longrightarrow> x \<in> set c \<or> (\<exists>e. (p, e) \<in> set c \<and> x = (p, f e))"
  by (auto simp: cache_update_def split: if_splits)

lemma cache_entries_move: "set (move_to_end p c) \<subseteq> set c"
  by (cases "map_of c p") (auto simp: move_to_end_def cache_del_def dest: map_of_SomeD)

section \<open>LSNs of cached pages\<close>

lemma lsns_keep_evict: "keeps lsns_fit evict_oldest_clean_page_if_full"
  unfolding evict_oldest_clean_page_if_full_def bp_bump_stat_def
  by (intro keeps_rules keeps_modify) (auto simp: lsns_fit_def cache_del_def)

lemma lsns_keep_pager: "keeps_pool f \<Longrightarrow> keeps lsns_fit f"
  by (erule keeps_from_pool) (auto simp: lsns_fit_def dest!: more_pool(1))

text \<open>An invariant of a fetch: kept by reordering the cache, by eviction and by loading a page.\<close>

lemma keeps_get:
  fixes P :: "'z buffer_pool_scheme \<Rightarrow> bool"
  assumes evict: "keeps P evict_oldest_clean_page_if_full" and read: "keeps P (read_page p)"
    and stats: "\<And>s st. P s \<Longrightarrow> P (s\<lparr>bp_stats := st\<rparr>)"
    and hit: "\<And>s e. P s \<Longrightarrow> P (s\<lparr>bp_cache := move_to_end p (bp_cache s)\<rparr>)"
    and miss: "\<And>s data n. P s \<Longrightarrow> decode_page data = Inr (Node n) \<Longrightarrow> P (s\<lparr>bp_cache := bp_cache s @ [(p, CachedPage n False)]\<rparr>)"
  shows "keeps P (pool_get p)"
proof -
  have bump: "keeps P (bp_bump_stat f)" for f unfolding bp_bump_stat_def by (intro keeps_modify stats)
  have tail: "keeps P (bind_op (lift_r (decode_page data)) (\<lambda>page. case page of
      Node n \<Rightarrow> bind_op (modify_op (\<lambda>s. s\<lparr>bp_cache := bp_cache s @ [(p, CachedPage n False)]\<rparr>)) (\<lambda>_.
        bind_op (bp_bump_stat (\<lambda>st. st\<lparr>cache_misses := cache_misses st + 1\<rparr>)) (\<lambda>_. ret n))
    | Freelist fl \<Rightarrow> raise AssertionError))" for data
    by (rule keeps_bind_lift) (auto split: page.split intro!: keeps_bind keeps_basic bump keeps_modify intro: miss)
  show ?thesis
    unfolding pool_get_def
    by (intro keeps_bind [OF keeps_basic(3)] keeps_cases(2) keeps_bind [OF evict] keeps_bind [OF read] tail
        keeps_bind [OF keeps_modify] keeps_bind [OF bump] keeps_basic(1) hit)
qed

lemma lsns_keep_get [keeps_rules]: "keeps lsns_fit (pool_get p)"
proof (rule keeps_get [OF lsns_keep_evict lsns_keep_pager [OF keeps_pool_steps(5)]])
  fix s :: "'z buffer_pool_scheme" and data n
  assume s: "lsns_fit s"
  show "lsns_fit (s\<lparr>bp_stats := st\<rparr>)" for st using s by simp
  show "lsns_fit (s\<lparr>bp_cache := move_to_end p (bp_cache s)\<rparr>)"
    using s cache_entries_move [of p "bp_cache s"] by (auto simp: lsns_fit_def)
  show "lsns_fit (s\<lparr>bp_cache := bp_cache s @ [(p, CachedPage n False)]\<rparr>)" if "decode_page data = Inr (Node n)"
    using s decode_page_lsn [OF that] by (auto simp: lsns_fit_def)
qed

lemma lsns_keep_pool [keeps_rules]:
  "keeps lsns_fit (mutate_page p x)" "keeps lsns_fit (pool_delete p)"
  "l < 256 ^ 8 \<Longrightarrow> keeps lsns_fit (pool_mark_dirty p l)" "l < 256 ^ 8 \<Longrightarrow> keeps lsns_fit (pool_insert p x l)"
  unfolding mutate_page_def pool_delete_def pool_mark_dirty_def pool_insert_def
  by (intro keeps_rules keeps_modify lsns_keep_evict;
      fastforce simp: lsns_fit_def mutate_entry_def mark_entry_dirty_def dest: cache_entries_update cache_entries_del [THEN subsetD])+

section \<open>Dirty pages\<close>

lemma dirty_entries_move: "dirty_entries (move_to_end p c) \<le> dirty_entries c"
proof (cases "map_of c p")
  case (Some e)
  have "dirty_entries (cache_del p c) + (if is_dirty e then 1 else 0) \<le> dirty_entries c" using Some
  proof (induction c)
    case (Cons a c)
    then show ?case using dirty_entries_del_le [of p c] by (cases a) (auto simp: cache_del_def split: if_splits)
  qed simp
  with Some show ?thesis by (simp add: move_to_end_def)
qed (simp add: move_to_end_def)

lemma dirty_keep_get [keeps_rules]: "keeps (\<lambda>s. dirty_count s \<le> d) (pool_get p)"
proof (rule keeps_get)
  show "keeps (\<lambda>s. dirty_count s \<le> d) evict_oldest_clean_page_if_full"
    unfolding evict_oldest_clean_page_if_full_def bp_bump_stat_def
    by (intro keeps_rules keeps_modify) (auto simp: dirty_count_def intro: le_trans [OF dirty_entries_del_le])
  show "keeps (\<lambda>s. dirty_count s \<le> d) (read_page p)"
    by (rule keeps_from_pool [OF keeps_pool_steps(5)]) (auto simp: dirty_count_def dest!: more_pool(1))
  fix s :: "'z buffer_pool_scheme" and data n
  assume s: "dirty_count s \<le> d"
  show "dirty_count (s\<lparr>bp_stats := st\<rparr>) \<le> d" for st using s by (simp add: dirty_count_def)
  show "dirty_count (s\<lparr>bp_cache := move_to_end p (bp_cache s)\<rparr>) \<le> d"
    using s dirty_entries_move [of p "bp_cache s"] by (simp add: dirty_count_def)
  show "dirty_count (s\<lparr>bp_cache := bp_cache s @ [(p, CachedPage n False)]\<rparr>) \<le> d"
    using s by (simp add: dirty_count_def)
qed

section \<open>Reading operations of the tree\<close>

lemma keeps_search:
  fixes P :: "'z tree_scheme \<Rightarrow> bool"
  assumes get: "\<And>p. keeps P (pool_get p)" and pager: "\<And>s s'. pager.more s' = pager.more s \<Longrightarrow> P s \<Longrightarrow> P s'"
  shows "keeps P (find_leaf key)" and "keeps P (tree_search key)" and "keeps P checker \<Longrightarrow> keeps P (scan_next a b checker cursor)"
proof -
  have loop: "keeps P (find_leaf_loop fuel k p page path)" for fuel k p page path
    by (induction fuel arbitrary: p page path) (case_tac page; simp; intro keeps_rules get; assumption)+
  have root: "keeps P tree_root" by (rule keeps_from_pool [OF keeps_pool_alloc(4) pager])
  show leaf: "keeps P (find_leaf key)" for key unfolding find_leaf_def by (intro keeps_rules root get loop)
  show "keeps P (tree_search key)" unfolding tree_search_def by (intro keeps_rules leaf)
  show "keeps P (scan_next a b checker cursor)" if checker: "keeps P checker"
  proof -
    have scan: "keeps P (scan_from fuel b checker page i)" for fuel page i
      by (induction fuel arbitrary: page i) (case_tac page; simp; intro keeps_rules conjI impI get checker; assumption?)+
    show ?thesis unfolding scan_next_def
      by (cases cursor) (simp_all, (intro keeps_rules leaf scan checker)+)
  qed
qed

lemma keeps_scan_take:
  assumes "\<And>c. keeps P (scan_next a b checker c)"
  shows "keeps P (scan_take n a b checker cursor)"
proof (induction n arbitrary: cursor)
  case (Suc n)
  then show ?case unfolding scan_take.simps by (intro keeps_rules assms)
qed (simp add: keeps_rules)

lemma dirty_keep_search:
  "keeps (\<lambda>s. dirty_count s \<le> d) (find_leaf key)" "keeps (\<lambda>s. dirty_count s \<le> d) (tree_search key)"
  "keeps (\<lambda>s. dirty_count s \<le> d) (scan_take n a b (ret ()) cursor)"
proof -
  have pager: "dirty_count s \<le> d \<Longrightarrow> dirty_count s' \<le> d" if "pager.more s' = pager.more s" for s s' :: "'z tree_scheme"
    using more_pool(1) [OF that] by (simp add: dirty_count_def)
  note * = keeps_search [OF dirty_keep_get pager]
  show "keeps (\<lambda>s :: 'z tree_scheme. dirty_count s \<le> d) (find_leaf key)" "keeps (\<lambda>s :: 'z tree_scheme. dirty_count s \<le> d) (tree_search key)"
    "keeps (\<lambda>s :: 'z tree_scheme. dirty_count s \<le> d) (scan_take n a b (ret ()) cursor)"
    by (intro * keeps_scan_take keeps_rules; assumption)+
qed

lemma lsns_keep_search:
  "keeps lsns_fit (find_leaf key)" "keeps lsns_fit (tree_search key)" "keeps lsns_fit (scan_take n a b (ret ()) cursor)"
proof -
  have pager: "lsns_fit s \<Longrightarrow> lsns_fit s'" if "pager.more s' = pager.more s" for s s' :: "'z tree_scheme"
    using more_pool(1) [OF that] by (simp add: lsns_fit_def)
  note * = keeps_search [OF lsns_keep_get pager]
  show "keeps (lsns_fit :: 'z tree_scheme \<Rightarrow> bool) (find_leaf key)" "keeps (lsns_fit :: 'z tree_scheme \<Rightarrow> bool) (tree_search key)"
    "keeps (lsns_fit :: 'z tree_scheme \<Rightarrow> bool) (scan_take n a b (ret ()) cursor)"
    by (intro * keeps_scan_take keeps_rules; assumption)+
qed

section \<open>Writing operations of the tree\<close>

lemma lsns_keep_alloc [keeps_rules]:
  "keeps lsns_fit allocate_page" "keeps lsns_fit (free_page p)" "keeps lsns_fit tree_page_size" "keeps lsns_fit tree_root"
  "keeps lsns_fit (update_meta g)"
  using keeps_pool_alloc keeps_pool_steps by (auto intro: lsns_keep_pager)

lemma lsns_keep_bump [keeps_rules]: "keeps lsns_fit (tr_bump_stat f)"
  unfolding tr_bump_stat_def by (intro keeps_modify) (simp add: lsns_fit_def)

lemma lsns_keep_split:
  assumes [keeps_rules]: "l < 256 ^ 8"
  shows "keeps lsns_fit (split_page p parent page l)"
  unfolding split_page_def attach_sibling_def by (intro keeps_rules)

lemma lsns_keep_redistribute:
  assumes l [keeps_rules]: "l < 256 ^ 8"
  shows "keeps lsns_fit (redistribute_from sibs p page parent_id parent i l)"
proof (induction sibs)
  case (Cons x sibs)
  consider b where "x = (b, None)" | b j n where "x = (b, Some (j, n))" by (metis option.exhaust surj_pair)
  then show ?case by cases (simp only: redistribute_from.simps try_redistribute_slots_def; intro keeps_rules Cons)+
qed (simp add: keeps_def)

lemma lsns_keep_merge:
  assumes l [keeps_rules]: "l < 256 ^ 8"
  shows "keeps lsns_fit (merge_with sibs p page parent_id parent i l)"
proof (induction sibs)
  case (Cons x sibs)
  consider b where "x = (b, None)" | b j n where "x = (b, Some (j, n))" by (metis option.exhaust surj_pair)
  then show ?case by cases (simp only: merge_with.simps merge_pages_def; intro keeps_rules Cons)+
qed (simp add: keeps_def)

lemma lsns_keep_step:
  assumes l: "l < 256 ^ 8"
  shows "keeps lsns_fit (redistribute_or_merge_page p item page l)"
proof (cases item)
  case (Some pi)
  have "keeps lsns_fit (determine_same_parent_siblings c slots i)" for c slots i
    unfolding determine_same_parent_siblings_def get_sibling_def by (intro keeps_rules)
  with Some show ?thesis
    by (cases pi) (simp add: redistribute_or_merge_page_def, intro keeps_rules lsns_keep_redistribute [OF l] lsns_keep_merge [OF l], assumption)
qed (simp add: redistribute_or_merge_page_def keeps_rules)

lemma lsns_keep_balance:
  assumes l: "l < 256 ^ 8"
  shows "keeps lsns_fit (balance_loop fuel p page path l)"
proof (induction fuel arbitrary: p page path)
  case (Suc fuel)
  show ?case unfolding balance_loop.simps by (intro keeps_rules lsns_keep_split lsns_keep_step l Suc)
qed (simp add: keeps_rules)

lemma lsns_keep_update:
  assumes l: "l < 256 ^ 8"
  shows "keeps lsns_fit (tree_insert key v l)" and "keeps lsns_fit (tree_delete key l)"
  unfolding tree_insert_def tree_delete_def raise_if_record_too_large_def balance_and_write_tree_def
  by (intro keeps_rules lsns_keep_search lsns_keep_balance [OF l])+

section \<open>Growth of the file\<close>

text \<open>
  \<open>grown k s s'\<close>: at most \<open>k\<close> pages were allocated, and of the data file nothing was written but bytes after its
  end. Every operation of the tree does no more than that (\<open>grows k f\<close>): pages in use are written by
  checkpoints only.
\<close>

named_theorems grows_rules

definition grown :: "nat \<Rightarrow> 'z pager_scheme \<Rightarrow> 'z pager_scheme \<Rightarrow> bool" where
  "grown k s s' \<longleftrightarrow> page_limit s \<le> page_limit s' \<and> page_limit s' \<le> page_limit s + k \<and>
     (\<exists>x. file_bytes s' = file_bytes s @ x)"

definition grows :: "nat \<Rightarrow> ('z pager_scheme, 'a) op \<Rightarrow> bool" where
  "grows k f \<longleftrightarrow> (\<forall>s. grown k s (snd (f s)))"

lemma grown_refl [simp]: "grown k s s"
  by (simp add: grown_def)

lemma grown_mono: "grown j s s' \<Longrightarrow> j \<le> k \<Longrightarrow> grown k s s'"
  by (auto simp: grown_def)

lemma grown_trans: "grown j s s' \<Longrightarrow> grown k s' s'' \<Longrightarrow> grown (j + k) s s''"
  by (auto simp: grown_def)

lemma grownI: "page_limit s' = page_limit s \<Longrightarrow> pg_disk s' = pg_disk s \<Longrightarrow> grown k s s'"
  by (simp add: grown_def file_bytes_def)

lemma growsD: "grows k f \<Longrightarrow> f s = (r, s') \<Longrightarrow> grown k s s'"
  unfolding grows_def by (metis snd_conv)

lemma grows_basic [grows_rules]:
  "grows k (ret a)" "grows k (raise e)" "grows k (gets_op g)" "grows k (lift_r r)" "grows k (assert_op b)"
  by (simp_all add: grows_def assert_op_def)

lemma grows_mono: "grows j f \<Longrightarrow> j \<le> k \<Longrightarrow> grows k f"
  by (auto simp: grows_def intro: grown_mono)

lemma grows_modify: "(\<And>s. page_limit (f s) = page_limit s \<and> pg_disk (f s) = pg_disk s) \<Longrightarrow> grows k (modify_op f)"
  by (simp add: grows_def grownI)

lemma grows_bind:
  assumes "grows j m" and "\<And>a. grows k (f a)"
  shows "grows (j + k) (bind_op m f)"
  unfolding grows_def
proof
  fix s
  obtain r s1 where m: "m s = (r, s1)" by (cases "m s")
  show "grown (j + k) s (snd (bind_op m f s))"
  proof (cases r)
    case (Inr a)
    obtain r2 s2 where "f a s1 = (r2, s2)" by (cases "f a s1")
    with grown_trans [OF growsD [OF assms(1) m] growsD [OF assms(2)]] m Inr show ?thesis by (auto simp: bind_op_def)
  qed (use grown_mono [OF growsD [OF assms(1) m]] m in \<open>simp add: bind_op_def\<close>)
qed

lemmas grows_bind0 = grows_bind [of 0, unfolded add_0]
lemmas grows_bind1 = grows_bind [of 1, unfolded plus_1_eq_Suc]

lemma grows_cases [grows_rules]:
  "(b \<Longrightarrow> grows k f) \<Longrightarrow> (\<not> b \<Longrightarrow> grows k g) \<Longrightarrow> grows k (if b then f else g)"
  "grows k f0 \<Longrightarrow> (\<And>x. grows k (f1 x)) \<Longrightarrow> grows k (case o1 of None \<Rightarrow> f0 | Some x \<Rightarrow> f1 x)"
  "(\<And>x y. grows k (f2 x y)) \<Longrightarrow> grows k (case xy of (x, y) \<Rightarrow> f2 x y)"
  "(\<And>x. grows k (f3 x)) \<Longrightarrow> grows k (Let v f3)"
  "(\<And>n. grows k (f4 n)) \<Longrightarrow> (\<And>fl. grows k (g4 fl)) \<Longrightarrow> grows k (case pg of Node n \<Rightarrow> f4 n | Freelist fl \<Rightarrow> g4 fl)"
  "(\<And>l c ss. grows k (f5 l c ss)) \<Longrightarrow> (\<And>l r ss. grows k (g5 l r ss)) \<Longrightarrow>
     grows k (case nd of InternalPage l c ss \<Rightarrow> f5 l c ss | LeafPage l r ss \<Rightarrow> g5 l r ss)"
  by (auto split: option.split prod.split page.split node.split)

text \<open>The steps that touch the meta page only in its other fields.\<close>

lemma page_limit_simps [simp]:
  "page_limit (s\<lparr>pg_disk := a\<rparr>) = page_limit s" "page_limit (s\<lparr>pg_stats := b\<rparr>) = page_limit s"
  "page_limit (s\<lparr>pg_freelist_cache := c\<rparr>) = page_limit s" "page_limit (s\<lparr>pg_dirty_freelist_page_ids := d\<rparr>) = page_limit s"
  "page_limit (s\<lparr>pg_is_meta_dirty := e\<rparr>) = page_limit s" "page_limit (s\<lparr>pg_durable := g\<rparr>) = page_limit s"
  "page_limit (s\<lparr>pg_meta := Some m\<rparr>) = next_page_id m"
  by (simp_all add: page_limit_def)

lemma page_limit_pool [simp]:
  "page_limit (t\<lparr>bp_cache := c\<rparr>) = page_limit t" "page_limit (t\<lparr>bp_stats := st\<rparr>) = page_limit t"
  "page_limit (t\<lparr>bp_eviction_enabled := ev\<rparr>) = page_limit t" "page_limit (u\<lparr>tr_stats := ts\<rparr>) = page_limit u"
  by (simp_all add: page_limit_def)

lemma grows_update_meta:
  "(\<And>m. next_page_id m \<le> next_page_id (g m) \<and> next_page_id (g m) \<le> next_page_id m + k) \<Longrightarrow> grows k (update_meta g)"
  by (auto simp: grows_def grown_def file_bytes_def update_meta_def require_meta_def bind_op_def page_limit_def split: option.split)

lemma grows_pager [grows_rules]:
  "grows 0 require_open" "grows 0 require_meta" "grows 0 get_meta" "grows 0 (pg_bump_stat f)" "grows 0 (read_page p)"
  "grows 0 (mark_freelist_page_dirty p fl)" "grows 0 (forget_freelist_page p)"
  "grows 0 tree_page_size" "grows 0 tree_root" "grows 0 (tr_bump_stat ts)" "grows 0 (bp_bump_stat ps)"
  unfolding require_open_def require_meta_def get_meta_def pg_bump_stat_def read_page_def mark_freelist_page_dirty_def
    forget_freelist_page_def tree_page_size_def tree_root_def tr_bump_stat_def bp_bump_stat_def
  by (intro grows_rules grows_bind0 grows_modify; simp)+

lemma grows_bump: "grows 1 (bump_allocate_one_page :: ('z pager_scheme, nat) op)"
proof -
  have "grown 1 s (snd (bump_allocate_one_page s))" for s :: "'z pager_scheme"
    by (auto simp: grown_def bump_allocate_one_page_def extend_file_by_one_page_def update_meta_def require_meta_def require_open_def
        pg_bump_stat_def bind_op_def page_limit_def file_bytes_def Let_def assert_op_def split: option.split prod.split sum.split if_splits)
  then show ?thesis by (simp add: grows_def)
qed

lemma grows_new_head: "grows 1 (free_page_new_head p)"
  unfolding free_page_new_head_def One_nat_def
  by (intro grows_bind1 [OF grows_bump] grows_bind0 grows_rules grows_update_meta) simp

lemma grows_head [grows_rules]: "grows 0 read_freelist_head_page"
  unfolding read_freelist_head_page_def get_freelist_page_def
  by (intro grows_bind0 grows_rules grows_modify) simp_all

lemma grows_alloc: "grows 1 allocate_page" "grows 1 (free_page p)"
  unfolding allocate_page_def free_page_def
  by (intro grows_bump grows_new_head grows_bind0 grows_rules grows_update_meta grows_pager [THEN grows_mono]; simp)+

lemma grows_pool [grows_rules]:
  "grows 0 (pool_get p)" "grows 0 (mutate_page p x)" "grows 0 (pool_delete p)" "grows 0 (pool_mark_dirty p l)" "grows 0 (pool_insert p x l)"
  unfolding pool_get_def mutate_page_def pool_delete_def pool_mark_dirty_def pool_insert_def evict_oldest_clean_page_if_full_def
  by (intro grows_bind0 grows_rules grows_modify; simp)+

lemma grows_split: "grows 2 (split_page p parent page l)"
proof -
  have "grows 1 (attach_sibling p parent k new l)" for k new
    unfolding attach_sibling_def One_nat_def
    by (intro grows_bind1 [OF grows_alloc(1)] grows_bind0 grows_rules grows_update_meta) simp
  then show ?thesis
    unfolding split_page_def numeral_2_eq_2
    by (intro grows_rules grows_bind1 [OF grows_alloc(1)] grows_bind0) simp_all
qed

lemma grows_merge_pages: "grows 2 (merge_pages into from probe parent_id parent sep l)"
proof -
  have drop: "grows 1 (bind_op (pool_delete p) (\<lambda>_. free_page p))" for p
    by (intro grows_bind0 grows_alloc grows_rules)
  show ?thesis
    unfolding merge_pages_def numeral_2_eq_2
    by (intro grows_rules grows_bind1 [OF drop] grows_bind0 grows_update_meta) simp
qed

lemma grows_redistribute: "grows 0 (redistribute_from sibs p page parent_id parent i l)"
proof (induction sibs)
  case (Cons x sibs)
  consider b where "x = (b, None)" | b j n where "x = (b, Some (j, n))" by (metis option.exhaust surj_pair)
  then show ?case
    by cases (simp only: redistribute_from.simps try_redistribute_slots_def; intro grows_rules grows_bind0 Cons)+
qed (simp add: grows_def)

lemma grows_merge: "grows 2 (merge_with sibs p page parent_id parent i l)"
proof (induction sibs)
  case (Cons x sibs)
  consider b where "x = (b, None)" | b j n where "x = (b, Some (j, n))" by (metis option.exhaust surj_pair)
  then show ?case
    by cases (simp only: merge_with.simps; intro grows_rules grows_bind0 grows_merge_pages Cons)+
qed (simp add: grows_def)

lemma grows_step: "grows 2 (redistribute_or_merge_page p item page l)"
proof (cases item)
  case (Some pi)
  have "grows 0 (determine_same_parent_siblings c slots i)" for c slots i
    unfolding determine_same_parent_siblings_def get_sibling_def by (intro grows_rules grows_bind0)
  with Some show ?thesis
    by (cases pi) (simp add: redistribute_or_merge_page_def, intro grows_rules grows_bind0 grows_redistribute grows_merge, assumption)
qed (simp add: redistribute_or_merge_page_def grows_def)

lemma grows_balance: "grows (2 * fuel) (balance_loop fuel p page path l)"
proof (induction fuel arbitrary: p page path)
  case (Suc fuel)
  have two: "2 * Suc fuel = 2 + 2 * fuel" by simp
  show ?case unfolding balance_loop.simps two
    by (intro grows_rules grows_bind [OF grows_split] grows_bind [OF grows_step] grows_bind0 Suc grows_pool [THEN grows_mono]) simp
qed (simp add: grows_def)

lemma grows_find [grows_rules]: "grows 0 (find_leaf key)"
proof -
  have "grows 0 (find_leaf_loop fuel key p page path)" for fuel p page path
    by (induction fuel arbitrary: p page path) (case_tac page; simp; intro grows_rules grows_bind0; assumption)+
  then show ?thesis unfolding find_leaf_def by (intro grows_rules grows_bind0)
qed

lemma grows_write:
  assumes "length path = h"
  shows "grows (2 * (h + 2)) (bind_op (mutate_page p x) (\<lambda>_. balance_and_write_tree p x path l))"
  unfolding balance_and_write_tree_def assms by (intro grows_bind0 grows_rules grows_balance)

end
