(* ===== verification/TreeOps.thy ===== *)
theory TreeOps
  imports TreeBalance Frames
begin

text \<open>
  Insertion, deletion and scans as a whole, on top of the descent (\<open>TreeShape\<close>) and the rebalancing loop
  (\<open>TreeBalance\<close>). \<open>tree_holds E h m n s\<close> says that the state \<open>s\<close> represents the map \<open>m\<close>; the operations of
  \<^verbatim>\<open>tree.py\<close> refine those of a map.
\<close>

section \<open>Changing a leaf\<close>

lemma leaf_focus_parts:
  assumes T: "tree_fine ps h (plugs gs (Lf p q ss))" and h: "length gs = h"
  shows "frames_depth 0 gs" "distinct (map fst (pages (plugs gs (Lf p q ss))))"
    "seq_fine ps (lseqs gs @ LeafI p q ss # rseqs gs)" "fine ps (root_id gs p) (outer gs p)" "32 + lsum ss \<le> ps"
proof -
  let ?T = "plugs gs (Lf p q ss)"
  have ok: "depth_ok h ?T" "distinct (map fst (pages ?T))" "seq_ok ps (leaf_seq ?T)"
    "fine ps (root_id gs p) (pages ?T)" "keys_short ps (leaf_seq ?T)"
    using T by (auto simp: tree_fine_def tree_ok_def pid_root_id)
  from depth_ok_plugsD [OF ok(1)] h show "frames_depth 0 gs" by auto
  show "distinct (map fst (pages ?T))" by fact
  show "seq_fine ps (lseqs gs @ LeafI p q ss # rseqs gs)" using ok(3,5) by (simp add: seq_fine_def leaf_seq_plugs)
  have "fine ps (root_id gs p) (outer gs p @ [(p, LeafPage 0 q ss)])"
    using ok(4) fine_perm [OF mset_pages_plugs, of ps "root_id gs p" gs "Lf p q ss"] by simp
  then show "fine ps (root_id gs p) (outer gs p)" "32 + lsum ss \<le> ps" by (simp_all add: page_good_def is_page_overpopulated_def)
qed

text \<open>The leaf may get other slots, as long as they keep the order, are not too large and do not outgrow the page by more than one.\<close>

lemma leaf_change:
  assumes T: "tree_fine ps h (plugs gs (Lf p q ss))" and h: "length gs = h"
    and srt: "sorted_wrt (<) (marks (lseqs gs @ LeafI p q ss' # rseqs gs))"
    and cap: "lcap ps ss'" and short: "\<forall>s \<in> set ss'. short_key ps (lkey s)" and size: "lsum ss' \<le> lsum ss + slot_cap ps"
  shows "focus_ok ps 0 gs (Lf p q ss')"
proof -
  note f = leaf_focus_parts [OF T h]
  have d: "distinct (map fst (pages (plugs gs (Lf p q ss'))))"
    using f(2) distinct_perm [OF mset_pages_plugs, of gs "Lf p q ss"] distinct_perm [OF mset_pages_plugs, of gs "Lf p q ss'"] by simp
  have "seq_fine ps (lseqs gs @ LeafI p q ss' # rseqs gs)"
    using f(3) srt cap short by (auto simp: seq_fine_def seq_ok_def keys_short_def lcap_def)
  then show ?thesis using f d size by (simp add: focus_ok_def leaf_seq_plugs)
qed

lemma sorted_around:
  assumes loc: "located key A B" and srt: "sorted_wrt (<) (marks (A @ LeafI p q (L @ M @ Rr) # B))"
    and L: "\<forall>x \<in> set L. lkey x < key" and R: "\<forall>x \<in> set Rr. key < lkey x" and M': "M' = [] \<or> M' = [LeafSlot key v]"
  shows "sorted_wrt (<) (marks (A @ LeafI p q (L @ M' @ Rr) # B))"
proof -
  let ?m = "\<lambda>s. (lkey s, True)"
  have base: "sorted_wrt (<) ((marks A @ map ?m L) @ map ?m M @ (map ?m Rr @ marks B))" using srt by simp
  have lo: "\<forall>m \<in> set (marks A @ map ?m L). m < (key, True)"
    using loc L by (fastforce simp: located_def mark_order)
  have hi: "\<forall>m \<in> set (map ?m Rr @ marks B). (key, True) < m"
    using loc R by (fastforce simp: located_def mark_order)
  from sorted_drop_mid [OF base] have "sorted_wrt (<) ((marks A @ map ?m L) @ (map ?m Rr @ marks B))" .
  with lo hi M' have "sorted_wrt (<) ((marks A @ map ?m L) @ map ?m M' @ (map ?m Rr @ marks B))"
    by (auto simp: sorted_wrt_append)
  then show ?thesis by simp
qed

text \<open>What the change does to the contents.\<close>

lemma map_of_around:
  assumes "\<forall>x \<in> set X. lkey x < key" and "\<forall>x \<in> set Y. key < lkey x" and "\<forall>x \<in> set M. lkey x = key"
  shows "map_of (map kv (X @ [LeafSlot key v] @ Y)) = (map_of (map kv (X @ M @ Y)))(key \<mapsto> v)"
    and "map_of (map kv (X @ Y)) = (map_of (map kv (X @ M @ Y)))(key := None)"
proof -
  have n: "map_of (map kv X) key = None" "map_of (map kv Y) key = None"
    using assms(1,2) by (auto intro!: map_of_kv_None)
  have m: "map_of (map kv M) k = None" if "k \<noteq> key" for k using assms(3) that by (auto intro!: map_of_kv_None)
  show "map_of (map kv (X @ [LeafSlot key v] @ Y)) = (map_of (map kv (X @ M @ Y)))(key \<mapsto> v)"
    using n m by (auto simp: fun_eq_iff map_add_def split: option.split)
  show "map_of (map kv (X @ Y)) = (map_of (map kv (X @ M @ Y)))(key := None)"
    using n m by (auto simp: fun_eq_iff map_add_def split: option.split)
qed

lemma write_leaf_ok:
  fixes s :: "'z tree_scheme"
  assumes ps: "129 \<le> ps" "env_page_size E = ps" and foc: "focus_ok ps 0 gs (Lf p q ss')"
    and st: "pool_state E (map_of (pages (plugs gs (Lf p q ss)))) {} H {} (6 * length gs + 4) (pid (plugs gs (Lf p q ss))) s"
    and p: "p \<in> H"
  shows "rebalanced E ps (entries (lseqs gs) @ ss' @ entries (rseqs gs))
     (bind_op (mutate_page p (LeafPage l q ss')) (\<lambda>_.
        balance_and_write_tree p (LeafPage l q ss') (rev (map fitem gs)) op_lsn) s)"
proof -
  let ?T = "plugs gs (Lf p q ss)" and ?T' = "plugs gs (Lf p q ss')"
  from pool.mutate_law [OF st p, of "LeafPage l q ss'"] obtain s1 where
    s1: "mutate_page p (LeafPage l q ss') s = (Inr (), s1)"
      "pool_state E ((map_of (pages ?T))(p \<mapsto> LeafPage 0 q ss')) {} H {p} (6 * length gs + 4) (pid ?T) s1" by auto
  have d: "distinct (map fst (pages ?T'))" using foc by (simp add: focus_ok_def)
  then have "distinct (map fst (pages ?T))"
    using distinct_perm [OF mset_focus, of gs "Lf p q ss"] distinct_perm [OF mset_focus, of gs "Lf p q ss'"] by simp
  with d have V: "map_of (pages ?T) = map_of ((p, LeafPage 0 q ss) # outer gs p)"
    "map_of (pages ?T') = map_of ((p, LeafPage 0 q ss') # outer gs p)"
    using map_of_perm(1) [OF _ mset_focus] by simp_all
  then have V': "(map_of (pages ?T))(p \<mapsto> LeafPage 0 q ss') = map_of (pages ?T')" by simp
  have root: "pid ?T = pid ?T'" by (simp add: pid_plugs)
  have "rebalanced E ps (entries (leaf_seq ?T'))
      (balance_loop (length gs + 2) (pid (Lf p q ss')) (LeafPage l q ss') (rev (map fitem gs)) op_lsn s1)"
    by (rule balance_loop_ok [OF ps foc s1(2) [unfolded V' root]]) (use p in simp_all)
  then show ?thesis using s1(1) by (simp add: bind_op_def balance_and_write_tree_def leaf_seq_plugs)
qed

section \<open>The tree as a map\<close>

text \<open>
  The pool holds a well-formed tree of height \<open>h\<close> whose contents are the map \<open>m\<close>, and has room for \<open>n\<close>
  more pages. The page size is at least 129 (with smaller ones a page need not have room for two records
  and rebalancing fails).
\<close>

definition tree_holds :: "store_env \<Rightarrow> nat \<Rightarrow> (bytes \<rightharpoonup> bytes) \<Rightarrow> nat \<Rightarrow> 'z tree_scheme \<Rightarrow> bool" where
  "tree_holds E h m n s \<longleftrightarrow> 129 \<le> env_page_size E \<and> (\<exists>T. tree_fine (env_page_size E) h T \<and> contents T = m \<and>
     pool_state E (map_of (pages T)) {} {} {} n (pid T) s)"

lemma rebalanced_holds:
  assumes "rebalanced E (env_page_size E) es (Inr (), s')" and "129 \<le> env_page_size E" and "map_of (map kv es) = m"
  shows "\<exists>h'. tree_holds E h' m 0 s'"
proof -
  from assms(1) obtain T h H where T: "tree_fine (env_page_size E) h T" "entries (leaf_seq T) = es"
    "pool_state E (map_of (pages T)) {} H {} 0 (pid T) s'" by (auto simp: rebalanced_def)
  from pool.weaken [OF T(3), of "{}" 0] T(1,2) assms(2,3) show ?thesis by (auto simp: tree_holds_def contents_def)
qed

text \<open>
  The descent to the leaf of a key: what lies left and right of the key, and that writing another version
  of the leaf rebalances into a well-formed tree.
\<close>

lemma descend_and_write:
  fixes s :: "'z tree_scheme"
  assumes holds: "tree_holds E h m (7 * h + 5) s"
  obtains p l q L M Rr A B path s1 where
    "find_leaf key s = (Inr (LeafSearchResult p (LeafPage l q (L @ M @ Rr)) path), s1)"
    "\<forall>x \<in> set L. lkey x < key" "\<forall>x \<in> set Rr. key < lkey x" "sorted_wrt (<) (map lkey (L @ Rr))"
    "length L = bisect_left (map lkey (L @ M @ Rr)) key"
    "if slot_has_key (L @ M @ Rr) (length L) key then \<exists>v. M = [LeafSlot key v] else M = []"
    "m = map_of (map kv ((A @ L) @ M @ (Rr @ B)))"
    "\<forall>x \<in> set (A @ L). lkey x < key" "\<forall>x \<in> set (Rr @ B). key < lkey x"
    "tree_holds E h m (6 * h + 4) s1"
    "\<And>M' v. M' = [] \<or> M' = [LeafSlot key v] \<and> short_key (env_page_size E) key \<and>
       calculate_leaf_slot_size (LeafSlot key v) True \<le> slot_cap (env_page_size E) \<Longrightarrow>
     rebalanced E (env_page_size E) (A @ (L @ M' @ Rr) @ B)
       (bind_op (mutate_page p (LeafPage l q (L @ M' @ Rr))) (\<lambda>_.
          balance_and_write_tree p (LeafPage l q (L @ M' @ Rr)) path op_lsn) s1)"
proof -
  let ?ps = "env_page_size E"
  from holds obtain T where T: "129 \<le> ?ps" "tree_fine ?ps h T" "contents T = m"
    "pool_state E (map_of (pages T)) {} {} {} (Suc (6 * h + 4 + h)) (pid T) s"
    by (auto simp: tree_holds_def algebra_simps)
  have ok: "tree_ok ?ps h T" using T(2) by (simp add: tree_fine_def)
  from find_leaf_ok [OF T(4) ok, of key] obtain gs p q ss l H' s' where
    *: "find_leaf key s = (Inr (LeafSearchResult p (LeafPage l q ss) (rev (map fitem gs))), s')"
      "plugs gs (Lf p q ss) = T" "length gs = h" "located key (lseqs gs) (rseqs gs)"
      "pool_state E (map_of (pages T)) {} H' {} (6 * h + 4) (pid T) s'" "{} \<subseteq> H'" "p \<in> H'"
    by (rule foundE)
  have tf: "tree_fine ?ps h (plugs gs (Lf p q ss))" using T(2) *(2) by simp
  note parts = leaf_focus_parts [OF tf *(3)]
  have fine: "seq_fine ?ps (lseqs gs @ LeafI p q ss # rseqs gs)" by (rule parts(3))
  then have srt: "sorted_wrt (<) (map lkey ss)" by (auto simp: seq_fine_def intro: leaf_in_tree_sorted)
  obtain L M Rr where ss: "ss = L @ M @ Rr" "\<forall>x \<in> set L. lkey x < key" "\<forall>x \<in> set Rr. key < lkey x"
    "length L = bisect_left (map lkey ss) key" "if slot_has_key ss (length L) key then \<exists>v. M = [LeafSlot key v] else M = []"
    by (rule leaf_position [OF srt refl, where key = key]) metis
  let ?A = "entries (lseqs gs)" and ?B = "entries (rseqs gs)"
  note le = located_entries [OF *(4)]
  have m: "m = map_of (map kv ((?A @ L) @ M @ (Rr @ ?B)))"
    using T(3) *(2) by (auto simp: contents_def leaf_seq_plugs ss(1))
  have holds': "tree_holds E h m (6 * h + 4) s'"
    using T pool.weaken [OF *(5), of "{}"] by (auto simp: tree_holds_def)
  have wr: "rebalanced E ?ps (?A @ (L @ M' @ Rr) @ ?B)
       (bind_op (mutate_page p (LeafPage l q (L @ M' @ Rr))) (\<lambda>_.
          balance_and_write_tree p (LeafPage l q (L @ M' @ Rr)) (rev (map fitem gs)) op_lsn) s')"
    if M': "M' = [] \<or> M' = [LeafSlot key v] \<and> short_key ?ps key \<and>
       calculate_leaf_slot_size (LeafSlot key v) True \<le> slot_cap ?ps" for M' v
  proof -
    have so: "sorted_wrt (<) (marks (lseqs gs @ LeafI p q (L @ M' @ Rr) # rseqs gs))"
      by (rule sorted_around [OF *(4) _ ss(2,3)]) (use fine ss(1) M' in \<open>auto simp: seq_fine_def seq_ok_def\<close>)
    have cap: "lcap ?ps ss" using fine by (auto simp: seq_fine_def seq_ok_def lcap_def)
    have short: "\<forall>s \<in> set ss. short_key ?ps (lkey s)" using fine by (simp add: seq_fine_def keys_short_def ball_Un)
    have foc: "focus_ok ?ps 0 gs (Lf p q (L @ M' @ Rr))"
      by (rule leaf_change [OF tf *(3) so]) (use cap short M' in \<open>auto simp: ss(1)\<close>)
    show ?thesis
      by (rule write_leaf_ok [where ss = ss, OF T(1) refl foc _ *(7)]) (use *(2,3,5) in simp)
  qed
  show thesis
    by (rule that [OF *(1) [unfolded ss(1)] ss(2,3) _ _ _ m _ _ holds' wr])
      (use ss srt le in \<open>auto simp: sorted_wrt_append\<close>)
qed

lemma record_fits_cap:
  "int (calculate_leaf_record_size key v) \<le> get_max_leaf_record_size ps \<Longrightarrow>
     calculate_leaf_slot_size (LeafSlot key v) True \<le> slot_cap ps"
  by (auto simp: calculate_leaf_record_size_def get_max_leaf_record_size_def calculate_leaf_slot_size_def slot_cap_def)

lemma tree_holds_size: "tree_holds E h m n s \<Longrightarrow> tree_page_size s = (Inr (env_page_size E), s)"
  by (auto simp: tree_holds_def dest: tree_meta(2))

lemma raise_if_record_too_large_ok:
  fixes s :: "'z tree_scheme"
  assumes "tree_holds E h m n s"
  shows "raise_if_record_too_large key v s =
     (if int (calculate_leaf_record_size key v) \<le> get_max_leaf_record_size (env_page_size E) then (Inr (), s)
      else (Inl (DBRecordTooLargeError (get_max_leaf_record_size (env_page_size E))
                   (int (calculate_leaf_record_size key v))), s))"
  using tree_holds_size [OF assms] by (simp add: raise_if_record_too_large_def bind_op_def)

lemma set_slots_around:
  assumes pos: "if slot_has_key (L @ M @ Rr) (length L) key then \<exists>v. M = [LeafSlot key v] else M = []"
    and L: "\<forall>x \<in> set L. lkey x < key" and R: "\<forall>x \<in> set Rr. key < lkey x" and srt: "sorted_wrt (<) (map lkey (L @ Rr))"
  shows "(if slot_has_key (L @ M @ Rr) (length L) key then (L @ M @ Rr)[length L := LeafSlot key v]
          else insort_by lkey (L @ M @ Rr) (LeafSlot key v)) = L @ [LeafSlot key v] @ Rr"
    and "slot_has_key (L @ M @ Rr) (length L) key \<Longrightarrow> take (length L) (L @ M @ Rr) @ drop (length L + 1) (L @ M @ Rr) = L @ [] @ Rr"
  using assms insort_position [OF srt L R, of v] by (auto split: if_splits)

lemma tree_insert_ok:
  fixes s :: "'z tree_scheme"
  assumes holds: "tree_holds E h m (7 * h + 5) s" and short: "short_key (env_page_size E) key"
    and fits: "int (calculate_leaf_record_size key v) \<le> get_max_leaf_record_size (env_page_size E)"
  shows "\<exists>h' s'. tree_insert key v op_lsn s = (Inr (), s') \<and> tree_holds E h' (m(key \<mapsto> v)) 0 s'"
proof -
  let ?ps = "env_page_size E"
  from holds obtain p l q L M Rr A B path s1 where
    *: "find_leaf key s = (Inr (LeafSearchResult p (LeafPage l q (L @ M @ Rr)) path), s1)"
    "\<forall>x \<in> set L. lkey x < key" "\<forall>x \<in> set Rr. key < lkey x" "sorted_wrt (<) (map lkey (L @ Rr))"
    "length L = bisect_left (map lkey (L @ M @ Rr)) key"
    "if slot_has_key (L @ M @ Rr) (length L) key then \<exists>v. M = [LeafSlot key v] else M = []"
    "m = map_of (map kv ((A @ L) @ M @ (Rr @ B)))"
    "\<forall>x \<in> set (A @ L). lkey x < key" "\<forall>x \<in> set (Rr @ B). key < lkey x"
    "\<And>M' v. M' = [] \<or> M' = [LeafSlot key v] \<and> short_key ?ps key \<and>
       calculate_leaf_slot_size (LeafSlot key v) True \<le> slot_cap ?ps \<Longrightarrow>
     rebalanced E ?ps (A @ (L @ M' @ Rr) @ B)
       (bind_op (mutate_page p (LeafPage l q (L @ M' @ Rr))) (\<lambda>_.
          balance_and_write_tree p (LeafPage l q (L @ M' @ Rr)) path op_lsn) s1)"
    by (rule descend_and_write [where key = key and op_lsn = op_lsn]) blast
  let ?new = "LeafPage l q (L @ [LeafSlot key v] @ Rr)"
  have run: "tree_insert key v op_lsn s = bind_op (mutate_page p ?new) (\<lambda>_. balance_and_write_tree p ?new path op_lsn) s1"
    unfolding tree_insert_def bind_op_def [of "raise_if_record_too_large key v"] bind_op_def [of "find_leaf key"]
    using raise_if_record_too_large_ok [OF holds, of key v] fits *(1) *(5) [symmetric] set_slots_around(1) [OF *(6,2,3,4), of v] by (simp add: Let_def split: if_splits)
  have reb: "rebalanced E ?ps (A @ (L @ [LeafSlot key v] @ Rr) @ B) (tree_insert key v op_lsn s)"
    unfolding run by (rule *(10) [where v = v]) (use short record_fits_cap [OF fits] in simp)
  have "\<forall>x \<in> set M. lkey x = key" using *(6) by (auto split: if_splits)
  from map_of_around(1) [OF *(8,9) this, of v] have "map_of (map kv (A @ (L @ [LeafSlot key v] @ Rr) @ B)) = m(key \<mapsto> v)"
    using *(7) by simp
  moreover obtain s' where "tree_insert key v op_lsn s = (Inr (), s')" using reb by (auto simp: rebalanced_def)
  ultimately show ?thesis using rebalanced_holds [of E _ s'] reb holds by (auto simp: tree_holds_def)
qed

lemma tree_delete_ok:
  fixes s :: "'z tree_scheme"
  assumes holds: "tree_holds E h m (7 * h + 5) s"
  shows "\<exists>h' s'. tree_delete key op_lsn s = (Inr (m key \<noteq> None), s') \<and> tree_holds E h' (m(key := None)) 0 s'"
proof -
  let ?ps = "env_page_size E"
  from holds obtain p l q L M Rr A B path s1 where
    *: "find_leaf key s = (Inr (LeafSearchResult p (LeafPage l q (L @ M @ Rr)) path), s1)"
    "\<forall>x \<in> set L. lkey x < key" "\<forall>x \<in> set Rr. key < lkey x" "sorted_wrt (<) (map lkey (L @ Rr))"
    "length L = bisect_left (map lkey (L @ M @ Rr)) key"
    "if slot_has_key (L @ M @ Rr) (length L) key then \<exists>v. M = [LeafSlot key v] else M = []"
    "m = map_of (map kv ((A @ L) @ M @ (Rr @ B)))"
    "\<forall>x \<in> set (A @ L). lkey x < key" "\<forall>x \<in> set (Rr @ B). key < lkey x"
    "tree_holds E h m (6 * h + 4) s1"
    "\<And>M' v. M' = [] \<or> M' = [LeafSlot key v] \<and> short_key ?ps key \<and>
       calculate_leaf_slot_size (LeafSlot key v) True \<le> slot_cap ?ps \<Longrightarrow>
     rebalanced E ?ps (A @ (L @ M' @ Rr) @ B)
       (bind_op (mutate_page p (LeafPage l q (L @ M' @ Rr))) (\<lambda>_.
          balance_and_write_tree p (LeafPage l q (L @ M' @ Rr)) path op_lsn) s1)"
    by (rule descend_and_write [where key = key and op_lsn = op_lsn]) blast
  have M: "\<forall>x \<in> set M. lkey x = key" using *(6) by (auto split: if_splits)
  note del = map_of_around(2) [OF *(8,9) M, folded *(7)]
  have key: "m key \<noteq> None \<longleftrightarrow> M \<noteq> []"
  proof (cases "M = []")
    case True
    with *(7) have "m = map_of (map kv ((A @ L) @ Rr @ B))" by simp
    with del show ?thesis using True by (metis fun_upd_same)
  next
    case False
    then obtain w where "M = [LeafSlot key w]" using *(6) by (auto split: if_splits)
    with map_of_around(1) [OF *(8,9), of "[]" w] *(7) show ?thesis by simp
  qed
  show ?thesis
  proof (cases "slot_has_key (L @ M @ Rr) (length L) key")
    case False
    then have "M = []" using *(6) by simp
    with key have "m key = None" by simp
    then have "m(key := None) = m" by (auto simp: fun_eq_iff)
    moreover have "tree_delete key op_lsn s = (Inr False, s1)"
      using *(1) *(5) [symmetric] False by (simp add: tree_delete_def bind_op_def Let_def)
    moreover have "tree_holds E h m 0 s1" using *(10) pool.weaken [of E _ "{}" "{}" "{}" "6 * h + 4" _ s1 "{}" 0]
      unfolding tree_holds_def by blast
    ultimately show ?thesis using key \<open>M = []\<close> by auto
  next
    case True
    then obtain w where "M = [LeafSlot key w]" using *(6) by auto
    with key have k: "m key \<noteq> None" by simp
    let ?new = "LeafPage l q (L @ [] @ Rr)"
    have run: "tree_delete key op_lsn s =
        bind_op (bind_op (mutate_page p ?new) (\<lambda>_. balance_and_write_tree p ?new path op_lsn)) (\<lambda>_. ret True) s1"
      unfolding tree_delete_def bind_op_def [of "find_leaf key"]
      using *(1) *(5) [symmetric] True set_slots_around(2) [OF *(6,2,3,4) True] by (simp add: Let_def bind_op_assoc)
    have reb: "rebalanced E ?ps (A @ (L @ [] @ Rr) @ B)
        (bind_op (mutate_page p ?new) (\<lambda>_. balance_and_write_tree p ?new path op_lsn) s1)"
      by (rule *(11)) simp
    then obtain s' where s': "bind_op (mutate_page p ?new) (\<lambda>_. balance_and_write_tree p ?new path op_lsn) s1 = (Inr (), s')"
      by (auto simp: rebalanced_def)
    have "map_of (map kv (A @ (L @ [] @ Rr) @ B)) = m(key := None)" using del by simp
    from rebalanced_holds [OF reb [unfolded s'] _ this] obtain h' where "tree_holds E h' (m(key := None)) 0 s'"
      using holds by (auto simp: tree_holds_def)
    moreover have "tree_delete key op_lsn s = (Inr True, s')" unfolding run bind_op_def [of "bind_op _ _"] s' by simp
    ultimately show ?thesis using k by auto
  qed
qed

section \<open>Room in the pool\<close>

lemma pool_state_room:
  "pool_state E V R {} {} n r s \<longleftrightarrow>
     pool_state E V R {} {} 0 r s \<and> (env_evicting E \<longrightarrow> n \<noteq> 0 \<longrightarrow> dirty_count s + n \<le> env_capacity E)"
  by (auto simp: pool_state_def pool_ok_def cache_ok_def dirty_count_def)

lemma tree_holds_room:
  "tree_holds E h m n s \<longleftrightarrow> tree_holds E h m 0 s \<and> (env_evicting E \<longrightarrow> n \<noteq> 0 \<longrightarrow> dirty_count s + n \<le> env_capacity E)"
  unfolding tree_holds_def using pool_state_room [of E _ "{}" n _ s] by blast

lemma tree_holds_keep:
  assumes "tree_holds E h m n s" and "tree_holds E h m 0 s'" and "dirty_count s' \<le> dirty_count s"
  shows "tree_holds E h m n s'"
  using assms tree_holds_room [of E h m n s] tree_holds_room [of E h m n s'] by auto

lemma tree_search_holds:
  fixes s :: "'z tree_scheme"
  assumes holds: "tree_holds E h m n s" and n: "Suc h \<le> n"
  shows "\<exists>s'. tree_search key s = (Inr (m key), s') \<and> tree_holds E h m n s' \<and> dirty_count s' \<le> dirty_count s"
proof -
  from holds obtain T where T: "129 \<le> env_page_size E" "tree_fine (env_page_size E) h T" "contents T = m"
    "pool_state E (map_of (pages T)) {} {} {} n (pid T) s" by (auto simp: tree_holds_def)
  have st: "pool_state E (map_of (pages T)) {} {} {} (Suc (0 + h)) (pid T) s" by (rule pool.weaken [OF T(4)]) (use n in simp_all)
  have ok: "tree_ok (env_page_size E) h T" using T(2) by (simp add: tree_fine_def)
  from tree_search_ok [OF st ok, of key] T(3) obtain H' s' where
    s': "tree_search key s = (Inr (m key), s')" "pool_state E (map_of (pages T)) {} H' {} 0 (pid T) s'" by auto
  have "tree_holds E h m 0 s'" using T pool.weaken [OF s'(2), of "{}" 0] by (auto simp: tree_holds_def)
  moreover have "dirty_count s' \<le> dirty_count s" by (rule keepsD [OF dirty_keep_search(2) s'(1)]) simp
  ultimately show ?thesis using s'(1) tree_holds_keep [OF holds] by blast
qed

section \<open>Scans\<close>

text \<open>The pairs with keys in the half-open range, in key order.\<close>

definition in_range :: "bytes option \<Rightarrow> bytes option \<Rightarrow> bytes \<Rightarrow> bool" where
  "in_range a b k \<longleftrightarrow> (case a of None \<Rightarrow> True | Some a \<Rightarrow> a \<le> k) \<and> (case b of None \<Rightarrow> True | Some b \<Rightarrow> k < b)"

definition map_range :: "(bytes \<rightharpoonup> bytes) \<Rightarrow> bytes option \<Rightarrow> bytes option \<Rightarrow> (bytes \<times> bytes) list" where
  "map_range m a b = map (\<lambda>k. (k, the (m k))) (sorted_list_of_set {k \<in> dom m. in_range a b k})"

definition past :: "bytes option \<Rightarrow> leaf_slot \<Rightarrow> bool" where
  "past b x \<longleftrightarrow> (case b of None \<Rightarrow> False | Some b \<Rightarrow> b \<le> lkey x)"

fun nleaves :: "item list \<Rightarrow> nat" where
  "nleaves [] = 0"
| "nleaves (LeafI p q ss # xs) = Suc (nleaves xs)"
| "nleaves (Sep k # xs) = nleaves xs"

text \<open>The leaves of a part of a sequence are in the store.\<close>

definition leaves_in :: "(nat \<rightharpoonup> node) \<Rightarrow> item list \<Rightarrow> bool" where
  "leaves_in V B \<longleftrightarrow> (\<forall>p q ss. LeafI p q ss \<in> set B \<longrightarrow> 0 < p \<and> V p = Some (LeafPage 0 q ss))"

text \<open>The entries a suspended scan has still to visit.\<close>

definition scan_rest :: "(nat \<rightharpoonup> node) \<Rightarrow> nat \<Rightarrow> scan_cursor \<Rightarrow> leaf_slot list \<Rightarrow> bool" where
  "scan_rest V d cursor es \<longleftrightarrow> (\<exists>p l q ss i B. cursor = ScanAt (LeafPage l q ss) i \<and> es = drop i ss @ entries B \<and>
     linked 0 (LeafI p q ss # B) \<and> leaves_in V B \<and> nleaves B \<le> d)"

lemma leaves_in_simps [simp]: "leaves_in V (Sep k # B) = leaves_in V B"
  "leaves_in V (LeafI p q ss # B) \<longleftrightarrow> 0 < p \<and> V p = Some (LeafPage 0 q ss) \<and> leaves_in V B" "leaves_in V []"
  by (auto simp: leaves_in_def)

text \<open>The next leaf of a sequence.\<close>

lemma next_leaf:
  "linked z (LeafI p q ss # B) \<Longrightarrow> (\<exists>q' ss' B'. linked z (LeafI q q' ss' # B') \<and> entries B = ss' @ entries B' \<and>
     LeafI q q' ss' \<in> set B \<and> set B' \<subseteq> set B \<and> nleaves B' < nleaves B) \<or> q = z \<and> entries B = []"
proof (induction B)
  case (Cons x B)
  then show ?case by (cases x) fastforce+
qed simp

definition scan_step_ok ::
  "(nat \<rightharpoonup> node) \<Rightarrow> nat \<Rightarrow> bytes option \<Rightarrow> leaf_slot list \<Rightarrow> (bytes \<times> bytes) option \<Rightarrow> scan_cursor \<Rightarrow> bool" where
  "scan_step_ok V d b es item cursor \<longleftrightarrow> (case es of [] \<Rightarrow> item = None
      | x # xs \<Rightarrow> if past b x then item = None else item = Some (kv x) \<and> scan_rest V d cursor xs)"

lemma scan_from_here:
  "i < length ss \<Longrightarrow> scan_from fuel b (ret ()) (LeafPage l q ss) i s =
     (Inr (if past b (ss ! i) then (None, ScanDone) else (Some (kv (ss ! i)), ScanAt (LeafPage l q ss) (i + 1))), s)"
  by (simp add: past_def bind_op_def split: option.split)

lemma scan_from_ok:
  fixes s :: "'z tree_scheme"
  assumes "pool_state E V R {} {} (Suc n) r s" and "linked 0 (LeafI p q ss # B)" and "leaves_in V B"
    and "nleaves B \<le> fuel" and "nleaves B \<le> d"
  shows "\<exists>item cursor s'. scan_from fuel b (ret ()) (LeafPage l q ss) i s = (Inr (item, cursor), s') \<and>
     pool_state E V R {} {} (Suc n) r s' \<and> scan_step_ok V d b (drop i ss @ entries B) item cursor"
  using assms
proof (induction "nleaves B" arbitrary: p q ss B l i s fuel rule: less_induct)
  case less
  consider "i < length ss" | "length ss \<le> i" "q = 0" "entries B = []" | "length ss \<le> i" "q \<noteq> 0" by (metis next_leaf [OF less.prems(2)] leaves_in_def less.prems(3) not_le not_gr_zero)
  then show ?case
  proof cases
    case 1
    then have "drop i ss = ss ! i # drop (i + 1) ss" by (simp add: Cons_nth_drop_Suc)
    then have "scan_step_ok V d b (drop i ss @ entries B) (if past b (ss ! i) then None else Some (kv (ss ! i)))
        (if past b (ss ! i) then ScanDone else ScanAt (LeafPage l q ss) (i + 1))"
      using less.prems(2,3,5) unfolding scan_step_ok_def scan_rest_def by auto
    then show ?thesis using scan_from_here [OF 1, of fuel b l q s] less.prems(1) by (auto split: if_splits)
  next
    case 2
    then show ?thesis using less.prems(1) by (auto simp: scan_step_ok_def)
  next
    case 3
    with next_leaf [OF less.prems(2)] obtain q' ss' B' where
      B': "linked 0 (LeafI q q' ss' # B')" "entries B = ss' @ entries B'" "LeafI q q' ss' \<in> set B" "set B' \<subseteq> set B" "nleaves B' < nleaves B"
      by auto
    have V: "V q = Some (LeafPage 0 q' ss')" "leaves_in V B'" using less.prems(3) B'(3,4) by (auto simp: leaves_in_def)
    from B'(5) less.prems(4) obtain fuel' where fuel: "fuel = Suc fuel'" "nleaves B' \<le> fuel'" by (cases fuel) auto
    from pool.fetch_law [OF less.prems(1) V(1)] obtain y s1 where
      s1: "pool_get q s = (Inr y, s1)" "strip y = LeafPage 0 q' ss'" "pool_state E V R {q} {} n r s1" by auto
    obtain l' where y: "y = LeafPage l' q' ss'" using strip_leaf [OF s1(2)] by auto
    have "dirty_count s1 \<le> dirty_count s" by (rule keepsD [OF dirty_keep_get s1(1)]) simp
    then have st: "pool_state E V R {} {} (Suc n) r s1"
      using pool.weaken [OF s1(3), of "{}" 0] less.prems(1) pool_state_room [of E V R "Suc n" r s] pool_state_room [of E V R "Suc n" r s1] by auto
    have "scan_from fuel b (ret ()) (LeafPage l q ss) i s = scan_from fuel' b (ret ()) (LeafPage l' q' ss') 0 s1"
      using 3 s1(1) by (simp add: fuel(1) y bind_op_def)
    moreover have "drop i ss @ entries B = drop 0 ss' @ entries B'" using 3 B'(2) by simp
    moreover have "nleaves B' \<le> d" using B'(5) less.prems(5) by simp
    ultimately show ?thesis using less.hyps [OF B'(5) st B'(1) V(2) fuel(2), of l' 0] by simp
  qed
qed

lemma scan_take_Suc:
  fixes s s' :: "'z tree_scheme"
  assumes step: "scan_next a b (ret ()) cursor s = (Inr (item, cursor'), s')" and st: "pool_state E V R {} {} (Suc n) r s'"
    and ok: "scan_step_ok V d b es item cursor'"
    and rest: "\<And>es. scan_rest V d cursor' es \<Longrightarrow> \<exists>s''. scan_take k a b (ret ()) cursor' s' =
       (Inr (take k (map kv (takeWhile (\<lambda>x. \<not> past b x) es))), s'') \<and> pool_state E V R {} {} (Suc n) r s''"
  shows "\<exists>s''. scan_take (Suc k) a b (ret ()) cursor s = (Inr (take (Suc k) (map kv (takeWhile (\<lambda>x. \<not> past b x) es))), s'') \<and>
     pool_state E V R {} {} (Suc n) r s''"
proof -
  have run: "scan_take (Suc k) a b (ret ()) cursor s = (case item of None \<Rightarrow> (Inr [], s')
      | Some pair \<Rightarrow> bind_op (scan_take k a b (ret ()) cursor') (\<lambda>pairs. ret (pair # pairs)) s')"
    unfolding scan_take.simps bind_op_def [of "scan_next a b (ret ()) cursor"] step by (simp split: option.split)
  consider "es = []" | x xs where "es = x # xs" "past b x" | x xs where "es = x # xs" "\<not> past b x" by (metis list.exhaust)
  then show ?thesis
  proof cases
    case 3
    with ok have item: "item = Some (kv x)" and sr: "scan_rest V d cursor' xs" by (simp_all add: scan_step_ok_def)
    from rest [OF sr] obtain s'' where
      "scan_take k a b (ret ()) cursor' s' = (Inr (take k (map kv (takeWhile (\<lambda>x. \<not> past b x) xs))), s'')"
      "pool_state E V R {} {} (Suc n) r s''" by blast
    with 3 show ?thesis unfolding run item option.case bind_op_def by simp
  qed (use ok st in \<open>simp_all add: run scan_step_ok_def del: scan_take.simps\<close>)
qed

lemma scan_take_at:
  fixes s :: "'z tree_scheme"
  assumes "pool_state E V R {} {} (Suc n) r s" and "scan_rest V d cursor es"
    and lim: "\<And>s :: 'z tree_scheme. pool_state E V R {} {} (Suc n) r s \<Longrightarrow> d \<le> page_limit s"
  shows "\<exists>s'. scan_take k a b (ret ()) cursor s = (Inr (take k (map kv (takeWhile (\<lambda>x. \<not> past b x) es))), s') \<and>
     pool_state E V R {} {} (Suc n) r s'"
  using assms(1,2)
proof (induction k arbitrary: cursor es s)
  case (Suc k)
  from Suc.prems(2) obtain p l q ss i B where c: "cursor = ScanAt (LeafPage l q ss) i" "es = drop i ss @ entries B"
    "linked 0 (LeafI p q ss # B)" "leaves_in V B" "nleaves B \<le> d" by (auto simp: scan_rest_def)
  have "nleaves B \<le> page_limit s" using c(5) lim [OF Suc.prems(1)] by simp
  from scan_from_ok [OF Suc.prems(1) c(3,4) this c(5), of b l i] obtain item cursor' s' where
    s': "scan_from (page_limit s) b (ret ()) (LeafPage l q ss) i s = (Inr (item, cursor'), s')"
      "pool_state E V R {} {} (Suc n) r s'" "scan_step_ok V d b es item cursor'" using c(2) by auto
  have step: "scan_next a b (ret ()) cursor s = (Inr (item, cursor'), s')"
    using s'(1) by (simp add: scan_next_def c(1) bind_op_def)
  show ?case by (rule scan_take_Suc [OF step s'(2,3)]) (rule Suc.IH [OF s'(2)])
qed simp

lemma nleaves_append [simp]: "nleaves (xs @ ys) = nleaves xs + nleaves ys"
  by (induction xs rule: nleaves.induct) auto

lemma leaves_pages: "nleaves (leaf_seq t) \<le> length (pages t)"
proof (induction t)
  case (Nd p t kts)
  have "nleaves (row_seq kts) \<le> length (row_pages kts)" using Nd(2)
  proof (induction kts)
    case (Cons kt kts)
    obtain k c where kt: "kt = (k, c)" by (cases kt)
    have "nleaves (leaf_seq c) \<le> length (pages c)" by (rule Cons.prems [of kt]) (simp_all add: kt)
    moreover have "nleaves (row_seq kts) \<le> length (row_pages kts)" by (rule Cons.IH) (use Cons.prems in auto)
    ultimately show ?case by (simp add: kt)
  qed simp
  with Nd(1) show ?case by simp
qed simp

lemma range_entries:
  assumes srt: "sorted_wrt (<) (map lkey (X @ Y))" and start: "start = (case a of None \<Rightarrow> [] | Some k \<Rightarrow> k)"
    and X: "\<forall>x \<in> set X. lkey x < start" and Y: "\<forall>y \<in> set Y. start \<le> lkey y"
  shows "map kv (takeWhile (\<lambda>x. \<not> past b x) Y) = map_range (map_of (map kv (X @ Y))) a b"
proof -
  let ?m = "map_of (map kv (X @ Y))" and ?Z = "filter (\<lambda>x. \<not> past b x) Y"
  have sY: "sorted_wrt (<) (map lkey Y)" using srt by (simp add: sorted_wrt_append)
  have tw: "takeWhile (\<lambda>x. \<not> past b x) Y = ?Z" using sY
  proof (induction Y)
    case (Cons y Y)
    have "past b z" if "past b y" "z \<in> set Y" for z using that Cons.prems by (auto simp: past_def split: option.splits)
    with Cons show ?case by (auto simp: filter_empty_conv)
  qed simp
  have look: "?m (lkey x) = Some (lvalue x)" if "x \<in> set (X @ Y)" for x
    using that srt by (intro map_of_is_SomeI) (auto simp: strict_sorted_iff o_def kv_def rev_image_eqI simp del: set_append map_append)
  have dom: "dom ?m = lkey ` set (X @ Y)" by (simp add: dom_map_of_conv_image_fst image_image image_Un)
  have keys: "{k \<in> dom ?m. in_range a b k} = set (map lkey ?Z)"
    unfolding dom in_range_def using X Y start by (fastforce simp: past_def not_le split: option.splits)
  have "sorted_wrt (<) (map lkey ?Z)" using sY by (simp add: sorted_wrt_map sorted_wrt_filter)
  then have "sorted_list_of_set {k \<in> dom ?m. in_range a b k} = map lkey ?Z"
    unfolding keys by (intro sorted_list_of_set.idem_if_sorted_distinct) (simp_all add: strict_sorted_iff)
  then show ?thesis using look by (auto simp: map_range_def tw kv_def)
qed

lemma leaf_seq_page: "LeafI p q ss \<in> set (leaf_seq t) \<Longrightarrow> (p, LeafPage 0 q ss) \<in> set (pages t)"
proof (induction t)
  case (Nd r t kts)
  from Nd.prems consider "LeafI p q ss \<in> set (leaf_seq t)" | k c where "(k, c) \<in> set kts" "LeafI p q ss \<in> set (leaf_seq c)"
    by (auto simp: row_seq_def)
  then show ?case
  proof cases
    case 2
    then have "(p, LeafPage 0 q ss) \<in> set (pages c)" by (intro Nd.IH(2)) auto
    with 2(1) show ?thesis by (auto simp: row_pages_def)
  qed (use Nd.IH(1) in simp)
qed simp

lemma pool_state_pages:
  assumes "pool_state E (map_of (pages T)) R H U n r s" and "distinct (map fst (pages T))"
  shows "length (pages T) \<le> page_limit s" and "(p, x) \<in> set (pages T) \<Longrightarrow> 0 < p"
proof -
  have "card (dom (map_of (pages T))) = length (pages T)"
    using assms(2) by (metis dom_map_of_conv_image_fst distinct_card length_map list.set_map)
  with card_mono [OF _ pool_state_limit [OF assms(1)]] show "length (pages T) \<le> page_limit s" by simp
  show "0 < p" if "(p, x) \<in> set (pages T)"
    using that pool_state_limit [OF assms(1)] by (force simp: dom_map_of_conv_image_fst)
qed

lemma bytes_Nil_le: "[] \<le> (k :: bytes)"
  by (cases k) simp_all

lemma scan_take_holds:
  fixes s :: "'z tree_scheme"
  assumes holds: "tree_holds E h m n s" and n: "Suc h \<le> n"
  shows "\<exists>s'. scan_take k a b (ret ()) ScanStart s = (Inr (take k (map_range m a b)), s') \<and> tree_holds E h m n s'"
proof (cases k)
  case 0
  then show ?thesis using holds by auto
next
  case (Suc k')
  let ?ps = "env_page_size E"
  define start where "start = (case a of None \<Rightarrow> [] | Some k \<Rightarrow> k)"
  from holds obtain T where T: "129 \<le> ?ps" "tree_fine ?ps h T" "contents T = m"
    "pool_state E (map_of (pages T)) {} {} {} n (pid T) s" by (auto simp: tree_holds_def)
  let ?V = "map_of (pages T)"
  have ok: "tree_ok ?ps h T" and d: "distinct (map fst (pages T))" and seq: "seq_ok ?ps (leaf_seq T)"
    using T(2) by (auto simp: tree_fine_def tree_ok_def)
  have st: "pool_state E ?V {} {} {} (Suc (0 + h)) (pid T) s" by (rule pool.weaken [OF T(4)]) (use n in simp_all)
  from find_leaf_ok [OF st ok, of start] obtain gs p q ss l H' s1 where
    *: "find_leaf start s = (Inr (LeafSearchResult p (LeafPage l q ss) (rev (map fitem gs))), s1)"
      "plugs gs (Lf p q ss) = T" "length gs = h" "located start (lseqs gs) (rseqs gs)"
      "pool_state E ?V {} H' {} 0 (pid T) s1" by (auto elim: foundE)
  have "dirty_count s1 \<le> dirty_count s" by (rule keepsD [OF dirty_keep_search(1) *(1)]) simp
  then have st1: "pool_state E ?V {} {} {} (Suc (n - 1)) (pid T) s1"
    using pool.weaken [OF *(5), of "{}" 0] T(4) n pool_state_room [of E ?V "{}" n "pid T" s] pool_state_room [of E ?V "{}" n "pid T" s1] by auto
  let ?A = "entries (lseqs gs)" and ?B = "rseqs gs" and ?i = "bisect_left (map lkey ss) start"
  have T_seq: "leaf_seq T = lseqs gs @ LeafI p q ss # ?B" using *(2) leaf_seq_plugs [of gs "Lf p q ss"] by auto
  have lk: "linked 0 (LeafI p q ss # ?B)" and srt: "sorted_wrt (<) (map lkey ss)"
    and all: "sorted_wrt (<) (map lkey (?A @ ss @ entries ?B))"
    using seq leaf_in_tree_sorted [of ?ps "lseqs gs" p q ss ?B] sorted_marks_entries [of "leaf_seq T"] by (auto simp: T_seq seq_ok_def)
  have nl: "nleaves ?B \<le> length (pages T)" using leaves_pages [of T] by (simp add: T_seq)
  have lv: "leaves_in ?V ?B" unfolding leaves_in_def
  proof (intro allI impI)
    fix p' q' ss' assume "LeafI p' q' ss' \<in> set ?B"
    then have "(p', LeafPage 0 q' ss') \<in> set (pages T)" by (intro leaf_seq_page) (simp add: T_seq)
    then show "0 < p' \<and> ?V p' = Some (LeafPage 0 q' ss')" using pool_state_pages(2) [OF st d] d by auto
  qed
  have lim: "length (pages T) \<le> page_limit s" by (rule pool_state_pages(1) [OF st d])
  obtain L M Rr where pos: "ss = L @ M @ Rr" "\<forall>x \<in> set L. lkey x < start" "\<forall>x \<in> set Rr. start < lkey x" "length L = ?i"
    "if slot_has_key ss ?i start then \<exists>v. M = [LeafSlot start v] else M = []" by (rule leaf_position [OF srt refl])
  have drop: "drop ?i ss = M @ Rr" by (subst pos(4) [symmetric]) (simp add: pos(1))
  from scan_from_ok [OF st1 lk lv _ nl, of "page_limit s" b l ?i] nl lim obtain item cursor' s' where
    s': "scan_from (page_limit s) b (ret ()) (LeafPage l q ss) ?i s1 = (Inr (item, cursor'), s')"
      "pool_state E ?V {} {} {} (Suc (n - 1)) (pid T) s'" "scan_step_ok ?V (length (pages T)) b (drop ?i ss @ entries ?B) item cursor'" by auto
  have step: "scan_next a b (ret ()) ScanStart s = (Inr (item, cursor'), s')"
    using s'(1) *(1) by (simp add: scan_next_def bind_op_def start_def Let_def del: scan_from.simps)
  have "\<exists>s''. scan_take (Suc k') a b (ret ()) ScanStart s =
      (Inr (take (Suc k') (map kv (takeWhile (\<lambda>x. \<not> past b x) (drop ?i ss @ entries ?B)))), s'') \<and>
      pool_state E ?V {} {} {} (Suc (n - 1)) (pid T) s''"
    by (rule scan_take_Suc [OF step s'(2,3)], rule scan_take_at [OF s'(2)]) (use pool_state_pages(1) d in auto)
  moreover have "map kv (takeWhile (\<lambda>x. \<not> past b x) (drop ?i ss @ entries ?B)) = map_range m a b"
  proof -
    have m: "m = map_of (map kv ((?A @ L) @ (M @ Rr @ entries ?B)))" using T(3) by (simp add: contents_def T_seq pos(1))
    have "\<forall>x \<in> set M. lkey x = start" using pos(5) by (auto split: if_splits)
    then have "\<forall>y \<in> set (M @ Rr @ entries ?B). start \<le> lkey y"
      using pos(3) located_entries(2) [OF *(4)] by (auto simp: less_imp_le)
    moreover have "sorted_wrt (<) (map lkey ((?A @ L) @ (M @ Rr @ entries ?B)))" using all by (simp add: pos(1))
    moreover have "\<forall>x \<in> set (?A @ L). lkey x < start" using pos(2) located_entries(1) [OF *(4)] by auto
    ultimately have "map kv (takeWhile (\<lambda>x. \<not> past b x) (M @ Rr @ entries ?B)) = map_range m a b"
      unfolding m by (intro range_entries [OF _ start_def])
    then show ?thesis by (simp add: drop)
  qed
  ultimately show ?thesis using T n unfolding Suc tree_holds_def by auto
qed

section \<open>The height of a tree\<close>

lemma height_leaves:
  "depth_ok h t \<Longrightarrow> \<forall>(p, n) \<in> set (pages t). page_good ps n \<Longrightarrow> 2 ^ h \<le> nleaves (leaf_seq t)"
proof (induction h arbitrary: t)
  case 0
  then show ?case by (cases t) auto
next
  case (Suc h)
  then obtain p t0 kts where t: "t = Nd p t0 kts" by (cases t) auto
  from Suc.prems(2) have "kts \<noteq> []" by (auto simp: t page_good_def)
  then obtain k c rest where kts: "kts = (k, c) # rest" by (cases kts) auto
  have "2 ^ h \<le> nleaves (leaf_seq t0)" "2 ^ h \<le> nleaves (leaf_seq c)"
    using Suc.prems by (auto simp: t kts intro!: Suc.IH)
  then show ?case by (simp add: t kts)
qed

lemma leaves_entries:
  "(\<And>p q ss. LeafI p q ss \<in> set xs \<Longrightarrow> ss \<noteq> []) \<Longrightarrow> nleaves xs \<le> length (entries xs)"
proof (induction xs)
  case (Cons x xs)
  then have *: "nleaves xs \<le> length (entries xs)" by (meson list.set_intros(2))
  show ?case
  proof (cases x)
    case (LeafI p q ss)
    then have "ss \<noteq> []" using Cons.prems [of p q ss] by simp
    with * LeafI show ?thesis by (cases ss) auto
  qed (use * in simp)
qed simp

lemma contents_card:
  assumes "seq_ok ps (leaf_seq T)"
  shows "card (dom (contents T)) = length (entries (leaf_seq T))"
proof -
  have "sorted_wrt (<) (map lkey (entries (leaf_seq T)))" using assms by (auto simp: seq_ok_def intro: sorted_marks_entries)
  then have "distinct (map lkey (entries (leaf_seq T)))" by (simp add: strict_sorted_iff)
  from distinct_card [OF this] show ?thesis by (simp add: contents_def dom_map_of_conv_image_fst image_image)
qed

text \<open>Only a leaf that is the root may be empty.\<close>

lemma leaf_filled:
  assumes ok: "tree_ok ps h T" and ps: "129 \<le> ps" and h: "0 < h" and leaf: "LeafI p q ss \<in> set (leaf_seq T)"
  shows "ss \<noteq> []"
proof -
  from ok h obtain r t kts where T: "T = Nd r t kts" by (cases T; cases h) (auto simp: tree_ok_def)
  have "(p, LeafPage 0 q ss) \<in> set (below T)" using leaf_seq_page [OF leaf] T by (simp add: pages_below [of T])
  moreover have "pid T \<notin> fst ` set (below T)" using ok by (simp add: tree_ok_def pages_below [of T])
  ultimately have "p \<noteq> pid T" by force
  with ok leaf_seq_page [OF leaf] have "\<not> is_page_underpopulated ps (LeafPage 0 q ss)" by (auto simp: tree_ok_def fine_def)
  with ps show ?thesis by (auto simp: underpop_leaf)
qed

lemma tree_height_bound:
  assumes "tree_ok ps h T" and "129 \<le> ps"
  shows "h = 0 \<or> 2 ^ h \<le> card (dom (contents T))"
proof (cases "h = 0")
  case False
  have T: "depth_ok h T" "seq_ok ps (leaf_seq T)" "\<forall>(p, n) \<in> set (pages T). page_good ps n"
    using assms(1) by (auto simp: tree_ok_def fine_def)
  have "nleaves (leaf_seq T) \<le> length (entries (leaf_seq T))" by (rule leaves_entries) (use leaf_filled [OF assms] False in simp)
  with height_leaves [OF T(1,3)] contents_card [OF T(2)] show ?thesis by simp
qed simp

lemma tree_holds_height: "tree_holds E h m n s \<Longrightarrow> h = 0 \<or> 2 ^ h \<le> card (dom m)"
  using tree_height_bound by (auto simp: tree_holds_def tree_fine_def)

text \<open>A tree of at most \<open>2 ^ N\<close> keys has height at most \<open>N\<close>.\<close>

lemma tree_holds_low:
  assumes "tree_holds E h m n s" and "card (dom m) < 2 ^ Suc N"
  shows "h \<le> N"
proof (rule ccontr)
  assume "\<not> h \<le> N"
  then have "(2 :: nat) ^ Suc N \<le> 2 ^ h" by (intro power_increasing) simp_all
  with tree_holds_height [OF assms(1)] assms(2) \<open>\<not> h \<le> N\<close> show False by auto
qed

section \<open>Properties of the tree\<close>

text \<open>A new database of page size 200, in a pool of 100 pages.\<close>

lemma sample_tree_holds:
  assumes "n \<le> 100"
  obtains E and s :: tree where "tree_holds E 0 Map.empty n s" "env_page_size E = 200"
proof -
  obtain E and s :: tree where s: "pool_state E (map_of (pages (Lf 1 0 []))) {} {} {} n 1 s" "env_page_size E = 200"
    by (rule sample_tree [OF assms])
  have "tree_fine 200 0 (Lf 1 0 [])" using empty_tree_ok [of 200 1] by (simp add: tree_fine_def keys_short_def)
  then have "tree_holds E 0 Map.empty n s" unfolding tree_holds_def
    using s by (intro conjI exI [of _ "Lf 1 0 []"]) (simp_all add: contents_def)
  from that [OF this s(2)] show thesis .
qed

lemma sample_leaf_holds:
  assumes "n < 100"
  obtains E and s :: tree where "tree_holds E 0 [[1] \<mapsto> [2], [3] \<mapsto> [4]] n s"
proof -
  let ?T = "Lf 1 0 [LeafSlot [1] [2], LeafSlot [3] [4]]"
  obtain E and s :: tree where s: "pool_state E (map_of (pages ?T)) {} {} {} n 1 s" "env_page_size E = 200"
    by (rule sample_leaf [OF assms])
  have "tree_fine 200 0 ?T" using sample_leaf_ok by (simp add: tree_fine_def keys_short_def short_key_def)
  moreover have "contents ?T = [[1] \<mapsto> [2], [3] \<mapsto> [4]]" by (auto simp: contents_def fun_eq_iff)
  ultimately show thesis using s by (intro that [of E s]) (auto simp: tree_holds_def intro!: exI [of _ ?T])
qed

text \<open>
  C7: inserting a record into a well-formed tree refines updating a map. Whatever splits, and however
  far they cascade, the insertion returns, the tree is well formed again and maps the key to the value
  and every other key to what it was; the loop over the pages ends within the fuel.
\<close>

theorem insert_updates_the_map:
  fixes s :: "'z tree_scheme"
  assumes "tree_holds E h m (7 * h + 5) s" and "short_key (env_page_size E) key"
    and "int (calculate_leaf_record_size key v) \<le> get_max_leaf_record_size (env_page_size E)"
  shows "\<exists>h' s'. tree_insert key v op_lsn s = (Inr (), s') \<and> tree_holds E h' (m(key \<mapsto> v)) 0 s'"
  by (rule tree_insert_ok [OF assms])

theorem insert_updates_the_map_witness:
  "\<exists>(s :: tree) s' E h'. tree_insert [1] [2] 7 s = (Inr (), s') \<and> tree_holds E h' [[1] \<mapsto> [2]] 0 s'"
proof -
  obtain E and s :: tree where s: "tree_holds E 0 Map.empty (7 * 0 + 5) s" "env_page_size E = 200"
    by (rule sample_tree_holds [of "7 * 0 + 5"]) simp_all
  from insert_updates_the_map [OF s(1), of "[1]" "[2]" 7] s(2) show ?thesis
    by (auto simp: short_key_def calculate_leaf_record_size_def get_max_leaf_record_size_def)
qed

text \<open>
  C8: deleting a key from a well-formed tree refines removing it from a map, and tells whether it was
  there. Whatever pages lend slots to each other or merge, up to the collapse of the root, the deletion
  returns and the tree is well formed again.
\<close>

theorem delete_removes_from_the_map:
  fixes s :: "'z tree_scheme"
  assumes "tree_holds E h m (7 * h + 5) s"
  shows "\<exists>h' s'. tree_delete key op_lsn s = (Inr (m key \<noteq> None), s') \<and> tree_holds E h' (m(key := None)) 0 s'"
  by (rule tree_delete_ok [OF assms])

theorem delete_removes_from_the_map_witness:
  "\<exists>(s :: tree) s' E h'. tree_delete [1] 7 s = (Inr True, s') \<and> tree_holds E h' [[3] \<mapsto> [4]] 0 s'"
proof -
  obtain E and s :: tree where s: "tree_holds E 0 [[1] \<mapsto> [2], [3] \<mapsto> [4]] (7 * 0 + 5) s"
    by (rule sample_leaf_holds [of "7 * 0 + 5"]) simp_all
  have "[[1 :: byte] \<mapsto> [2 :: byte], [3] \<mapsto> [4]]([1] := None) = [[3] \<mapsto> [4]]" by (auto simp: fun_eq_iff)
  with delete_removes_from_the_map [OF s, of "[1]" 7] show ?thesis by auto
qed

text \<open>
  C33: a scan yields exactly the pairs of the map whose keys lie in the half-open range, in increasing
  order of keys, as many as are asked for; it follows the leaf chain to its end and changes nothing.
\<close>

theorem scan_yields_the_range_in_order:
  fixes s :: "'z tree_scheme"
  assumes "tree_holds E h m (Suc h) s"
  shows "\<exists>s'. scan_take k a b (ret ()) ScanStart s = (Inr (take k (map_range m a b)), s') \<and> tree_holds E h m (Suc h) s'"
  by (rule scan_take_holds [OF assms]) simp

theorem scan_yields_the_range_in_order_witness:
  "\<exists>(s :: tree) s' s''. scan_take 3 None None (ret ()) ScanStart s = (Inr [([1], [2]), ([3], [4])], s') \<and>
     scan_take 3 None (Some [3]) (ret ()) ScanStart s = (Inr [([1], [2])], s'')"
proof -
  obtain E and s :: tree where s: "tree_holds E 0 [[1] \<mapsto> [2], [3] \<mapsto> [4]] (Suc 0) s" by (rule sample_leaf_holds [of "Suc 0"]) simp_all
  have "{k. (k = [3] \<or> k = [1]) \<and> in_range None None k} = {[1 :: 8 word], [3]}"
    "{k. (k = [3] \<or> k = [1]) \<and> in_range None (Some [3]) k} = {[1 :: 8 word]}" by (auto simp: in_range_def)
  then have "map_range [[1] \<mapsto> [2], [3] \<mapsto> [4]] None None = [([1], [2]), ([3], [4])]"
    "map_range [[1] \<mapsto> [2], [3] \<mapsto> [4]] None (Some [3]) = [([1], [2])]" by (simp_all add: map_range_def)
  with scan_yields_the_range_in_order [OF s, of 3 None None] scan_yields_the_range_in_order [OF s, of 3 None "Some [3]"]
  show ?thesis by auto
qed

text \<open>
  When a leaf outgrows its page by at most one record, the split point chosen leaves two pages
  that both fit and are both at least 40 per cent full.
\<close>

lemma leaf_split_is_balanced:
  assumes "129 \<le> ps" and "\<forall>s \<in> set slots. int (calculate_leaf_record_size (lkey s) (lvalue s)) \<le> get_max_leaf_record_size ps"
    and "is_page_overpopulated ps (LeafPage l r slots)"
    and "calculate_page_size (LeafPage l r slots) \<le> ps + slot_cap ps"
    and "i = choose_split_point ps (LeafPage l r slots) (cumulative 0 (slot_sizes (LeafPage l r slots)))"
  shows "split_halves_are_balanced ps (LeafPage l r slots) i \<and>
     \<not> is_page_overpopulated ps (LeafPage l r (take i slots)) \<and> \<not> is_page_overpopulated ps (LeafPage l r (drop i slots)) \<and>
     (\<exists>left right k. split_node i (LeafPage l r slots) new_id op_lsn = Inr (left, right, k) \<and>
        lslots left @ lslots right = slots \<and> k = lkey (hd (lslots right)) \<and>
        right_sibling_page_id left = new_id \<and> right_sibling_page_id right = r)"
proof -
  have cap: "lcap ps slots" unfolding lcap_def using record_fits_cap assms(2) by (metis leaf_slot.collapse)
  have over: "ps < 32 + lsum slots" "32 + lsum slots \<le> ps + slot_cap ps"
    using assms(3,4) by (simp_all add: is_page_overpopulated_def)
  from leaf_split_point [OF assms(1) cap over assms(5)] have
    *: "i < length slots" "2 * ps \<le> 5 * (32 + lsum (take i slots))" "2 * ps \<le> 5 * (32 + lsum (drop i slots))"
      "32 + lsum (take i slots) \<le> ps" "32 + lsum (drop i slots) \<le> ps" by auto
  then show ?thesis by (simp add: pop_defs hd_drop_conv_nth)
qed

end
