(* ===== verification/Wal.thy ===== *)
theory Wal
  imports Codec
begin

text \<open>
  The write-ahead log of \<^verbatim>\<open>src/bptreedb/wal.py\<close>.

  The state is the record \<open>wal\<close>, one field per attribute, with the files it works on: \<open>wl_file\<close> is
  the log at \<^verbatim>\<open>path\<close>, \<open>wl_temp\<close> the rotation file at \<^verbatim>\<open>checkpoint_temp_path\<close> (each absent or a byte
  string) and \<open>wl_durable\<close> the contents of the log that a crash is guaranteed to leave. The file is
  opened in append mode, so every write goes to its end.

  The generator \<^verbatim>\<open>_iter_records\<close> is modelled by its trace (\<open>iter_records\<close>): the records it yields,
  each with the file position after it, and how it ends, by exhaustion or by an exception. The file
  does not change while it is read, so its consumers, the \<^verbatim>\<open>for\<close> loops of \<^verbatim>\<open>replay\<close>,
  \<^verbatim>\<open>truncate_before\<close> and the database, run over that trace (\<open>for_fold\<close>).

  The lemmas relate the log to the list of records in it (\<open>wal_state\<close>): appending adds one record,
  durably; reading back gives the records, whatever torn or checksum-failing bytes follow them;
  replaying passes them to the callback in order and cuts the tail off; rotation keeps exactly the
  records from the given LSN on. The locale \<open>journal\<close> is this contract as the database relies on it.
\<close>

section \<open>State\<close>

record wal_stats =
  records_appended :: nat
  bytes_appended :: nat
  wal_fsyncs :: nat
  records_replayed :: nat
  truncations :: nat

definition fresh_wal_stats :: wal_stats where
  "fresh_wal_stats = \<lparr>records_appended = 0, bytes_appended = 0, wal_fsyncs = 0, records_replayed = 0,
     truncations = 0\<rparr>"

definition wal_stats_reset :: "wal_stats \<Rightarrow> wal_stats" where
  "wal_stats_reset st = st\<lparr>records_appended := 0, bytes_appended := 0, wal_fsyncs := 0,
     records_replayed := 0, truncations := 0\<rparr>"

record wal =
  wl_file :: "bytes option"
  wl_durable :: "bytes option"
  wl_temp :: "bytes option"
  wl_current_lsn :: nat
  wl_stats :: wal_stats
  wl_open :: bool

text \<open>\<^verbatim>\<open>WAL(path)\<close>, given what is at the path and at the path of the rotation file.\<close>

definition WAL_init :: "bytes option \<Rightarrow> bytes option \<Rightarrow> wal" where
  "WAL_init file temp = \<lparr>wl_file = file, wl_durable = file, wl_temp = temp, wl_current_lsn = 0,
     wl_stats = fresh_wal_stats, wl_open = False\<rparr>"

definition wal_bump_stat :: "(wal_stats \<Rightarrow> wal_stats) \<Rightarrow> (wal, unit) op" where
  "wal_bump_stat f = modify_op (\<lambda>w. w\<lparr>wl_stats := f (wl_stats w)\<rparr>)"

definition wal_bytes_of :: "wal \<Rightarrow> bytes" where
  "wal_bytes_of w = (case wl_file w of None \<Rightarrow> [] | Some b \<Rightarrow> b)"

text \<open>\<^verbatim>\<open>assert self._fd is not None\<close>.\<close>

definition wal_require_open :: "(wal, unit) op" where
  "wal_require_open = bind_op (gets_op wl_open) assert_op"

section \<open>Opening and closing\<close>

definition wal_open :: "(wal, unit) op" where
  "wal_open =
     bind_op (gets_op wl_open) (\<lambda>is_open.
     if is_open then ret ()
     else bind_op (modify_op (\<lambda>w. w\<lparr>wl_temp := None\<rparr>)) (\<lambda>_.
          bind_op (modify_op (\<lambda>w. w\<lparr>wl_current_lsn := 0\<rparr>)) (\<lambda>_.
          bind_op (gets_op (\<lambda>w. wl_file w \<noteq> None)) (\<lambda>wal_already_existed.
          bind_op (modify_op (\<lambda>w. w\<lparr>wl_file := Some (wal_bytes_of w), wl_open := True\<rparr>)) (\<lambda>_.
          if \<not> wal_already_existed then modify_op (\<lambda>w. w\<lparr>wl_durable := wl_file w\<rparr>)
          else ret ())))))"

definition wal_close :: "(wal, unit) op" where
  "wal_close =
     bind_op (gets_op wl_open) (\<lambda>is_open.
     if is_open then
       bind_op (modify_op (\<lambda>w. w\<lparr>wl_durable := wl_file w\<rparr>)) (\<lambda>_.
       bind_op (wal_bump_stat (\<lambda>st. st\<lparr>wal_fsyncs := wal_fsyncs st + 1\<rparr>)) (\<lambda>_.
       modify_op (\<lambda>w. w\<lparr>wl_open := False\<rparr>)))
     else ret ())"

definition wal_enter :: "(wal, unit) op" where
  "wal_enter = wal_open"

definition wal_exit :: "(wal, bool) op" where
  "wal_exit = bind_op wal_close (\<lambda>_. ret False)"

text \<open>\<^verbatim>\<open>self.path.stat().st_size\<close>; every write is flushed, so the file is what was written.\<close>

definition size_bytes :: "wal \<Rightarrow> nat" where
  "size_bytes w = length (wal_bytes_of w)"

section \<open>Appending\<close>

definition wal_append :: "wal_record \<Rightarrow> (wal, nat) op" where
  "wal_append rec =
     bind_op wal_require_open (\<lambda>_.
     bind_op (lift_r (encode_wal_record rec)) (\<lambda>encoded.
     bind_op (modify_op (\<lambda>w. w\<lparr>wl_current_lsn := lsn rec\<rparr>)) (\<lambda>_.
     bind_op (modify_op (\<lambda>w. w\<lparr>wl_file := Some (wal_bytes_of w @ encoded)\<rparr>)) (\<lambda>_.
     bind_op (modify_op (\<lambda>w. w\<lparr>wl_durable := wl_file w\<rparr>)) (\<lambda>_.
     bind_op (wal_bump_stat (\<lambda>st. st\<lparr>records_appended := records_appended st + 1,
       bytes_appended := bytes_appended st + length encoded,
       wal_fsyncs := wal_fsyncs st + 1\<rparr>)) (\<lambda>_.
     ret (lsn rec)))))))"

definition append_put :: "bytes \<Rightarrow> bytes \<Rightarrow> (wal, nat) op" where
  "append_put key val = bind_op (gets_op (\<lambda>w. WALPutRecord (wl_current_lsn w + 1) key val)) wal_append"

definition append_delete :: "bytes \<Rightarrow> (wal, nat) op" where
  "append_delete key = bind_op (gets_op (\<lambda>w. WALDeleteRecord (wl_current_lsn w + 1) key)) wal_append"

definition append_checkpoint :: "nat \<Rightarrow> nat \<Rightarrow> nat \<Rightarrow> (wal, nat) op" where
  "append_checkpoint root head next =
     bind_op (gets_op (\<lambda>w. WALCheckpointRecord (wl_current_lsn w + 1) root head next)) wal_append"

section \<open>Reading\<close>

text \<open>Every record read, and every record skipped because its checksum fails, shortens the rest of the file.\<close>

lemma decode_next_rest:
  "decode_next_wal_record_from_file file = (r, rest) \<Longrightarrow> r \<noteq> Inl EOFError \<Longrightarrow> length rest < length file"
  by (auto simp: decode_next_wal_record_from_file_def Let_def split: if_splits sum.splits)

text \<open>
  The trace of the generator from a position of the file: the argument is what is left to read, the
  LSN of the last record yielded and whether a record with a bad checksum was passed. A position is
  given by the number of bytes that remain behind it.
\<close>

function iter_records :: "bytes \<Rightarrow> nat \<Rightarrow> bool \<Rightarrow> (wal_record \<times> nat) list \<times> unit result" where
  "iter_records file last_lsn broken =
     (case decode_next_wal_record_from_file file of
        (Inr rec, rest) \<Rightarrow>
          if broken then ([], Inl (DBCorruptedError ''WAL contains a broken record followed by a valid record''))
          else if last_lsn \<noteq> 0 \<and> lsn rec \<noteq> last_lsn + 1
          then ([], Inl (DBCorruptedError ''WAL contains non-sequential LSNs''))
          else (case iter_records rest (lsn rec) False of (recs, end) \<Rightarrow> ((rec, length rest) # recs, end))
      | (Inl e, rest) \<Rightarrow>
          (case e of
             DBChecksumError _ _ \<Rightarrow> iter_records rest last_lsn True
           | EOFError \<Rightarrow> ([], Inr ())
           | _ \<Rightarrow> ([], Inl e)))"
  by pat_completeness auto
termination
  by (relation "measure (\<lambda>(file, _). length file)") (auto dest!: decode_next_rest [OF sym])

declare iter_records.simps [simp del]

text \<open>A \<^verbatim>\<open>for\<close> loop over a trace; its local variables are the accumulator.\<close>

fun for_fold :: "('b \<Rightarrow> 'a \<Rightarrow> ('s, 'b) op) \<Rightarrow> 'b \<Rightarrow> 'a list \<times> unit result \<Rightarrow> ('s, 'b) op" where
  "for_fold body acc ([], end) = bind_op (lift_r end) (\<lambda>_. ret acc)"
| "for_fold body acc (x # xs, end) = bind_op (body acc x) (\<lambda>acc'. for_fold body acc' (xs, end))"

text \<open>The whole trace, from the start of the file, with positions as \<^verbatim>\<open>tell()\<close> gives them.\<close>

definition iterate :: "(wal, (wal_record \<times> nat) list \<times> unit result) op" where
  "iterate =
     bind_op wal_require_open (\<lambda>_.
     gets_op (\<lambda>w. case iter_records (wal_bytes_of w) 0 False of
       (recs, end) \<Rightarrow> (map (\<lambda>(rec, remaining). (rec, size_bytes w - remaining)) recs, end)))"

definition peek_records :: "(wal, wal_record list \<times> unit result) op" where
  "peek_records = bind_op iterate (\<lambda>(recs, end). ret (map fst recs, end))"

text \<open>The callback of \<^verbatim>\<open>replay\<close> works on a state of its own, threaded beside the log's.\<close>

definition on_fst :: "('a, 'r) op \<Rightarrow> ('a \<times> 'b, 'r) op" where
  "on_fst m s = (case m (fst s) of (r, a) \<Rightarrow> (r, (a, snd s)))"

definition on_snd :: "('b, 'r) op \<Rightarrow> ('a \<times> 'b, 'r) op" where
  "on_snd m s = (case m (snd s) of (r, b) \<Rightarrow> (r, (fst s, b)))"

definition replay_step ::
  "(wal_record \<Rightarrow> ('c, unit) op) \<Rightarrow> nat \<Rightarrow> wal_record \<times> nat \<Rightarrow> (wal \<times> 'c, nat) op" where
  "replay_step callback last_good_file_pos = (\<lambda>(rec, position).
     bind_op (on_fst (modify_op (\<lambda>w. w\<lparr>wl_current_lsn := lsn rec\<rparr>))) (\<lambda>_.
     bind_op (on_fst (wal_bump_stat (\<lambda>st. st\<lparr>records_replayed := records_replayed st + 1\<rparr>))) (\<lambda>_.
     bind_op (on_snd (callback rec)) (\<lambda>_.
     ret position))))"

definition replay :: "(wal_record \<Rightarrow> ('c, unit) op) \<Rightarrow> (wal \<times> 'c, unit) op" where
  "replay callback =
     bind_op (on_fst wal_require_open) (\<lambda>_.
     bind_op (on_fst (modify_op (\<lambda>w. w\<lparr>wl_current_lsn := 0\<rparr>))) (\<lambda>_.
     bind_op (on_fst iterate) (\<lambda>trace.
     bind_op (for_fold (replay_step callback) 0 trace) (\<lambda>last_good_file_pos.
     on_fst (
       bind_op (modify_op (\<lambda>w. w\<lparr>wl_file := Some (take last_good_file_pos (wal_bytes_of w))\<rparr>)) (\<lambda>_.
       bind_op (modify_op (\<lambda>w. w\<lparr>wl_durable := wl_file w\<rparr>)) (\<lambda>_.
       wal_bump_stat (\<lambda>st. st\<lparr>wal_fsyncs := wal_fsyncs st + 1\<rparr>))))))))"

section \<open>Rotation\<close>

definition rotate_step :: "nat \<Rightarrow> unit \<Rightarrow> wal_record \<times> nat \<Rightarrow> (wal, unit) op" where
  "rotate_step l _ = (\<lambda>(rec, _).
     if l \<le> lsn rec then
       bind_op (lift_r (encode_wal_record rec)) (\<lambda>encoded.
       modify_op (\<lambda>w. w\<lparr>wl_temp := map_option (\<lambda>b. b @ encoded) (wl_temp w)\<rparr>))
     else ret ())"

text \<open>
  \<^verbatim>\<open>truncate_before\<close>: the rename puts the rotation file, which was synced, at the log's path; syncing
  the directory makes that durable.
\<close>

definition truncate_before :: "nat \<Rightarrow> (wal, unit) op" where
  "truncate_before l =
     bind_op wal_require_open (\<lambda>_.
     bind_op (modify_op (\<lambda>w. w\<lparr>wl_temp := Some []\<rparr>)) (\<lambda>_.
     bind_op iterate (\<lambda>trace.
     bind_op (for_fold (rotate_step l) () trace) (\<lambda>_.
     bind_op (modify_op (\<lambda>w. w\<lparr>wl_open := False\<rparr>)) (\<lambda>_.
     bind_op (modify_op (\<lambda>w. w\<lparr>wl_file := wl_temp w, wl_temp := None\<rparr>)) (\<lambda>_.
     bind_op (modify_op (\<lambda>w. w\<lparr>wl_durable := wl_file w\<rparr>)) (\<lambda>_.
     bind_op (modify_op (\<lambda>w. w\<lparr>wl_open := True\<rparr>)) (\<lambda>_.
     wal_bump_stat (\<lambda>st. st\<lparr>truncations := truncations st + 1\<rparr>)))))))))"

section \<open>The log as a list of records\<close>

definition log_bytes :: "wal_record list \<Rightarrow> bytes" where
  "log_bytes rs = concat (map wal_bytes rs)"

lemma log_bytes_simps [simp]:
  "log_bytes [] = []"
  "log_bytes (r # rs) = wal_bytes r @ log_bytes rs"
  "log_bytes (rs @ rs') = log_bytes rs @ log_bytes rs'"
  by (simp_all add: log_bytes_def)

text \<open>Records that can follow the LSN \<open>l\<close> (\<open>0\<close> for the start of a log): encodable, with consecutive LSNs.\<close>

fun chained :: "nat \<Rightarrow> wal_record list \<Rightarrow> bool" where
  "chained l [] \<longleftrightarrow> True"
| "chained l (r # rs) \<longleftrightarrow> wal_ok r \<and> lsn r \<noteq> 0 \<and> (l \<noteq> 0 \<longrightarrow> lsn r = l + 1) \<and> chained (lsn r) rs"

text \<open>The LSN of the last record of a log.\<close>

definition last_lsn_of :: "wal_record list \<Rightarrow> nat" where
  "last_lsn_of rs = (if rs = [] then 0 else lsn (last rs))"

lemma last_lsn_simps [simp]: "last_lsn_of [] = 0" "last_lsn_of (rs @ [r]) = lsn r"
  by (simp_all add: last_lsn_of_def)

lemma last_lsn_Cons: "last_lsn_of (r # rs) = (if rs = [] then lsn r else last_lsn_of rs)"
  by (simp add: last_lsn_of_def)

lemma chained_append:
  "chained l (rs @ rs') \<longleftrightarrow> chained l rs \<and> chained (if rs = [] then l else last_lsn_of rs) rs'"
  by (induction rs arbitrary: l) (auto simp: last_lsn_Cons)

lemma chained_weaken: "chained l rs \<Longrightarrow> chained 0 rs"
  by (cases rs) auto

lemma chained_lower: "chained l rs \<Longrightarrow> r \<in> set rs \<Longrightarrow> l < lsn r"
proof (induction rs arbitrary: l)
  case Nil
  then show ?case by simp
next
  case (Cons a rs)
  have "l < lsn a" using Cons.prems by auto
  moreover have "r \<in> set rs \<Longrightarrow> lsn a < lsn r" using Cons by auto
  ultimately show ?case using Cons.prems by auto
qed

lemma chained_filter: "chained l rs \<Longrightarrow> chained 0 (filter (\<lambda>r. m \<le> lsn r) rs)"
proof (induction rs arbitrary: l)
  case Nil
  then show ?case by simp
next
  case (Cons r rs)
  have "\<forall>x \<in> set rs. lsn r < lsn x" using Cons.prems by (auto dest: chained_lower)
  then have "m \<le> lsn r \<Longrightarrow> filter (\<lambda>r. m \<le> lsn r) rs = rs" by (fastforce intro: filter_True)
  with Cons show ?case by auto
qed

lemma chained_ok: "chained l rs \<Longrightarrow> r \<in> set rs \<Longrightarrow> wal_ok r"
  by (induction rs arbitrary: l) auto

text \<open>Bytes after the last good record that the reader passes over.\<close>

definition ignored_tail :: "bytes \<Rightarrow> bool" where
  "ignored_tail t \<longleftrightarrow> (\<forall>l broken. iter_records t l broken = ([], Inr ()))"

lemma ignored_eof: "fst (decode_next_wal_record_from_file t) = Inl EOFError \<Longrightarrow> ignored_tail t"
  by (cases "decode_next_wal_record_from_file t") (simp add: ignored_tail_def iter_records.simps)

lemma ignored_empty [simp]: "ignored_tail []"
  by (rule ignored_eof) (simp add: decode_next_wal_record_from_file_def Let_def)

lemma ignored_torn: "wal_ok rec \<Longrightarrow> wal_bytes rec = part @ lost \<Longrightarrow> lost \<noteq> [] \<Longrightarrow> ignored_tail part"
  by (rule ignored_eof) (rule decode_next_torn)

lemma broken_frame:
  assumes "decode_next_wal_record_from_file file = (Inl (DBChecksumError x y), rest)"
  shows "iter_records file l broken = iter_records rest l True"
  using assms by (simp add: iter_records.simps [of "file"])

lemma ignored_checksum:
  assumes "decode_next_wal_record_from_file file = (Inl (DBChecksumError x y), rest)" and "ignored_tail rest"
  shows "ignored_tail file"
  using assms(2) by (simp add: ignored_tail_def broken_frame [OF assms(1)])

fun log_trace :: "wal_record list \<Rightarrow> nat \<Rightarrow> (wal_record \<times> nat) list" where
  "log_trace [] n = []"
| "log_trace (r # rs) n = (r, length (log_bytes rs) + n) # log_trace rs n"

lemma iter_records_step:
  assumes "wal_ok r" and "l \<noteq> 0 \<longrightarrow> lsn r = l + 1"
  shows "iter_records (wal_bytes r @ rest) l False =
    (case iter_records rest (lsn r) False of (recs, e) \<Rightarrow> ((r, length rest) # recs, e))"
  using assms by (auto simp: iter_records.simps [of "wal_bytes r @ rest"] decode_next_ok)

lemma iter_records_log:
  assumes "chained l rs" and "ignored_tail t"
  shows "iter_records (log_bytes rs @ t) l False = (log_trace rs (length t), Inr ())"
  using assms(1)
proof (induction rs arbitrary: l)
  case Nil
  then show ?case using assms(2) by (simp add: ignored_tail_def)
next
  case (Cons r rs)
  then have "iter_records (log_bytes rs @ t) (lsn r) False = (log_trace rs (length t), Inr ())" by simp
  with Cons.prems iter_records_step [of r l "log_bytes rs @ t"] show ?case by simp
qed

lemma map_fst_log_trace [simp]: "map fst (log_trace rs n) = rs"
  by (induction rs) simp_all

text \<open>A log with the records \<open>rs\<close>, open and synced.\<close>

definition wal_state :: "wal_record list \<Rightarrow> wal \<Rightarrow> bool" where
  "wal_state rs w \<longleftrightarrow> wl_open w \<and> wl_file w = Some (log_bytes rs) \<and> wl_durable w = wl_file w \<and>
     wl_current_lsn w = last_lsn_of rs \<and> chained 0 rs"

lemma wal_stateD:
  assumes "wal_state rs w"
  shows "wl_open w" "wl_file w = Some (log_bytes rs)" "wl_durable w = Some (log_bytes rs)"
    "wl_current_lsn w = last_lsn_of rs" "chained 0 rs" "wal_bytes_of w = log_bytes rs"
  using assms by (simp_all add: wal_state_def wal_bytes_of_def)

lemma bind_wal_open [simp]:
  "bind_op wal_require_open f w = (if wl_open w then f () w else (Inl AssertionError, w))"
  by (simp add: wal_require_open_def bind_op_assoc)

lemma wal_require_eval [simp]: "wal_require_open w = (if wl_open w then Inr () else Inl AssertionError, w)"
  by (simp add: wal_require_open_def)

lemma bind_wal_bump [simp]:
  "bind_op (wal_bump_stat g) f w = f () (w\<lparr>wl_stats := g (wl_stats w)\<rparr>)"
  by (simp add: wal_bump_stat_def)

lemma wal_bump_eval [simp]: "wal_bump_stat g w = (Inr (), w\<lparr>wl_stats := g (wl_stats w)\<rparr>)"
  by (simp add: wal_bump_stat_def)

lemma wal_append_ok:
  assumes "wal_state rs w" and "lsn rec = last_lsn_of rs + 1" and "wal_ok rec"
  shows "\<exists>w'. wal_append rec w = (Inr (lsn rec), w') \<and> wal_state (rs @ [rec]) w'"
  using wal_stateD [OF assms(1)] assms(2,3)
  by (auto simp: wal_append_def encode_wal_record_ok wal_state_def wal_bytes_of_def
      chained_append)

lemma wal_append_error:
  assumes "wl_open w" and "\<not> wal_ok rec"
  shows "wal_append rec w = (Inl StructError, w)"
  using assms encode_wal_record_fails [of rec]
  by (simp add: wal_append_def)


lemma append_put_ok:
  assumes "wal_state rs w" and "wal_ok (WALPutRecord (last_lsn_of rs + 1) key val)"
  shows "\<exists>w'. append_put key val w = (Inr (last_lsn_of rs + 1), w') \<and>
    wal_state (rs @ [WALPutRecord (last_lsn_of rs + 1) key val]) w'"
  using wal_append_ok [OF assms(1) _ assms(2)] wal_stateD(4) [OF assms(1)] by (simp add: append_put_def)

lemma append_delete_ok:
  assumes "wal_state rs w" and "wal_ok (WALDeleteRecord (last_lsn_of rs + 1) key)"
  shows "\<exists>w'. append_delete key w = (Inr (last_lsn_of rs + 1), w') \<and>
    wal_state (rs @ [WALDeleteRecord (last_lsn_of rs + 1) key]) w'"
  using wal_append_ok [OF assms(1) _ assms(2)] wal_stateD(4) [OF assms(1)] by (simp add: append_delete_def)

lemma append_checkpoint_ok:
  assumes "wal_state rs w" and "wal_ok (WALCheckpointRecord (last_lsn_of rs + 1) a b c)"
  shows "\<exists>w'. append_checkpoint a b c w = (Inr (last_lsn_of rs + 1), w') \<and>
    wal_state (rs @ [WALCheckpointRecord (last_lsn_of rs + 1) a b c]) w'"
  using wal_append_ok [OF assms(1) _ assms(2)] wal_stateD(4) [OF assms(1)] by (simp add: append_checkpoint_def)

section \<open>Reading the log back\<close>

fun log_ends :: "nat \<Rightarrow> wal_record list \<Rightarrow> (wal_record \<times> nat) list" where
  "log_ends n [] = []"
| "log_ends n (r # rs) = (r, n + length (wal_bytes r)) # log_ends (n + length (wal_bytes r)) rs"

lemma map_fst_log_ends [simp]: "map fst (log_ends n rs) = rs"
  by (induction rs arbitrary: n) simp_all

lemma log_trace_ends:
  "map (\<lambda>(r, m). (r, n + length (log_bytes rs) + k - m)) (log_trace rs k) = log_ends n rs"
proof (induction rs arbitrary: n)
  case Nil
  then show ?case by simp
next
  case (Cons r rs)
  from Cons [of "n + length (wal_bytes r)"] show ?case by (simp add: add.assoc)
qed

lemma iterate_ok:
  assumes "wl_open w" and "wl_file w = Some (log_bytes rs @ t)" and "chained 0 rs" and "ignored_tail t"
  shows "iterate w = (Inr (log_ends 0 rs, Inr ()), w)"
  using assms iter_records_log [OF assms(3,4)] log_trace_ends [of 0 rs "length t"]
  by (simp add: iterate_def wal_bytes_of_def size_bytes_def)

lemma peek_records_ok:
  assumes "wl_open w" and "wl_file w = Some (log_bytes rs @ t)" and "chained 0 rs" and "ignored_tail t"
  shows "peek_records w = (Inr (rs, Inr ()), w)"
  using iterate_ok [OF assms] by (simp add: peek_records_def bind_op_Inr)

lemma on_pair_eval [simp]:
  "bind_op (on_fst m) f (a, b) = (case m a of (Inl e, a') \<Rightarrow> (Inl e, (a', b)) | (Inr x, a') \<Rightarrow> f x (a', b))"
  "bind_op (on_snd m') g (a, b) = (case m' b of (Inl e, b') \<Rightarrow> (Inl e, (a, b')) | (Inr y, b') \<Rightarrow> g y (a, b'))"
  "on_fst m (a, b) = (case m a of (r, a') \<Rightarrow> (r, (a', b)))"
  by (auto simp: bind_op_def on_fst_def on_snd_def split: prod.splits sum.splits)

text \<open>Running a callback over records, as the clients of the log see it.\<close>

definition apply_all :: "(wal_record \<Rightarrow> ('c, unit) op) \<Rightarrow> wal_record list \<Rightarrow> ('c, unit) op" where
  "apply_all callback rs = for_fold (\<lambda>_. callback) () (rs, Inr ())"

lemma apply_all_simps [simp]:
  "apply_all cb [] = ret ()"
  "apply_all cb (r # rs) = bind_op (cb r) (\<lambda>_. apply_all cb rs)"
  by (simp_all add: apply_all_def fun_eq_iff)

lemma apply_all_append: "apply_all cb (rs @ rs') = bind_op (apply_all cb rs) (\<lambda>_. apply_all cb rs')"
proof (induction rs)
  case Nil
  show ?case by (rule ext) (simp add: bind_op_def)
next
  case (Cons r rs)
  then show ?case by (simp add: bind_op_assoc)
qed

lemma bind_replay_step:
  "bind_op (replay_step cb n (a, p)) f (w, c) =
     (let w' = w\<lparr>wl_current_lsn := lsn a,
        wl_stats := (wl_stats w)\<lparr>records_replayed := records_replayed (wl_stats w) + 1\<rparr>\<rparr>
      in case cb a c of (Inl e, c') \<Rightarrow> (Inl e, (w', c')) | (Inr _, c') \<Rightarrow> f p (w', c'))"
  by (simp add: replay_step_def bind_op_assoc split: prod.split sum.split)

lemma replay_loop_ok:
  assumes "apply_all cb rs c = (r, c')"
  shows "\<exists>st cur. for_fold (replay_step cb) n (log_ends n rs, Inr ()) (w, c) =
      (map_sum id (\<lambda>_. n + length (log_bytes rs)) r, (w\<lparr>wl_current_lsn := cur, wl_stats := st\<rparr>, c')) \<and>
      (r = Inr () \<longrightarrow> cur = (if rs = [] then wl_current_lsn w else last_lsn_of rs))"
  using assms
proof (induction rs arbitrary: n w c)
  case Nil
  then show ?case by (intro exI [of _ "wl_stats w"] exI [of _ "wl_current_lsn w"]) auto
next
  case (Cons a rs)
  let ?w = "w\<lparr>wl_current_lsn := lsn a, wl_stats := (wl_stats w)\<lparr>records_replayed := records_replayed (wl_stats w) + 1\<rparr>\<rparr>"
  show ?case
  proof (cases "cb a c")
    case (Pair x c1)
    show ?thesis
    proof (cases x)
      case (Inl e)
      with Pair Cons.prems show ?thesis
        by (intro exI [of _ "wl_stats ?w"] exI [of _ "lsn a"])
          (auto simp: bind_replay_step bind_op_Inl)
    next
      case (Inr u)
      with Pair Cons.prems have "apply_all cb rs c1 = (r, c')" by (simp add: bind_op_Inr)
      from Cons.IH [OF this, of "n + length (wal_bytes a)" ?w] obtain st cur where
        "for_fold (replay_step cb) (n + length (wal_bytes a)) (log_ends (n + length (wal_bytes a)) rs, Inr ()) (?w, c1) =
          (map_sum id (\<lambda>_. n + length (wal_bytes a) + length (log_bytes rs)) r,
           (?w\<lparr>wl_current_lsn := cur, wl_stats := st\<rparr>, c'))"
        "r = Inr () \<longrightarrow> cur = (if rs = [] then wl_current_lsn ?w else last_lsn_of rs)" by blast
      with Pair Inr show ?thesis
        by (intro exI [of _ st] exI [of _ cur])
          (simp add: bind_replay_step last_lsn_Cons add.assoc id_def)
    qed
  qed
qed

lemma replay_ok:
  assumes "wl_open w" and "wl_file w = Some (log_bytes rs @ t)" and "chained 0 rs" and "ignored_tail t"
    and "apply_all cb rs c = (Inr (), c')"
  shows "\<exists>w'. replay cb (w, c) = (Inr (), (w', c')) \<and> wal_state rs w'"
proof -
  let ?w = "w\<lparr>wl_current_lsn := 0\<rparr>"
  have it: "iterate ?w = (Inr (log_ends 0 rs, Inr ()), ?w)" using assms by (intro iterate_ok) simp_all
  have cur: "last_lsn_of rs = (if rs = [] then wl_current_lsn ?w else last_lsn_of rs)" by simp
  from replay_loop_ok [OF assms(5), of 0 ?w] obtain st where
    "for_fold (replay_step cb) 0 (log_ends 0 rs, Inr ()) (?w, c) =
       (Inr (length (log_bytes rs)), (?w\<lparr>wl_current_lsn := last_lsn_of rs, wl_stats := st\<rparr>, c'))"
    unfolding cur [symmetric] by auto
  with assms it show ?thesis by (auto simp: replay_def bind_op_Inr wal_state_def wal_bytes_of_def)
qed

lemma replay_error:
  assumes "wl_open w" and "wl_file w = Some (log_bytes rs @ t)" and "chained 0 rs" and "ignored_tail t"
    and "apply_all cb rs c = (Inl e, c')"
  shows "\<exists>w'. replay cb (w, c) = (Inl e, (w', c')) \<and> wl_open w' \<and> wl_file w' = wl_file w \<and> wl_durable w' = wl_durable w"
proof -
  let ?w = "w\<lparr>wl_current_lsn := 0\<rparr>"
  have it: "iterate ?w = (Inr (log_ends 0 rs, Inr ()), ?w)" using assms by (intro iterate_ok) simp_all
  from replay_loop_ok [OF assms(5), of 0 ?w] obtain st cur where
    "for_fold (replay_step cb) 0 (log_ends 0 rs, Inr ()) (?w, c) =
       (Inl e, (?w\<lparr>wl_current_lsn := cur, wl_stats := st\<rparr>, c'))" by auto
  with assms it show ?thesis by (auto simp: replay_def bind_op_Inl)
qed

section \<open>Rotation\<close>

lemma rotate_loop_ok:
  assumes "wl_temp w = Some b" and "\<forall>r \<in> set rs. wal_ok r"
  shows "for_fold (rotate_step l) () (log_ends n rs, Inr ()) w =
    (Inr (), w\<lparr>wl_temp := Some (b @ log_bytes (filter (\<lambda>r. l \<le> lsn r) rs))\<rparr>)"
  using assms
proof (induction rs arbitrary: w b n)
  case Nil
  then show ?case by simp
next
  case (Cons a rs)
  show ?case
  proof (cases "l \<le> lsn a")
    case True
    let ?w = "w\<lparr>wl_temp := Some (b @ wal_bytes a)\<rparr>"
    from Cons.IH [of ?w "b @ wal_bytes a" "n + length (wal_bytes a)"] Cons.prems True
    show ?thesis by (simp add: rotate_step_def encode_wal_record_ok bind_op_assoc)
  next
    case False
    with Cons.IH [of w b "n + length (wal_bytes a)"] Cons.prems
    show ?thesis by (simp add: rotate_step_def)
  qed
qed

lemma last_filter: "rs \<noteq> [] \<Longrightarrow> P (last rs) \<Longrightarrow> last (filter P rs) = last rs"
  by (induction rs rule: rev_induct) auto

lemma truncate_before_ok:
  assumes "wal_state rs w" and "l \<le> last_lsn_of rs" and "rs \<noteq> []"
  shows "\<exists>w'. truncate_before l w = (Inr (), w') \<and> wal_state (filter (\<lambda>r. l \<le> lsn r) rs) w'"
proof -
  note s = wal_stateD [OF assms(1)]
  let ?w = "w\<lparr>wl_temp := Some []\<rparr>"
  have it: "iterate ?w = (Inr (log_ends 0 rs, Inr ()), ?w)"
    using s by (intro iterate_ok [where t = "[]"]) simp_all
  have loop: "for_fold (rotate_step l) () (log_ends 0 rs, Inr ()) ?w =
      (Inr (), ?w\<lparr>wl_temp := Some (log_bytes (filter (\<lambda>r. l \<le> lsn r) rs))\<rparr>)"
    using rotate_loop_ok [of ?w "[]" rs l 0] chained_ok [OF s(5)] by simp
  have "filter (\<lambda>r. l \<le> lsn r) rs \<noteq> []"
    using assms(2,3) by (auto simp: last_lsn_of_def filter_empty_conv)
  then have "last_lsn_of (filter (\<lambda>r. l \<le> lsn r) rs) = last_lsn_of rs"
    using assms(2,3) last_filter [of rs "\<lambda>r. l \<le> lsn r"] by (auto simp: last_lsn_of_def)
  with it loop s chained_filter [OF s(5), of l] show ?thesis
    by (simp add: truncate_before_def bind_op_Inr wal_state_def)
qed


section \<open>The contract of the log\<close>

text \<open>
  What the database relies on: a log of records whose appends take the next LSN and whose truncation
  at an LSN keeps the records from there on.
\<close>

locale journal =
  fixes holds :: "wal_record list \<Rightarrow> 's \<Rightarrow> bool"
    and current :: "'s \<Rightarrow> nat"
    and put :: "bytes \<Rightarrow> bytes \<Rightarrow> ('s, nat) op"
    and del :: "bytes \<Rightarrow> ('s, nat) op"
    and checkpoint :: "nat \<Rightarrow> nat \<Rightarrow> nat \<Rightarrow> ('s, nat) op"
    and truncate :: "nat \<Rightarrow> ('s, unit) op"
  assumes chained_law: "holds rs w \<Longrightarrow> chained 0 rs"
    and current_law: "holds rs w \<Longrightarrow> current w = last_lsn_of rs"
    and put_law: "holds rs w \<Longrightarrow> wal_ok (WALPutRecord (last_lsn_of rs + 1) key val) \<Longrightarrow>
      \<exists>w'. put key val w = (Inr (last_lsn_of rs + 1), w') \<and>
        holds (rs @ [WALPutRecord (last_lsn_of rs + 1) key val]) w'"
    and delete_law: "holds rs w \<Longrightarrow> wal_ok (WALDeleteRecord (last_lsn_of rs + 1) key) \<Longrightarrow>
      \<exists>w'. del key w = (Inr (last_lsn_of rs + 1), w') \<and>
        holds (rs @ [WALDeleteRecord (last_lsn_of rs + 1) key]) w'"
    and checkpoint_law: "holds rs w \<Longrightarrow> wal_ok (WALCheckpointRecord (last_lsn_of rs + 1) a b c) \<Longrightarrow>
      \<exists>w'. checkpoint a b c w = (Inr (last_lsn_of rs + 1), w') \<and>
        holds (rs @ [WALCheckpointRecord (last_lsn_of rs + 1) a b c]) w'"
    and truncate_law: "holds rs w \<Longrightarrow> l \<le> last_lsn_of rs \<Longrightarrow> rs \<noteq> [] \<Longrightarrow>
      \<exists>w'. truncate l w = (Inr (), w') \<and> holds (filter (\<lambda>r. l \<le> lsn r) rs) w'"
begin

lemma last_lsn_bound: "holds rs w \<Longrightarrow> r \<in> set rs \<Longrightarrow> lsn r \<le> last_lsn_of rs"
proof -
  assume "holds rs w" "r \<in> set rs"
  moreover have "chained l rs \<Longrightarrow> r \<in> set rs \<Longrightarrow> lsn r \<le> last_lsn_of rs" for l
  proof (induction rs arbitrary: l)
    case (Cons a rs)
    have "rs \<noteq> [] \<Longrightarrow> lsn a < last_lsn_of rs"
      using Cons.prems(1) chained_lower [of "lsn a" rs "last rs"] by (simp add: last_lsn_of_def)
    with Cons show ?case by (auto simp: last_lsn_Cons)
  qed simp
  ultimately show ?thesis using chained_law by blast
qed

text \<open>A checkpoint record followed by truncation at its LSN leaves that record alone in the log.\<close>

lemma checkpoint_truncate:
  assumes "holds rs w" and "wal_ok (WALCheckpointRecord (last_lsn_of rs + 1) a b c)"
  obtains w1 w2 where "checkpoint a b c w = (Inr (last_lsn_of rs + 1), w1)"
    "holds (rs @ [WALCheckpointRecord (last_lsn_of rs + 1) a b c]) w1"
    "truncate (last_lsn_of rs + 1) w1 = (Inr (), w2)"
    "holds [WALCheckpointRecord (last_lsn_of rs + 1) a b c] w2"
proof -
  let ?cp = "WALCheckpointRecord (last_lsn_of rs + 1) a b c"
  from checkpoint_law [OF assms] obtain w1 where w1: "checkpoint a b c w = (Inr (last_lsn_of rs + 1), w1)"
    "holds (rs @ [?cp]) w1" by blast
  have "\<forall>r \<in> set rs. lsn r \<le> last_lsn_of rs" using last_lsn_bound [OF assms(1)] by blast
  then have "filter (\<lambda>r. last_lsn_of rs + 1 \<le> lsn r) (rs @ [?cp]) = [?cp]" by (auto simp: filter_empty_conv)
  with truncate_law [OF w1(2), of "last_lsn_of rs + 1"] that [OF w1] show thesis by auto
qed

end

interpretation wal_log: journal wal_state wl_current_lsn append_put append_delete append_checkpoint
    truncate_before
  by unfold_locales (blast dest: wal_stateD append_put_ok append_delete_ok append_checkpoint_ok
      truncate_before_ok)+

text \<open>Opening the log file left by an earlier run, or a fresh one.\<close>

lemma wal_open_ok:
  "\<exists>w. wal_open (WAL_init contents temp) = (Inr (), w) \<and> wl_open w \<and> wl_temp w = None \<and>
     wl_file w = Some (case contents of None \<Rightarrow> [] | Some b \<Rightarrow> b) \<and> wl_durable w = wl_file w"
  by (cases contents) (auto simp: wal_open_def WAL_init_def wal_bytes_of_def)

text \<open>A record damaged after its length prefix is passed over as one frame.\<close>

lemma decode_next_damaged:
  assumes "wal_ok rec" and "4 \<le> i" and "i < length (wal_bytes rec)" and "x \<noteq> wal_bytes rec ! i"
  shows "\<exists>a b. decode_next_wal_record_from_file ((wal_bytes rec)[i := x] @ rest) =
    (Inl (DBChecksumError a b), rest)"
proof -
  from wal_bytes_frame [OF assms(1)] obtain body
    where body: "wal_bytes rec = le_enc 4 (length body) @ body" "length body < 256 ^ 4" .
  have upd: "(wal_bytes rec)[i := x] = le_enc 4 (length (body[i - 4 := x])) @ body[i - 4 := x]"
    using assms(2) by (simp add: body(1) list_update_append)
  have "wal_bytes rec = take i (wal_bytes rec) @ wal_bytes rec ! i # drop (Suc i) (wal_bytes rec)"
    using assms(3) by (simp add: id_take_nth_drop [symmetric])
  from decode_wal_record_corrupt [OF this assms(4) [symmetric]] obtain a b where
    "decode_wal_record ((wal_bytes rec)[i := x]) = Inl (DBChecksumError a b)"
    using assms(3) by (auto simp: upd_conv_take_nth_drop)
  with decode_next_frame [of "body[i - 4 := x]" rest] body(2) show ?thesis by (simp add: upd)
qed

lemma damaged_tail_ignored:
  assumes "wal_ok rec" and "4 \<le> i" and "i < length (wal_bytes rec)" and "x \<noteq> wal_bytes rec ! i"
  shows "ignored_tail ((wal_bytes rec)[i := x])"
  using decode_next_damaged [OF assms, of "[]"] ignored_checksum by fastforce

lemma iter_records_prefix:
  assumes "chained l rs"
  shows "\<exists>recs. iter_records (log_bytes rs @ t) l False = (recs @ fst (iter_records t (if rs = [] then l else last_lsn_of rs) False),
      snd (iter_records t (if rs = [] then l else last_lsn_of rs) False)) \<and> map fst recs = rs"
  using assms
proof (induction rs arbitrary: l)
  case Nil
  then show ?case by simp
next
  case (Cons r rs)
  let ?e = "iter_records t (if rs = [] then lsn r else last_lsn_of rs) False"
  from Cons obtain recs where "iter_records (log_bytes rs @ t) (lsn r) False = (recs @ fst ?e, snd ?e)"
    "map fst recs = rs" by fastforce
  then show ?case using iter_records_step [of r l "log_bytes rs @ t"] Cons.prems
    by (intro exI [of _ "(r, length (log_bytes rs @ t)) # recs"]) (simp add: last_lsn_Cons)
qed

lemma peek_records_error:
  assumes "wl_open w" and "wl_file w = Some (log_bytes rs @ t)" and "chained 0 rs"
    and "iter_records t (last_lsn_of rs) False = ([], Inl e)"
  shows "peek_records w = (Inr (rs, Inl e), w)"
proof -
  have l: "(if rs = [] then 0 else last_lsn_of rs) = last_lsn_of rs" by simp
  from iter_records_prefix [OF assms(3), of t] assms(4) obtain recs where
    "iter_records (log_bytes rs @ t) 0 False = (recs, Inl e)" "map fst recs = rs"
    unfolding l by auto
  then show ?thesis using assms(1,2)
    by (simp add: peek_records_def iterate_def wal_bytes_of_def bind_op_def comp_def case_prod_unfold)
qed

lemma peek_records_damaged:
  assumes "chained 0 rs" and "wal_ok bad" and "wal_ok good" and "4 \<le> i" and "i < length (wal_bytes bad)"
    and "x \<noteq> wal_bytes bad ! i" and "wl_open w"
    and "wl_file w = Some (log_bytes rs @ (wal_bytes bad)[i := x] @ wal_bytes good @ rest)"
  shows "peek_records w =
    (Inr (rs, Inl (DBCorruptedError ''WAL contains a broken record followed by a valid record'')), w)"
proof (rule peek_records_error [OF assms(7,8,1)])
  from decode_next_damaged [OF assms(2,4,5,6), of "wal_bytes good @ rest"] obtain a b where
    "decode_next_wal_record_from_file ((wal_bytes bad)[i := x] @ wal_bytes good @ rest) =
      (Inl (DBChecksumError a b), wal_bytes good @ rest)" by blast
  from broken_frame [OF this] show "iter_records ((wal_bytes bad)[i := x] @ wal_bytes good @ rest) (last_lsn_of rs) False =
      ([], Inl (DBCorruptedError ''WAL contains a broken record followed by a valid record''))"
    by (simp add: iter_records.simps [of "wal_bytes good @ rest"] decode_next_ok [OF assms(3)])
qed

section \<open>Properties of the log\<close>

text \<open>
  C30: an append is durable before it returns and takes the next LSN: reading the log gives the old
  records followed by the new one, and the bytes guaranteed to survive a crash are exactly theirs.
\<close>

theorem append_put_is_durable:
  assumes "wal_state rs w" and "wal_ok (WALPutRecord (last_lsn_of rs + 1) key val)"
  shows "\<exists>w'. append_put key val w = (Inr (last_lsn_of rs + 1), w') \<and>
    wal_state (rs @ [WALPutRecord (last_lsn_of rs + 1) key val]) w' \<and>
    wl_durable w' = Some (the (wl_durable w) @ wal_bytes (WALPutRecord (last_lsn_of rs + 1) key val)) \<and>
    peek_records w' = (Inr (rs @ [WALPutRecord (last_lsn_of rs + 1) key val], Inr ()), w')"
proof -
  let ?rec = "WALPutRecord (last_lsn_of rs + 1) key val"
  from wal_log.put_law [OF assms] obtain w' where
    w': "append_put key val w = (Inr (last_lsn_of rs + 1), w')" "wal_state (rs @ [?rec]) w'" by blast
  note s = wal_stateD [OF w'(2)]
  from s have "peek_records w' = (Inr (rs @ [?rec], Inr ()), w')"
    by (intro peek_records_ok [where t = "[]"]) simp_all
  with w' s(3) wal_stateD(3) [OF assms(1)] show ?thesis by auto
qed

definition empty_log :: wal where
  "empty_log = \<lparr>wl_file = Some [], wl_durable = Some [], wl_temp = None, wl_current_lsn = 0,
     wl_stats = fresh_wal_stats, wl_open = True\<rparr>"

lemma empty_log_state: "wal_state [] empty_log"
  by (simp add: wal_state_def empty_log_def)

lemma small_put_ok: "l < 256 ^ 8 \<Longrightarrow> length key < 1000 \<Longrightarrow> length val < 1000 \<Longrightarrow> wal_ok (WALPutRecord l key val)"
  by (simp add: wal_ok_def length_wal_body)

theorem append_put_is_durable_witness:
  "\<exists>w'. append_put [1] [2] empty_log = (Inr 1, w') \<and>
     peek_records w' = (Inr ([WALPutRecord 1 [1] [2]], Inr ()), w')"
  using append_put_is_durable [OF empty_log_state, of "[1]" "[2]"] small_put_ok [of 1 "[1]" "[2]"] by auto

text \<open>
  C29: a crash in the middle of an append loses that record and nothing else: reopening the log that
  the crash leaves, whatever prefix of the record reached the file, and replaying it passes every
  earlier record to the callback in order and cuts the torn bytes off.
\<close>

theorem crash_during_append_recovers:
  assumes "wal_state rs w" and "wal_ok rec" and "n < length (wal_bytes rec)"
    and "apply_all callback rs c = (Inr (), c')"
  shows "\<exists>w'. bind_op (on_fst wal_open) (\<lambda>_. replay callback)
      (WAL_init (Some (the (wl_durable w) @ take n (wal_bytes rec))) temp, c) = (Inr (), (w', c')) \<and>
    wal_state rs w'"
proof -
  have t: "ignored_tail (take n (wal_bytes rec))"
    using assms(3) by (intro ignored_torn [OF assms(2), of _ "drop n (wal_bytes rec)"]) simp_all
  from wal_open_ok [of "Some (the (wl_durable w) @ take n (wal_bytes rec))" temp] wal_stateD(3) [OF assms(1)]
  obtain w1 where "wal_open (WAL_init (Some (the (wl_durable w) @ take n (wal_bytes rec))) temp) = (Inr (), w1)"
    "wl_open w1" "wl_file w1 = Some (log_bytes rs @ take n (wal_bytes rec))" by auto
  with replay_ok [OF this(2,3) wal_stateD(5) [OF assms(1)] t assms(4)] show ?thesis by simp
qed

definition one_put_log :: wal where
  "one_put_log = snd (append_put [1] [2] empty_log)"

lemma one_put_state: "wal_state [WALPutRecord 1 [1] [2]] one_put_log"
  using append_put_ok [OF empty_log_state, of "[1]" "[2]"] small_put_ok [of 1 "[1]" "[2]"]
  by (auto simp: one_put_log_def)

theorem crash_during_append_recovers_witness:
  "\<exists>w'. bind_op (on_fst wal_open) (\<lambda>_. replay (\<lambda>r. modify_op (\<lambda>seen. seen @ [r])))
      (WAL_init (Some (the (wl_durable one_put_log) @ take 9 (wal_bytes (WALPutRecord 2 [3] [])))) None, []) =
        (Inr (), (w', [WALPutRecord 1 [1] [2]])) \<and> wal_state [WALPutRecord 1 [1] [2]] w'"
  by (rule crash_during_append_recovers [OF one_put_state])
    (use small_put_ok [of 2 "[3]" "[]"] in \<open>simp_all add: length_wal_bytes\<close>)

text \<open>
  C31: a record in which one byte after the length prefix was changed, followed by an intact record, is not a torn
  tail: the reader yields the records before it and then raises \<^verbatim>\<open>DBCorruptedError\<close>. Damage to the length prefix is not
  covered (\<open>damaged_length_hides_records\<close>).
\<close>

theorem damage_before_valid_record_is_corruption:
  assumes "chained 0 rs" and "wal_ok bad" and "wal_ok good" and "4 \<le> i" and "i < length (wal_bytes bad)"
    and "x \<noteq> wal_bytes bad ! i" and "wl_open w"
    and "wl_file w = Some (log_bytes rs @ (wal_bytes bad)[i := x] @ wal_bytes good @ rest)"
  shows "peek_records w =
    (Inr (rs, Inl (DBCorruptedError ''WAL contains a broken record followed by a valid record'')), w)"
  by (rule peek_records_damaged [OF assms])

theorem damage_before_valid_record_is_corruption_witness:
  "peek_records (empty_log\<lparr>wl_file := Some ((wal_bytes (WALPutRecord 1 [] []))[4 := wal_bytes (WALPutRecord 1 [] []) ! 4 + 1] @
       wal_bytes (WALPutRecord 2 [] []))\<rparr>) =
     (Inr ([], Inl (DBCorruptedError ''WAL contains a broken record followed by a valid record'')),
      empty_log\<lparr>wl_file := Some ((wal_bytes (WALPutRecord 1 [] []))[4 := wal_bytes (WALPutRecord 1 [] []) ! 4 + 1] @
       wal_bytes (WALPutRecord 2 [] []))\<rparr>)"
  by (rule damage_before_valid_record_is_corruption [of "[]" "WALPutRecord 1 [] []" "WALPutRecord 2 [] []" 4 _ _ "[]"])
    (simp_all add: small_put_ok length_wal_bytes empty_log_def)

text \<open>
  A damaged last record is dropped by recovery like a torn one: replay applies the records before
  it and truncates the file to them.
\<close>

lemma damaged_last_record_is_dropped:
  assumes "chained 0 rs" and "wal_ok bad" and "4 \<le> i" and "i < length (wal_bytes bad)"
    and "x \<noteq> wal_bytes bad ! i" and "wl_open w"
    and "wl_file w = Some (log_bytes rs @ (wal_bytes bad)[i := x])"
    and "apply_all callback rs c = (Inr (), c')"
  shows "\<exists>w'. replay callback (w, c) = (Inr (), (w', c')) \<and> wal_state rs w'"
  using replay_ok [OF assms(6,7,1) damaged_tail_ignored [OF assms(2,3,4,5)] assms(8)] .

lemma long_prefix_eof:
  assumes "length prefix = 4" and "length rest < le_dec prefix"
  shows "fst (decode_next_wal_record_from_file (prefix @ rest)) = Inl EOFError"
  using decode_next_short_body [of "le_dec prefix" rest] le_dec_bound [of prefix] le_enc_dec [of prefix] assms by simp

text \<open>
  The length prefix of a record is trusted. When it is damaged so that it runs past the end of the file, the reader
  sees a torn record: the records before it are read and replayed, and everything after it is cut off without
  \<^verbatim>\<open>DBCorruptedError\<close>, intact records included.
\<close>

lemma damaged_length_hides_records:
  assumes "chained 0 rs" and "length prefix = 4" and "length rest < le_dec prefix" and "wl_open w"
    and "wl_file w = Some (log_bytes rs @ prefix @ rest)" and "apply_all callback rs c = (Inr (), c')"
  shows "peek_records w = (Inr (rs, Inr ()), w)"
    and "\<exists>w'. replay callback (w, c) = (Inr (), (w', c')) \<and> wal_state rs w'"
proof -
  have tail: "ignored_tail (prefix @ rest)" by (rule ignored_eof) (rule long_prefix_eof [OF assms(2,3)])
  show "peek_records w = (Inr (rs, Inr ()), w)" by (rule peek_records_ok [OF assms(4,5,1) tail])
  show "\<exists>w'. replay callback (w, c) = (Inr (), (w', c')) \<and> wal_state rs w'" by (rule replay_ok [OF assms(4,5,1) tail assms(6)])
qed

lemma two_put_state: "wal_state [WALPutRecord 1 [1] [2], WALPutRecord 2 [3] []] (snd (append_put [3] [] one_put_log))"
  using append_put_ok [OF one_put_state, of "[3]" "[]"] small_put_ok [of 2 "[3]" "[]"] wal_log.current_law [OF one_put_state]
  by (auto simp: last_lsn_of_def numeral_2_eq_2)

text \<open>
  C32: rotation keeps exactly the records from the given LSN on, in order, and the log can go on: the
  current LSN is unchanged and the file that a crash leaves is the rotated one.
\<close>

theorem truncate_before_keeps_newer_records:
  assumes "wal_state rs w" and "rs \<noteq> []" and "l \<le> wl_current_lsn w"
  shows "\<exists>w'. truncate_before l w = (Inr (), w') \<and> wal_state (filter (\<lambda>r. l \<le> lsn r) rs) w' \<and>
    wl_current_lsn w' = wl_current_lsn w \<and> wl_temp w' = None"
proof -
  have last: "wl_current_lsn w = last_lsn_of rs" by (rule wal_log.current_law [OF assms(1)])
  from truncate_before_ok [OF assms(1) _ assms(2), of l] assms(3) last obtain w' where
    w': "truncate_before l w = (Inr (), w')" "wal_state (filter (\<lambda>r. l \<le> lsn r) rs) w'" by auto
  have "filter (\<lambda>r. l \<le> lsn r) rs \<noteq> []"
    using assms(2,3) last by (auto simp: last_lsn_of_def filter_empty_conv)
  then have "last_lsn_of (filter (\<lambda>r. l \<le> lsn r) rs) = last_lsn_of rs"
    using last_filter [OF assms(2), of "\<lambda>r. l \<le> lsn r"] assms(2,3) last by (simp add: last_lsn_of_def)
  moreover have "wl_temp w' = None"
    using w'(1) by (auto simp: truncate_before_def bind_op_def split: prod.splits sum.splits if_splits)
  ultimately show ?thesis using w' last wal_log.current_law [OF w'(2)] by simp
qed

theorem truncate_before_keeps_newer_records_witness:
  "\<exists>w w'. wal_state [WALPutRecord 1 [1] [2], WALPutRecord 2 [3] []] w \<and> truncate_before 2 w = (Inr (), w') \<and>
     wal_state [WALPutRecord 2 [3] []] w' \<and> wl_current_lsn w' = wl_current_lsn w"
  using truncate_before_keeps_newer_records [OF two_put_state, of 2] wal_log.current_law [OF two_put_state] two_put_state
  by (auto simp: last_lsn_of_def)

end
