(* ===== verification/Db.thy ===== *)
theory Db
  imports TreeOps Wal
begin

text \<open>
  The database facade (\<^verbatim>\<open>db.py\<close>): its state, opening with recovery from the log, checkpoints, and the public
  operations. The state holds the tree (with its pool and pager) and the log; an operation of either runs on
  its part of the state (\<open>on_tree\<close>, \<open>on_wal\<close>).
\<close>

section \<open>State\<close>

text \<open>\<^verbatim>\<open>BPlusTree(pager, buffer_pool)\<close>: the tree's statistics on top of the pool.\<close>

definition BPlusTree_init :: "buffer_pool \<Rightarrow> tree" where
  "BPlusTree_init pool = buffer_pool.extend pool \<lparr>tr_stats = fresh_tree_stats\<rparr>"

record db =
  db_tree :: tree
  db_wal :: wal
  db_page_size_bytes :: nat
  db_checkpoint_wal_size_bytes :: nat
  db_checkpoint_dirty_page_ratio :: "nat \<times> nat"
  db_is_opened :: bool
  db_version_counter :: nat
  db_recovery_last_checkpoint_lsn :: nat

text \<open>
  \<^verbatim>\<open>DB(data_dir, ...)\<close>, given what is at the paths of the data file, of the log and of the log's rotation
  file. It raises when the pager refuses the page size.
\<close>

definition DB_init ::
  "bytes option \<Rightarrow> bytes option \<Rightarrow> bytes option \<Rightarrow> nat \<Rightarrow> nat \<Rightarrow> nat \<Rightarrow> nat \<times> nat \<Rightarrow> db result" where
  "DB_init data_file wal_file wal_temp ps cache_capacity_pages wal_limit ratio =
     bind_r (Pager_init data_file ps) (\<lambda>p.
     Inr \<lparr>db_tree = BPlusTree_init (BufferPool_init p cache_capacity_pages),
          db_wal = WAL_init wal_file wal_temp, db_page_size_bytes = ps,
          db_checkpoint_wal_size_bytes = wal_limit, db_checkpoint_dirty_page_ratio = ratio,
          db_is_opened = False, db_version_counter = 0, db_recovery_last_checkpoint_lsn = 0\<rparr>)"

definition on_tree :: "(tree, 'a) op \<Rightarrow> (db, 'a) op" where
  "on_tree m s = (case m (db_tree s) of (r, t) \<Rightarrow> (r, s\<lparr>db_tree := t\<rparr>))"

definition on_wal :: "(wal, 'a) op \<Rightarrow> (db, 'a) op" where
  "on_wal m s = (case m (db_wal s) of (r, w) \<Rightarrow> (r, s\<lparr>db_wal := w\<rparr>))"

section \<open>Checkpoints\<close>

definition db_checkpoint :: "(db, unit) op" where
  "db_checkpoint =
     bind_op (gets_op (\<lambda>s. wl_current_lsn (db_wal s) + 1)) (\<lambda>checkpoint_lsn.
     bind_op (on_tree flush_all) (\<lambda>_.
     bind_op (on_tree flush_dirty_freelist_pages) (\<lambda>_.
     bind_op (on_tree fsync) (\<lambda>_.
     bind_op (on_tree get_meta) (\<lambda>m.
     bind_op (on_wal (append_checkpoint (root_page_id m) (freelist_head_page_id m) (next_page_id m))) (\<lambda>_.
     bind_op (on_tree (update_meta (last_checkpoint_lsn_update (\<lambda>_. checkpoint_lsn)))) (\<lambda>_.
     bind_op (on_tree flush_meta) (\<lambda>_.
     bind_op (on_tree fsync) (\<lambda>_.
     on_wal (truncate_before checkpoint_lsn))))))))))"

text \<open>The first test of the disjunction that holds decides: the ratio is not computed when the log is too long.\<close>

definition db_maybe_checkpoint :: "(db, unit) op" where
  "db_maybe_checkpoint =
     bind_op (gets_op (\<lambda>s. db_checkpoint_wal_size_bytes s < size_bytes (db_wal s))) (\<lambda>too_long.
     bind_op (if too_long then ret True
              else bind_op (gets_op db_checkpoint_dirty_page_ratio) (\<lambda>(num, den).
                   on_tree (dirty_ratio_above num den))) (\<lambda>should_checkpoint.
     if should_checkpoint then db_checkpoint else ret ()))"

section \<open>Opening, recovery and closing\<close>

definition db_eviction_disabled :: "(db, 'a) op \<Rightarrow> (db, 'a) op" where
  "db_eviction_disabled body =
     bind_op (gets_op (\<lambda>s. bp_eviction_enabled (db_tree s))) (\<lambda>previous.
     bind_op (on_tree (modify_op (\<lambda>t. t\<lparr>bp_eviction_enabled := False\<rparr>))) (\<lambda>_.
     finally_op body (on_tree (modify_op (\<lambda>t. t\<lparr>bp_eviction_enabled := previous\<rparr>)))))"

text \<open>The loop over \<^verbatim>\<open>peek_records\<close> that looks for the newest checkpoint record.\<close>

definition newer_checkpoint :: "wal_record option \<Rightarrow> wal_record \<Rightarrow> (db, wal_record option) op" where
  "newer_checkpoint latest rec =
     (if is_WALCheckpointRecord rec \<and> (case latest of None \<Rightarrow> True | Some c \<Rightarrow> lsn c < lsn rec)
      then ret (Some rec) else ret latest)"

definition repair_pager_meta_from_wal_checkpoint :: "(db, unit) op" where
  "repair_pager_meta_from_wal_checkpoint =
     bind_op (on_tree get_meta) (\<lambda>m.
     bind_op (on_wal peek_records) (\<lambda>trace.
     bind_op (for_fold newer_checkpoint None trace) (\<lambda>latest_checkpoint.
     case latest_checkpoint of
       None \<Rightarrow> ret ()
     | Some c \<Rightarrow>
         if lsn c \<le> last_checkpoint_lsn m then ret ()
         else on_tree (update_meta (\<lambda>m. m\<lparr>root_page_id := rec_root_page_id c,
                freelist_head_page_id := rec_freelist_head c, next_page_id := rec_next_page_id c,
                last_checkpoint_lsn := lsn c\<rparr>)))))"

definition apply_wal_record :: "wal_record \<Rightarrow> (db, unit) op" where
  "apply_wal_record rec =
     bind_op (gets_op db_recovery_last_checkpoint_lsn) (\<lambda>from_lsn.
     if lsn rec \<le> from_lsn then ret ()
     else case rec of
       WALPutRecord l key val \<Rightarrow> on_tree (tree_insert key val l)
     | WALDeleteRecord l key \<Rightarrow> bind_op (on_tree (tree_delete key l)) (\<lambda>_. ret ())
     | WALCheckpointRecord _ _ _ _ \<Rightarrow> ret ())"

text \<open>\<^verbatim>\<open>self.wal.replay(self._apply_wal_record)\<close>: the callback does not touch the log.\<close>

definition db_replay :: "(db, unit) op" where
  "db_replay s = (case replay apply_wal_record (db_wal s, s) of (r, (w, s')) \<Rightarrow> (r, s'\<lparr>db_wal := w\<rparr>))"

definition db_recover :: "(db, unit) op" where
  "db_recover =
     bind_op (db_eviction_disabled (
       bind_op repair_pager_meta_from_wal_checkpoint (\<lambda>_.
       bind_op (on_tree get_meta) (\<lambda>m.
       bind_op (modify_op (\<lambda>s. s\<lparr>db_recovery_last_checkpoint_lsn := last_checkpoint_lsn m\<rparr>)) (\<lambda>_.
       db_replay))))) (\<lambda>_.
     db_checkpoint)"

definition db_open :: "(db, unit) op" where
  "db_open =
     bind_op (on_tree pager_open) (\<lambda>_.
     bind_op (on_wal wal_open) (\<lambda>_.
     bind_op (on_error db_recover (bind_op (on_wal wal_close) (\<lambda>_. on_tree pager_close))) (\<lambda>_.
     modify_op (\<lambda>s. s\<lparr>db_is_opened := True\<rparr>))))"

definition db_close :: "(db, unit) op" where
  "db_close =
     bind_op (gets_op db_is_opened) (\<lambda>is_opened.
     if \<not> is_opened then ret ()
     else finally_op
       (bind_op db_checkpoint (\<lambda>_. bind_op (on_wal wal_close) (\<lambda>_. on_tree pager_close)))
       (modify_op (\<lambda>s. s\<lparr>db_is_opened := False, db_version_counter := 0\<rparr>)))"

definition db_enter :: "(db, unit) op" where
  "db_enter = db_open"

definition db_exit :: "(db, bool) op" where
  "db_exit = bind_op db_close (\<lambda>_. ret False)"

section \<open>Operations\<close>

text \<open>An argument of the public methods: a \<^verbatim>\<open>bytes\<close> object or anything else.\<close>

datatype py_object = PyBytes bytes | PyOther

definition check_if_opened :: "(db, unit) op" where
  "check_if_opened = bind_op (gets_op db_is_opened) (\<lambda>is_opened. if \<not> is_opened then raise DBClosedError else ret ())"

text \<open>The type check, giving the bytes.\<close>

definition ensure_bytes_type :: "py_object \<Rightarrow> (db, bytes) op" where
  "ensure_bytes_type val = (case val of PyBytes b \<Rightarrow> ret b | PyOther \<Rightarrow> raise TypeError)"

definition bump_version :: "(db, unit) op" where
  "bump_version = modify_op (\<lambda>s. s\<lparr>db_version_counter := db_version_counter s + 1\<rparr>)"

definition db_put :: "py_object \<Rightarrow> py_object \<Rightarrow> (db, unit) op" where
  "db_put key_arg value_arg =
     bind_op check_if_opened (\<lambda>_.
     bind_op (ensure_bytes_type key_arg) (\<lambda>key.
     bind_op (ensure_bytes_type value_arg) (\<lambda>val.
     bind_op (on_tree (raise_if_record_too_large key val)) (\<lambda>_.
     bind_op db_maybe_checkpoint (\<lambda>_.
     bind_op (on_wal (append_put key val)) (\<lambda>l.
     bind_op (on_tree (tree_insert key val l)) (\<lambda>_.
     bind_op bump_version (\<lambda>_.
     db_maybe_checkpoint))))))))"

definition db_get :: "py_object \<Rightarrow> (db, bytes option) op" where
  "db_get key_arg =
     bind_op check_if_opened (\<lambda>_.
     bind_op (ensure_bytes_type key_arg) (\<lambda>key.
     on_tree (tree_search key)))"

definition db_delete :: "py_object \<Rightarrow> (db, bool) op" where
  "db_delete key_arg =
     bind_op check_if_opened (\<lambda>_.
     bind_op (ensure_bytes_type key_arg) (\<lambda>key.
     bind_op (on_tree (tree_search key)) (\<lambda>found.
     if found = None then ret False
     else bind_op db_maybe_checkpoint (\<lambda>_.
          bind_op (on_wal (append_delete key)) (\<lambda>l.
          bind_op (on_tree (tree_delete key l)) (\<lambda>was_deleted.
          bind_op (assert_op was_deleted) (\<lambda>_.
          bind_op bump_version (\<lambda>_.
          bind_op db_maybe_checkpoint (\<lambda>_.
          ret True)))))))))"

text \<open>
  \<^verbatim>\<open>scan\<close> validates its arguments and returns the tree's generator; the closure \<^verbatim>\<open>check_version\<close> compares
  the version counter with the one captured. No write can happen while the generator runs between two
  \<^verbatim>\<open>yield\<close>s, so one step of it sees one value of the counter.
\<close>

datatype scan_iter = ScanIter (scan_start: "bytes option") (scan_end: "bytes option") (version_snapshot: nat) (scan_position: scan_cursor)

definition ensure_bound :: "py_object option \<Rightarrow> (db, bytes option) op" where
  "ensure_bound bound = (case bound of None \<Rightarrow> ret None
     | Some b \<Rightarrow> bind_op (ensure_bytes_type b) (\<lambda>b. ret (Some b)))"

definition db_scan :: "py_object option \<Rightarrow> py_object option \<Rightarrow> (db, scan_iter) op" where
  "db_scan start_arg end_arg =
     bind_op check_if_opened (\<lambda>_.
     bind_op (ensure_bound start_arg) (\<lambda>start.
     bind_op (ensure_bound end_arg) (\<lambda>end_key.
     gets_op (\<lambda>s. ScanIter start end_key (db_version_counter s) ScanStart))))"

definition check_version :: "nat \<Rightarrow> nat \<Rightarrow> (tree, unit) op" where
  "check_version snapshot counter =
     (if snapshot \<noteq> counter then raise DBConcurrentPageModificationError else ret ())"

definition db_scan_next :: "scan_iter \<Rightarrow> (db, (bytes \<times> bytes) option \<times> scan_iter) op" where
  "db_scan_next it =
     bind_op (gets_op db_version_counter) (\<lambda>counter.
     bind_op (on_tree (scan_next (scan_start it) (scan_end it) (check_version (version_snapshot it) counter) (scan_position it)))
       (\<lambda>(item, cursor). ret (item, ScanIter (scan_start it) (scan_end it) (version_snapshot it) cursor)))"

end
