(* ===== verification/Durable.thy ===== *)
theory Durable
  imports TreeOps
begin

text \<open>
  What reaches the disk: the pages of a tree can be encoded, a checkpoint writes the dirty pages, the
  freelist and the meta page (\<open>checkpoint_pages\<close>, \<open>checkpoint_meta\<close>), and the file it leaves is an image
  (\<open>image_ok\<close>) that a fresh pager and an empty pool open as the same store (\<open>open_file\<close>, \<open>image_pool\<close>).
\<close>

section \<open>Growth of the file under an update of the tree\<close>

lemma find_leaf_path:
  fixes s :: "'z tree_scheme"
  assumes "tree_holds E h m n s" and "Suc h \<le> n"
  obtains res s1 where "find_leaf key s = (Inr res, s1)" "length (search_path res) = h"
proof -
  from assms(1) obtain T where T: "tree_fine (env_page_size E) h T"
    "pool_state E (map_of (pages T)) {} {} {} n (pid T) s" by (auto simp: tree_holds_def)
  have st: "pool_state E (map_of (pages T)) {} {} {} (Suc (0 + h)) (pid T) s" by (rule pool.weaken [OF T(2)]) (use assms(2) in simp_all)
  have "tree_ok (env_page_size E) h T" using T(1) by (simp add: tree_fine_def)
  from find_leaf_ok [OF st this, of key] that show thesis by (auto elim!: foundE)
qed

lemma tree_update_grows:
  fixes s :: "'z tree_scheme"
  assumes holds: "tree_holds E h m n s" and n: "Suc h \<le> n"
  shows "tree_insert key v l s = (r, s') \<Longrightarrow> grown (2 * (h + 2)) s s'"
    and "tree_delete key l s = (r', s') \<Longrightarrow> grown (2 * (h + 2)) s s'"
proof -
  from holds n obtain res s1 where res: "find_leaf key s = (Inr res, s1)" "length (search_path res) = h" by (rule find_leaf_path)
  note s1 = growsD [OF grows_find res(1)]
  note w = grows_write [OF res(2)]
  show "grown (2 * (h + 2)) s s'" if run: "tree_insert key v l s = (r, s')"
  proof (cases "int (calculate_leaf_record_size key v) \<le> get_max_leaf_record_size (env_page_size E)")
    case True
    from run raise_if_record_too_large_ok [OF holds, of key v] True res(1) obtain x where
      "bind_op (mutate_page (leaf_page_id res) x) (\<lambda>_. balance_and_write_tree (leaf_page_id res) x (search_path res) l) s1 = (r, s')"
      unfolding tree_insert_def bind_op_def [of "raise_if_record_too_large key v"] bind_op_def [of "find_leaf key"] by (auto simp: Let_def)
    from grown_trans [OF s1 growsD [OF w this]] show ?thesis by simp
  qed (use run raise_if_record_too_large_ok [OF holds, of key v] in \<open>simp add: tree_insert_def bind_op_def\<close>)
  show "grown (2 * (h + 2)) s s'" if run: "tree_delete key l s = (r', s')"
  proof (cases "slot_has_key (lslots (leaf_page res)) (bisect_left (map lkey (lslots (leaf_page res))) key) key")
    case True
    with run res(1) obtain x where
      "bind_op (bind_op (mutate_page (leaf_page_id res) x) (\<lambda>_. balance_and_write_tree (leaf_page_id res) x (search_path res) l)) (\<lambda>_. ret True) s1 = (r', s')"
      unfolding tree_delete_def bind_op_def [of "find_leaf key"] by (auto simp: Let_def bind_op_assoc)
    from grown_trans [OF s1 growsD [OF grows_bind [OF w grows_basic(1)] this, of 0]] show ?thesis by simp
  next
    case False
    with run res(1) grown_mono [OF s1] show ?thesis by (simp add: tree_delete_def bind_op_def Let_def)
  qed
qed

text \<open>Whatever the state and the outcome, an update overwrites nothing of the data file.\<close>

definition appends :: "('z pager_scheme, 'a) op \<Rightarrow> bool" where
  "appends f \<longleftrightarrow> (\<forall>s. \<exists>x. file_bytes (snd (f s)) = file_bytes s @ x)"

lemma appends_grows: "grows k f \<Longrightarrow> appends f"
  by (auto simp: appends_def grows_def grown_def)

lemma appends_bind:
  assumes "appends m" and "\<And>a. appends (f a)"
  shows "appends (bind_op m f)"
  unfolding appends_def
proof
  fix s
  obtain r s1 where m: "m s = (r, s1)" by (cases "m s")
  moreover obtain x where "file_bytes s1 = file_bytes s @ x" using assms(1) m unfolding appends_def by (metis snd_conv)
  moreover obtain y where "file_bytes (snd (f a s1)) = file_bytes s1 @ y" if "r = Inr a" for a
    using assms(2) unfolding appends_def by (cases r) (blast, metis sum.inject(2))
  ultimately show "\<exists>x. file_bytes (snd (bind_op m f s)) = file_bytes s @ x" by (cases r) (auto simp: bind_op_def)
qed

lemma appends_if: "appends f \<Longrightarrow> appends g \<Longrightarrow> appends (if b then f else g)"
  by simp

lemma appends_update: "appends (tree_insert key v l)" "appends (tree_delete key l)"
proof -
  have large: "appends (raise_if_record_too_large key v)"
    unfolding raise_if_record_too_large_def by (intro appends_grows [of 0] grows_rules grows_bind0)
  have find: "appends (find_leaf key)" by (rule appends_grows [OF grows_find])
  have bal: "appends (balance_and_write_tree p x path l)" "appends (mutate_page p x)" for p x path
    unfolding balance_and_write_tree_def by (rule appends_grows [OF grows_balance] appends_grows [OF grows_pool(2)])+
  have ret: "appends (ret b)" for b by (rule appends_grows [OF grows_basic(1)])
  show "appends (tree_insert key v l)" unfolding tree_insert_def Let_def by (intro appends_bind large find bal)
  show "appends (tree_delete key l)" unfolding tree_delete_def Let_def by (intro appends_bind appends_if find bal ret)
qed

section \<open>Pages that can be written\<close>

lemma page_of_leaf: "(p, LeafPage l q ss) \<in> set (pages t) \<Longrightarrow> LeafI p q ss \<in> set (leaf_seq t)"
proof (induction t)
  case (Nd r t kts)
  from Nd.prems consider "(p, LeafPage l q ss) \<in> set (pages t)" | k c where "(k, c) \<in> set kts" "(p, LeafPage l q ss) \<in> set (pages c)"
    by (auto simp: row_pages_def)
  then show ?case
  proof cases
    case 2
    then have "LeafI p q ss \<in> set (leaf_seq c)" by (intro Nd.IH(2)) auto
    with 2(1) show ?thesis by (force simp: row_seq_def)
  qed (use Nd.IH(1) in simp)
qed simp

lemma pid_in_pages: "pid t \<in> fst ` set (pages t)"
  by (simp add: pages_below [of t])

lemma page_of_internal:
  "(p, InternalPage l c slots) \<in> set (pages t) \<Longrightarrow> insert c (child_page_id ` set slots) \<subseteq> fst ` set (pages t)"
proof (induction t)
  case (Nd r t kts)
  from Nd.prems consider "c = pid t" "slots = child_slots kts" | "(p, InternalPage l c slots) \<in> set (pages t)"
    | k d where "(k, d) \<in> set kts" "(p, InternalPage l c slots) \<in> set (pages d)" by (auto simp: row_pages_def)
  then show ?case
  proof cases
    case 1
    then show ?thesis using pid_in_pages [of t] pid_in_pages by (fastforce simp: child_slots_def row_pages_def)
  next
    case 2
    then show ?thesis using Nd.IH(1) by auto
  next
    case 3
    then have "insert c (child_page_id ` set slots) \<subseteq> fst ` set (pages d)" by (intro Nd.IH(2)) auto
    moreover have "fst ` set (pages d) \<subseteq> fst ` set (pages (Nd r t kts))" using 3(1) by (force simp: row_pages_def)
    ultimately show ?thesis by blast
  qed
qed simp

lemma linked_next: "linked z xs \<Longrightarrow> LeafI p q ss \<in> set xs \<Longrightarrow> q = z \<or> (\<exists>q' ss'. LeafI q q' ss' \<in> set xs)"
proof (induction xs)
  case (Cons x xs)
  have fl: "first_leaf z xs = z \<or> (\<exists>q' ss'. LeafI (first_leaf z xs) q' ss' \<in> set xs)"
    by (induction z xs rule: first_leaf.induct) auto
  show ?case
  proof (cases "x = LeafI p q ss")
    case True
    then show ?thesis using Cons.prems fl by auto
  next
    case False
    then have "linked z xs" "LeafI p q ss \<in> set xs" using Cons.prems by (cases x; auto)+
    from Cons.IH [OF this] show ?thesis by auto
  qed
qed simp

lemma tree_page_ids:
  assumes "linked 0 (leaf_seq T)" and "(p, x) \<in> set (pages T)" and "fst ` set (pages T) \<subseteq> {0<..<L}" and "L \<le> 256 ^ 8"
    and "strip y = x" and "last_modified_lsn y < 256 ^ 8"
  shows "node_ids_ok y"
proof (cases y)
  case (InternalPage l c slots)
  then have "(p, InternalPage 0 c slots) \<in> set (pages T)" using assms(2,5) by simp
  from page_of_internal [OF this] assms(3) have "insert c (child_page_id ` set slots) \<subseteq> {0<..<L}" by blast
  then show ?thesis using InternalPage assms(4,6) by (auto simp: list_all_iff)
next
  case (LeafPage l q ss)
  then have "LeafI p q ss \<in> set (leaf_seq T)" using assms(2,5) by (auto intro: page_of_leaf)
  from linked_next [OF assms(1) this] have "q = 0 \<or> q \<in> fst ` set (pages T)" by (force dest: leaf_seq_page)
  then show ?thesis using LeafPage assms(3,4,6) by auto
qed

lemma cached_pages_fit:
  fixes s :: "'z tree_scheme"
  assumes T: "tree_fine ps h T" and st: "pool_state E (map_of (pages T)) {} H {} n r s" and ps: "env_page_size E = ps"
    and fits: "lsns_fit s" and lim: "page_limit s \<le> 256 ^ 8"
  shows "\<forall>(p, e) \<in> set (bp_cache s). node_fits (pg_page_size s) (cp_page e)"
proof (intro ballI, clarify)
  fix p e assume e: "(p, e) \<in> set (bp_cache s)"
  note ok = st [unfolded pool_state_def]
  have d: "distinct (map fst (pages T))" and seq: "seq_ok ps (leaf_seq T)"
    and good: "\<forall>(p, n) \<in> set (pages T). page_good ps n" using T by (auto simp: tree_fine_def tree_ok_def fine_def)
  have c: "distinct (map fst (bp_cache s))" "fst ` set (bp_cache s) \<subseteq> dom (map_of (pages T))"
    using pool_okD(1) [OF ok] by (simp_all add: cache_ok_def)
  from e c(2) obtain x where x: "map_of (pages T) p = Some x" by fastforce
  have "pool_view s p = Some (strip (cp_page e))" using e c(1) by (simp add: pool_view_def)
  with pool_okD(2) [OF ok, of p x] x have strip: "strip (cp_page e) = x" by simp
  have mem: "(p, x) \<in> set (pages T)" using x by (rule map_of_SomeD)
  have sub: "fst ` set (pages T) \<subseteq> {0<..<page_limit s}"
    using pool_state_limit [OF st] by (simp add: dom_map_of_conv_image_fst)
  have psz: "pg_page_size s = ps" "pg_page_size s < 256 ^ 4"
    using pool_okD(6,7) [OF ok] ps by (auto simp: pager_inv_def)
  have "node_ids_ok (cp_page e)"
    by (rule tree_page_ids [OF _ mem sub lim strip]) (use seq fits e in \<open>auto simp: seq_ok_def lsns_fit_def\<close>)
  moreover have "calculate_page_size (cp_page e) \<le> ps"
    using good mem strip strip_size [of "cp_page e"] by (auto simp: page_good_def is_page_overpopulated_def)
  ultimately show "node_fits (pg_page_size s) (cp_page e)" using psz by (simp add: node_fits_def)
qed

section \<open>The pager under the pool changes\<close>

text \<open>
  Changes that keep the limit, the root, the freelist and the bytes of the pages in use: the store is
  the same, up to what is durable and the LSN of the last checkpoint.
\<close>

lemma pool_ok_rebase:
  assumes ok: "pool_ok a s" and inv: "pager_inv s m chain" "pager_inv s' m' chain"
    and m: "next_page_id m' = next_page_id m" "root_page_id m' = root_page_id m"
    and same: "pg_page_size s' = pg_page_size s" "pager.more s' = pager.more s"
    and disk: "\<And>q x. q \<in> dom (st_pages a) \<Longrightarrow> disk_node s q = Some x \<Longrightarrow> disk_node s' q = Some x"
  shows "pool_ok (a\<lparr>st_durable := pg_durable s', st_checkpoint_lsn := last_checkpoint_lsn m'\<rparr>) s'"
proof -
  note mp = more_pool [OF same(2)]
  note d = pool_okD [OF ok]
  have metas: "pg_meta s = Some m" "pg_meta s' = Some m'" using inv by (auto simp: pager_inv_def)
  have live: "pager_alloc.live L s' = pager_alloc.live L s" for L
    using pager_invI [OF inv(1)] pager_invI [OF inv(2)] m(1) by (simp add: pager_alloc.live_def)
  have sub: "fst ` set (bp_cache s) \<subseteq> dom (st_pages a)" using d(1) by (simp add: cache_ok_def)
  have view: "st_pages a \<subseteq>\<^sub>m pool_view s'"
  proof (unfold map_le_def, intro ballI)
    fix q assume q: "q \<in> dom (st_pages a)"
    then obtain x where x: "st_pages a q = Some x" by auto
    with d(2) have "pool_view s q = Some x" by simp
    then show "st_pages a q = pool_view s' q"
      using x mp(1) disk [OF q] by (auto simp: pool_view_def split: option.splits)
  qed
  have clean: "disk_node s' p = Some (cp_page e)"
    if "map_of (bp_cache s) p = Some e" "\<not> is_dirty e" "p \<notin> st_unsaved a" for p e
    using disk [of p] d(5) [OF that] sub cache_key [OF that(1)] by blast
  have "cache_ok (a\<lparr>st_durable := pg_durable s', st_checkpoint_lsn := last_checkpoint_lsn m'\<rparr>) (bp_cache s')"
    using d(1) mp(1) by (simp add: cache_ok_def)
  moreover have "map_option root_page_id (pg_meta s) = Some (st_root a)" "pager_alloc.live (dom (st_pages a) \<union> st_reserved a) s"
    "dom (st_pages a) \<inter> st_reserved a = {}" using ok unfolding pool_ok_def by blast+
  ultimately show ?thesis
    using metas m(2) live view clean mp same(1) d(3,4,6) unfolding pool_ok_def by simp
qed

section \<open>Images of a database on disk\<close>

text \<open>A pager that has just opened the file \<open>b\<close> with the meta page \<open>m\<close>.\<close>

definition image_state :: "nat \<Rightarrow> meta_page \<Rightarrow> bytes \<Rightarrow> pager" where
  "image_state ps m b = \<lparr>pg_disk = Some b, pg_durable = Some b, pg_open = True, pg_page_size = ps,
     pg_meta = Some m, pg_is_meta_dirty = False, pg_freelist_cache = Map.empty,
     pg_dirty_freelist_page_ids = {}, pg_stats = fresh_pager_stats\<rparr>"

text \<open>The file holds the pages \<open>V\<close> and the freelist that \<open>m\<close> leads to.\<close>

definition image_ok :: "nat \<Rightarrow> (nat \<rightharpoonup> node) \<Rightarrow> meta_page \<Rightarrow> bytes \<Rightarrow> bool" where
  "image_ok ps V m b \<longleftrightarrow> (\<exists>chain. pager_inv (image_state ps m b) m chain \<and> dom V \<subseteq> {0<..<next_page_id m} \<and>
     dom V \<inter> set (fl_ids chain) = {} \<and>
     (\<forall>p x. V p = Some x \<longrightarrow> map_option strip (disk_node (image_state ps m b) p) = Some x))"

lemma disk_node_file: "file_bytes s' = file_bytes s \<Longrightarrow> pg_page_size s' = pg_page_size s \<Longrightarrow> disk_node s' = disk_node s"
  by (simp add: disk_node_def fun_eq_iff)

lemma disk_freelist_file:
  "file_bytes s' = file_bytes s \<Longrightarrow> pg_page_size s' = pg_page_size s \<Longrightarrow> disk_freelist s' = disk_freelist s"
  by (simp add: disk_freelist_def fun_eq_iff)

text \<open>The invariant only sees the file when the freelist cache is empty or clean.\<close>

lemma pager_inv_transfer:
  assumes inv: "pager_inv s m chain" and clean: "pg_dirty_freelist_page_ids s = {}"
    and same: "file_bytes s' = file_bytes s" "pg_page_size s' = pg_page_size s"
    and s': "pg_open s'" "pg_meta s' = Some m" "pg_freelist_cache s' = Map.empty" "pg_dirty_freelist_page_ids s' = {}"
  shows "pager_inv s' m chain"
proof -
  have df: "disk_freelist s' = disk_freelist s" by (rule disk_freelist_file [OF same])
  have "\<forall>q \<in> dom (pg_freelist_cache s). disk_freelist s q = pg_freelist_cache s q"
    using inv clean by (simp add: pager_inv_def)
  then have "fl_page s' q = fl_page s q" for q
    using s'(3) df by (cases "pg_freelist_cache s q") (force simp: fl_page_def)+
  then have "fl_page s' = fl_page s" by (rule ext)
  then show ?thesis using inv same s' unfolding pager_inv_def by simp
qed

lemma image_of_state:
  fixes s :: "'z pager_scheme"
  assumes inv: "pager_inv s m chain" and clean: "pg_dirty_freelist_page_ids s = {}"
    and dom: "dom V \<subseteq> {0<..<next_page_id m}" "dom V \<inter> set (fl_ids chain) = {}"
    and disk: "\<And>p x. V p = Some x \<Longrightarrow> map_option strip (disk_node s p) = Some x"
  shows "image_ok (pg_page_size s) V m (file_bytes s)"
proof -
  let ?i = "image_state (pg_page_size s) m (file_bytes s)"
  have i: "file_bytes ?i = file_bytes s" "pg_page_size ?i = pg_page_size s" "pg_open ?i" "pg_meta ?i = Some m"
    "pg_freelist_cache ?i = Map.empty" "pg_dirty_freelist_page_ids ?i = {}"
    by (simp_all add: image_state_def file_bytes_def)
  have "pager_inv ?i m chain" by (rule pager_inv_transfer [OF inv clean i])
  moreover have "disk_node ?i = disk_node s" by (rule disk_node_file [OF i(1,2)])
  ultimately show ?thesis unfolding image_ok_def using dom disk by (intro exI [of _ chain]) simp
qed

section \<open>A checkpoint of the pool and the pager\<close>

text \<open>Flushing the pool does not touch the meta page: no page of the pool has its identifier.\<close>

lemma write_past_first: "ps \<le> off \<Longrightarrow> ps \<le> length f \<Longrightarrow> take ps (write_at off d f) = take ps f"
  by (simp add: write_at_def min_absorb1)

lemma first_page: "disk_page ps f 0 = Some d \<longleftrightarrow> ps \<le> length f \<and> d = take ps f"
  by (auto simp: disk_page_Some)

lemma keeps_first_page:
  assumes "0 \<notin> fst ` set es"
  shows "keeps (\<lambda>s. pg_page_size s = ps \<and> disk_page ps (file_bytes s) 0 = Some d) (flush_entries es)" (is "keeps ?P _")
  using assms
proof (induction es)
  case (Cons pe es)
  obtain p e where pe: "pe = (p, e)" by (cases pe)
  have p: "0 < p" using Cons.prems pe by auto
  have "keeps ?P (write_page p data)" for data
  proof -
    have "ps \<le> length (write_at (p * ps) data f)" if "ps \<le> length f" for f
      using that p by (simp add: write_at_def)
    with p show ?thesis
      by (auto simp: keeps_def write_page_def require_open_def pg_bump_stat_def bind_op_def file_bytes_def first_page write_past_first assert_op_def
          split: option.splits)
  qed
  moreover have "keeps ?P (modify_op (\<lambda>s. s\<lparr>bp_cache := g s\<rparr>))" "keeps ?P (bp_bump_stat h)" for g h
    by (simp_all add: keeps_def bp_bump_stat_def file_bytes_def)
  ultimately show ?case using Cons unfolding pe by (simp, intro keeps_rules impI conjI) auto
qed (simp add: keeps_def)

lemma keeps_flush_all:
  assumes "0 \<notin> fst ` set (bp_cache s)" and "flush_all s = (r, s')" and "pg_page_size s = ps" and "disk_page ps (file_bytes s) 0 = Some d"
  shows "disk_page ps (file_bytes s') 0 = Some d"
proof -
  let ?s = "s\<lparr>bp_stats := (bp_stats s)\<lparr>flushes := flushes (bp_stats s) + 1\<rparr>\<rparr>"
  have "flush_entries (bp_cache s) ?s = (r, s')" using assms(2) by (simp add: flush_all_def bind_op_def bp_bump_stat_def)
  from keepsD [OF keeps_first_page [OF assms(1)] this, of ps d] assms(3,4) show ?thesis by (simp add: file_bytes_def)
qed

text \<open>Before the checkpoint record: every page and the freelist reach the disk.\<close>

lemma checkpoint_pages:
  fixes s :: "'z tree_scheme"
  assumes st: "pool_state E V {} {} {} n r s" and fits: "\<forall>(p, e) \<in> set (bp_cache s). node_fits (pg_page_size s) (cp_page e)"
    and lim: "page_limit s \<le> 256 ^ 8"
  obtains s1 s2 s3 m b where "flush_all s = (Inr (), s1)" "flush_dirty_freelist_pages s1 = (Inr (), s2)" "fsync s2 = (Inr (), s3)"
    "get_meta s3 = (Inr m, s3)" "pg_meta s = Some m" "root_page_id m = r" "pg_disk s3 = Some b" "dirty_count s3 = 0"
    "pool_state (E\<lparr>env_durable := Some b\<rparr>) V {} {} {} n r s3" "image_ok (env_page_size E) V m b"
    "pg_dirty_freelist_page_ids s3 = {}" "page_limit s3 = page_limit s"
    "\<forall>d. disk_page (env_page_size E) (file_bytes s) 0 = Some d \<longrightarrow> disk_page (env_page_size E) b 0 = Some d"
proof -
  have dirty: "\<forall>(p, e) \<in> set (bp_cache s). is_dirty e \<longrightarrow> node_fits (pg_page_size s) (cp_page e)" using fits by auto
  from flush_all_ok [OF st [unfolded pool_state_def] _ dirty] obtain s1 where
    s1: "flush_all s = (Inr (), s1)" "pool_state E V {} {} {} n r s1" "meta_frame s s1" "dirty_count s1 = 0"
      "\<And>p x. V p = Some x \<Longrightarrow> map_option strip (disk_node s1 p) = Some x" by (auto simp: pool_state_def)
  note ok1 = s1(2) [unfolded pool_state_def]
  from pool_okD(7) [OF ok1] obtain m where m: "pager_inv s1 m (pager_chain s1)" "root_page_id m = r" by auto
  have meta: "pg_meta s1 = Some m" "pg_meta s = Some m" using m(1) s1(3) by (auto simp: pager_inv_def meta_frame_def)
  have "next_page_id m \<le> 256 ^ 8" using lim meta(2) by (simp add: page_limit_def)
  from flush_dirty_freelist_ok [OF m(1) this] obtain s2 where
    s2: "flush_dirty_freelist_pages s1 = (Inr (), s2)" "pager_inv s2 m (pager_chain s1)" "flush_frame (free_ids s1) s1 s2"
      "pg_dirty_freelist_page_ids s2 = {}" by blast
  let ?s3 = "s2\<lparr>pg_durable := pg_disk s2, pg_stats := (pg_stats s2)\<lparr>fsyncs := fsyncs (pg_stats s2) + 1\<rparr>\<rparr>"
  have opn: "pg_open s2" using s2(2) by (simp add: pager_inv_def)
  have f3: "fsync s2 = (Inr (), ?s3)" by (rule fsync_ok [OF opn])
  obtain b where b: "pg_disk s2 = Some b" using s2(2) by (cases "pg_disk s2") (auto simp: pager_inv_def file_bytes_def)
  have "disk_freelist ?s3 = disk_freelist s2" by (rule disk_freelist_file) simp_all
  then have "fl_page ?s3 = fl_page s2" by (intro ext) (simp add: fl_page_def split: option.split)
  with s2(2) \<open>disk_freelist ?s3 = disk_freelist s2\<close> have inv3: "pager_inv ?s3 m (pager_chain s1)"
    unfolding pager_inv_def by simp
  have live: "dom V \<inter> free_ids s1 = {}" "dom V \<subseteq> {0<..<next_page_id m}"
    using pool_ok_live [OF ok1] pager_invI [OF m(1)] by (auto simp: pager_alloc.live_def)
  have disk: "disk_node ?s3 q = Some x" if "q \<in> dom V" "disk_node s1 q = Some x" for q x
  proof -
    have "disk_node ?s3 = disk_node s2" by (rule disk_node_file) simp_all
    moreover have "q \<notin> free_ids s1" using that(1) live(1) by blast
    ultimately show ?thesis using disk_node_flush [OF s2(3) _ that(2)] by simp
  qed
  have "pool_ok (\<lparr>st_pages = V, st_reserved = {}, st_hot = {}, st_unsaved = {},
     st_budget = n, st_root = r, st_page_size = env_page_size E, st_capacity = env_capacity E,
     st_evicting = env_evicting E, st_durable = env_durable E, st_checkpoint_lsn = env_checkpoint_lsn E\<rparr>
     \<lparr>st_durable := pg_durable ?s3, st_checkpoint_lsn := last_checkpoint_lsn m\<rparr>) ?s3"
    by (rule pool_ok_rebase [OF ok1 m(1) inv3]) (use s2(3) disk in \<open>auto simp: flush_frame_def\<close>)
  moreover have "last_checkpoint_lsn m = env_checkpoint_lsn E" using ok1 meta(1) by (simp add: pool_ok_def)
  ultimately have st3: "pool_state (E\<lparr>env_durable := Some b\<rparr>) V {} {} {} n r ?s3" using b by (simp add: pool_state_def)
  have vis: "map_option strip (disk_node ?s3 p) = Some x" if "V p = Some x" for p x
    using s1(5) [OF that] disk [of p] that by (auto simp: dom_def)
  have "image_ok (pg_page_size ?s3) V m (file_bytes ?s3)"
    by (rule image_of_state [OF inv3]) (use s2(4) live vis pager_invI [OF m(1)] in auto)
  moreover have psz: "pg_page_size ?s3 = env_page_size E" using pool_okD(6) [OF st3 [unfolded pool_state_def]] by simp
  ultimately have img: "image_ok (env_page_size E) V m b" using b by (simp add: file_bytes_def)
  have "dirty_count ?s3 = 0" using s1(4) more_pool(1) [of s2 s1] s2(3) by (simp add: dirty_count_def flush_frame_def)
  moreover have "get_meta ?s3 = (Inr m, ?s3)" using s2(2) by (simp add: get_meta_def op_simps pager_inv_def)
  moreover have "page_limit ?s3 = page_limit s" using s2(2) meta(2) by (simp add: page_limit_def pager_inv_def)
  moreover have "disk_page (env_page_size E) b 0 = Some d" if d: "disk_page (env_page_size E) (file_bytes s) 0 = Some d" for d
  proof -
    have "0 \<notin> fst ` set (bp_cache s)" using pool_okD(1) [OF st [unfolded pool_state_def]] pool_state_limit [OF st]
      by (fastforce simp: cache_ok_def)
    from keeps_flush_all [OF this s1(1) _ d] have d1: "disk_page (env_page_size E) (file_bytes s1) 0 = Some d"
      using pool_okD(6) [OF st [unfolded pool_state_def]] by simp
    have "0 \<notin> free_ids s1" using pager_invI [OF m(1)] m(1) by (auto simp: pager_inv_def)
    with s2(3) d1 pool_okD(6) [OF ok1] b show ?thesis by (simp add: flush_frame_def file_bytes_def)
  qed
  ultimately show thesis using that [OF s1(1) s2(1) f3 _ meta(2) m(2) _ _ st3 img] b s2(4) by simp
qed

lemma clean_pool_on_disk:
  assumes st: "pool_state E V R {} {} n r s" and clean: "dirty_count s = 0" and p: "V p = Some x"
  shows "map_option strip (disk_node s p) = Some x"
proof -
  note ok = st [unfolded pool_state_def]
  have all: "\<not> is_dirty e" if "map_of (bp_cache s) q = Some e" for q e
    using clean map_of_SomeD [OF that] by (force simp: dirty_count_def dirty_entries_def filter_empty_conv)
  show ?thesis
    using pool_okD(2) [OF ok, of p x] pool_okD(5) [OF ok, of p] all [of p] p
    by (auto simp: pool_view_def split: option.splits)
qed

text \<open>After the checkpoint record: the meta page with the LSN of the checkpoint reaches the disk.\<close>

lemma checkpoint_meta:
  fixes s :: "'z tree_scheme"
  assumes st: "pool_state E V {} {} {} n r s" and clean: "dirty_count s = 0" "pg_dirty_freelist_page_ids s = {}"
    and meta: "pg_meta s = Some m" and ok: "meta_ok (m\<lparr>last_checkpoint_lsn := l\<rparr>)"
  obtains s1 s2 s3 b where "update_meta (last_checkpoint_lsn_update (\<lambda>_. l)) s = (Inr (), s1)" "flush_meta s1 = (Inr (), s2)"
    "fsync s2 = (Inr (), s3)" "pg_disk s3 = Some b" "dirty_count s3 = 0"
    "pool_state (E\<lparr>env_durable := Some b, env_checkpoint_lsn := l\<rparr>) V {} {} {} n r s3"
    "image_ok (env_page_size E) V (m\<lparr>last_checkpoint_lsn := l\<rparr>) b"
    "disk_page (env_page_size E) b META_PAGE_ID = Some (meta_bytes (m\<lparr>last_checkpoint_lsn := l\<rparr>))"
    "page_limit s3 = page_limit s" "pg_dirty_freelist_page_ids s3 = {}" "\<not> pg_is_meta_dirty s3"
proof -
  note pok = st [unfolded pool_state_def]
  let ?m = "m\<lparr>last_checkpoint_lsn := l\<rparr>" and ?chain = "pager_chain s"
  have m: "pager_inv s m ?chain" using pool_okD(7) [OF pok] meta by (auto simp: pager_inv_def)
  let ?s1 = "s\<lparr>pg_meta := Some ?m, pg_is_meta_dirty := True\<rparr>"
  have u: "update_meta (last_checkpoint_lsn_update (\<lambda>_. l)) s = (Inr (), ?s1)" using update_meta_ok [OF meta] by simp
  have df1: "disk_freelist ?s1 = disk_freelist s" by (rule disk_freelist_file) simp_all
  then have "fl_page ?s1 = fl_page s" by (intro ext) (simp add: fl_page_def split: option.split)
  with m df1 have inv1: "pager_inv ?s1 ?m ?chain" unfolding pager_inv_def by simp
  from flush_meta_ok [OF inv1 ok] obtain s2 where
    s2: "flush_meta ?s1 = (Inr (), s2)" "pager_inv s2 ?m ?chain" "\<not> pg_is_meta_dirty s2"
      "disk_page (pg_page_size s) (file_bytes s2) META_PAGE_ID = Some (meta_bytes ?m)"
      "flush_frame {META_PAGE_ID} ?s1 (s2\<lparr>pg_is_meta_dirty := True\<rparr>)" "pg_dirty_freelist_page_ids s2 = {}" using clean(2) by auto
  let ?s3 = "s2\<lparr>pg_durable := pg_disk s2, pg_stats := (pg_stats s2)\<lparr>fsyncs := fsyncs (pg_stats s2) + 1\<rparr>\<rparr>"
  have opn: "pg_open s2" using s2(2) by (simp add: pager_inv_def)
  have f3: "fsync s2 = (Inr (), ?s3)" by (rule fsync_ok [OF opn])
  obtain b where b: "pg_disk s2 = Some b" using s2(2) by (cases "pg_disk s2") (auto simp: pager_inv_def file_bytes_def)
  have df3: "disk_freelist ?s3 = disk_freelist s2" by (rule disk_freelist_file) simp_all
  then have "fl_page ?s3 = fl_page s2" by (intro ext) (simp add: fl_page_def split: option.split)
  with s2(2) df3 have inv3: "pager_inv ?s3 ?m ?chain" unfolding pager_inv_def by simp
  have live: "dom V \<inter> set (fl_ids ?chain) = {}" "dom V \<subseteq> {0<..<next_page_id m}" "0 \<notin> dom V"
    using pool_ok_live [OF pok] pager_invI [OF m] by (auto simp: pager_alloc.live_def)
  have disk: "disk_node ?s3 q = Some x" if "q \<in> dom V" "disk_node s q = Some x" for q x
  proof -
    have "disk_node ?s1 = disk_node s" by (rule disk_node_file) simp_all
    then have "disk_node ?s1 q = Some x" using that(2) by simp
    moreover have "q \<notin> {META_PAGE_ID}" using that(1) live(3) by (auto simp: META_PAGE_ID_def)
    ultimately have "disk_node (s2\<lparr>pg_is_meta_dirty := True\<rparr>) q = Some x" using disk_node_flush [OF s2(5)] by blast
    moreover have "disk_node ?s3 = disk_node (s2\<lparr>pg_is_meta_dirty := True\<rparr>)" by (rule disk_node_file) simp_all
    ultimately show ?thesis by simp
  qed
  have "pool_ok (\<lparr>st_pages = V, st_reserved = {}, st_hot = {}, st_unsaved = {},
     st_budget = n, st_root = r, st_page_size = env_page_size E, st_capacity = env_capacity E,
     st_evicting = env_evicting E, st_durable = env_durable E, st_checkpoint_lsn = env_checkpoint_lsn E\<rparr>
     \<lparr>st_durable := pg_durable ?s3, st_checkpoint_lsn := last_checkpoint_lsn ?m\<rparr>) ?s3"
    by (rule pool_ok_rebase [OF pok m inv3]) (use s2(5) disk in \<open>auto simp: flush_frame_def\<close>)
  then have st3: "pool_state (E\<lparr>env_durable := Some b, env_checkpoint_lsn := l\<rparr>) V {} {} {} n r ?s3" using b by (simp add: pool_state_def)
  have vis: "map_option strip (disk_node ?s3 p) = Some x" if "V p = Some x" for p x
    using clean_pool_on_disk [OF st clean(1) that] disk [of p] that by (auto simp: dom_def)
  have "image_ok (pg_page_size ?s3) V ?m (file_bytes ?s3)"
    by (rule image_of_state [OF inv3]) (use s2(6) live vis in auto)
  moreover have psz: "pg_page_size ?s3 = env_page_size E" "pg_page_size s = env_page_size E"
    using pool_okD(6) [OF st3 [unfolded pool_state_def]] pool_okD(6) [OF pok] by simp_all
  ultimately have img: "image_ok (env_page_size E) V ?m b" using b by (simp add: file_bytes_def)
  have dc: "dirty_count ?s3 = 0" using clean(1) more_pool(1) [of s2 s] s2(5) by (simp add: dirty_count_def flush_frame_def)
  have lim: "page_limit ?s3 = page_limit s" using s2(2) meta by (simp add: page_limit_def pager_inv_def)
  show thesis
    by (rule that [OF u s2(1) f3 _ dc st3 img _ lim]) (use b s2 psz in \<open>simp_all add: file_bytes_def\<close>)
qed

section \<open>Opening an image\<close>

lemma meta_page_read:
  assumes "meta_ok m" and "disk_page (page_size_bytes m) b META_PAGE_ID = Some (meta_bytes m)" and "52 \<le> ps"
  shows "decode_meta_page (take ps b) = Inr m"
proof -
  have len: "length (meta_bytes m) = page_size_bytes m" using assms(1) by (simp add: len_simps)
  obtain rest where b: "b = meta_bytes m @ rest"
    using assms(2) len by (auto simp: disk_page_def META_PAGE_ID_def py_slice_def split: if_splits) (metis append_take_drop_id)
  have "decode_meta_page (take ps b) = decode_meta_page b"
    using assms(3) by (simp add: decode_meta_page_def min_def)
  then show ?thesis using decode_meta_page_ok [OF assms(1), of rest] b by simp
qed

text \<open>Opening an existing file, whatever page size the pager was created with.\<close>

lemma open_file:
  fixes s0 :: "'z pager_scheme"
  assumes meta: "disk_page (page_size_bytes m) b META_PAGE_ID = Some (meta_bytes m)" "meta_ok m"
    and s0: "pg_disk s0 = Some b" "\<not> pg_open s0" "52 \<le> pg_page_size s0"
  shows "\<exists>s st. pager_open s0 = (Inr (), s) \<and> s = s0\<lparr>pg_open := True, pg_stats := st, pg_meta := Some m, pg_page_size := page_size_bytes m\<rparr>"
proof -
  have s: "s0\<lparr>pg_disk := Some b, pg_open := True\<rparr> = s0\<lparr>pg_open := True\<rparr>" using s0(1) by simp
  have "decode_meta_page (take (pg_page_size s0) b) = Inr m"
    by (rule meta_page_read [OF meta(2,1) s0(3)])
  then show ?thesis
    using s0(1,2) by (simp add: pager_open_def read_page_def bind_op_def op_simps META_PAGE_ID_def py_slice_def file_bytes_def s) blast
qed

text \<open>A pool with an empty cache over an image.\<close>

lemma image_pool:
  fixes s :: "'z tree_scheme"
  assumes img: "image_ok ps V m b"
    and s: "pg_disk s = Some b" "pg_open s" "pg_meta s = Some m" "pg_page_size s = ps" "pg_freelist_cache s = Map.empty"
      "pg_dirty_freelist_page_ids s = {}" "bp_cache s = []" "bp_eviction_enabled s \<Longrightarrow> n \<le> bp_capacity_pages s"
  shows "pool_state \<lparr>env_page_size = ps, env_capacity = bp_capacity_pages s, env_evicting = bp_eviction_enabled s,
      env_durable = pg_durable s, env_checkpoint_lsn = last_checkpoint_lsn m\<rparr> V {} {} {} n (root_page_id m) s"
proof -
  from img obtain chain where inv: "pager_inv (image_state ps m b) m chain" and dom: "dom V \<subseteq> {0<..<next_page_id m}"
    "dom V \<inter> set (fl_ids chain) = {}" and vis: "\<And>p x. V p = Some x \<Longrightarrow> map_option strip (disk_node (image_state ps m b) p) = Some x"
    by (auto simp: image_ok_def)
  have fb: "file_bytes s = file_bytes (image_state ps m b)" "pg_page_size s = pg_page_size (image_state ps m b)"
    using s(1,4) by (simp_all add: image_state_def file_bytes_def)
  have inv': "pager_inv s m chain"
    by (rule pager_inv_transfer [OF inv _ fb]) (use s in \<open>simp_all add: image_state_def\<close>)
  have dn: "disk_node s = disk_node (image_state ps m b)" by (rule disk_node_file [OF fb])
  have live: "pager_alloc.live (dom V) s" using pager_invI [OF inv'] dom by (auto simp: pager_alloc.live_def)
  have view: "V \<subseteq>\<^sub>m pool_view s" using vis dn s(7) by (fastforce simp: map_le_def pool_view_def)
  show ?thesis
    unfolding pool_state_def pool_ok_def using live view s by (simp add: cache_ok_def)
qed

lemma pool_state_evicting:
  "pool_state E V R {} {} n r s \<Longrightarrow> pool_state (E\<lparr>env_evicting := False\<rparr>) V R {} {} k r (s\<lparr>bp_eviction_enabled := False\<rparr>)"
  "pool_state E V R {} {} n r s \<Longrightarrow> pool_state (E\<lparr>env_evicting := ev\<rparr>) V R {} {} 0 r (s\<lparr>bp_eviction_enabled := ev\<rparr>)"
proof -
  have same: "pager_same s (s\<lparr>bp_eviction_enabled := x\<rparr>)" for x by (simp add: pager_same_def)
  note laws = pager_same_laws [OF same] pool_view_same [OF same]
  show "pool_state (E\<lparr>env_evicting := False\<rparr>) V R {} {} k r (s\<lparr>bp_eviction_enabled := False\<rparr>)" if "pool_state E V R {} {} n r s"
    using that laws by (simp add: pool_state_def pool_ok_def cache_ok_def)
  show "pool_state (E\<lparr>env_evicting := ev\<rparr>) V R {} {} 0 r (s\<lparr>bp_eviction_enabled := ev\<rparr>)" if "pool_state E V R {} {} n r s"
    using that laws by (simp add: pool_state_def pool_ok_def cache_ok_def)
qed

end
