(* ===== verification/DbState.thy ===== *)
theory DbState
  imports Db Durable
begin

text \<open>
  The invariant of a running database, \<open>db_holds\<close>: the tree holds a map, the log follows its last checkpoint,
  and what is durable would recover to the same map (\<open>recovers\<close>). A checkpoint keeps it (\<open>db_checkpoint_ok\<close>,
  \<open>db_maybe_checkpoint_ok\<close>) and so does a write (\<open>db_write_ok\<close>), which the operations of the facade use.
\<close>

section \<open>Evaluation\<close>

lemma on_tree_eval: "on_tree f s = (case f (db_tree s) of (r, t) \<Rightarrow> (r, s\<lparr>db_tree := t\<rparr>))"
  by (simp add: on_tree_def)

lemma bind_on_tree [simp]:
  "bind_op (on_tree f) g s = (case f (db_tree s) of (Inl e, t) \<Rightarrow> (Inl e, s\<lparr>db_tree := t\<rparr>) | (Inr a, t) \<Rightarrow> g a (s\<lparr>db_tree := t\<rparr>))"
  by (simp add: bind_op_def on_tree_def split: prod.split sum.split)

lemma bind_on_wal [simp]:
  "bind_op (on_wal f) g s = (case f (db_wal s) of (Inl e, w) \<Rightarrow> (Inl e, s\<lparr>db_wal := w\<rparr>) | (Inr a, w) \<Rightarrow> g a (s\<lparr>db_wal := w\<rparr>))"
  by (simp add: bind_op_def on_wal_def split: prod.split sum.split)

section \<open>What a log does to a map\<close>

fun apply_record :: "wal_record \<Rightarrow> (bytes \<rightharpoonup> bytes) \<Rightarrow> (bytes \<rightharpoonup> bytes)" where
  "apply_record (WALPutRecord l key val) m = m(key \<mapsto> val)"
| "apply_record (WALDeleteRecord l key) m = m(key := None)"
| "apply_record (WALCheckpointRecord l a b c) m = m"

definition replayed :: "nat \<Rightarrow> wal_record list \<Rightarrow> (bytes \<rightharpoonup> bytes) \<Rightarrow> (bytes \<rightharpoonup> bytes)" where
  "replayed c rs m = fold apply_record (filter (\<lambda>r. c < lsn r) rs) m"

text \<open>Records the tree accepts when they are replayed.\<close>

fun record_good :: "nat \<Rightarrow> wal_record \<Rightarrow> bool" where
  "record_good ps (WALPutRecord l key val) \<longleftrightarrow>
     short_key ps key \<and> int (calculate_leaf_record_size key val) \<le> get_max_leaf_record_size ps"
| "record_good ps _ \<longleftrightarrow> True"

text \<open>The newest checkpoint record of a log, and the meta page repaired with it.\<close>

definition newer :: "wal_record option \<Rightarrow> wal_record \<Rightarrow> wal_record option" where
  "newer latest rec =
     (if is_WALCheckpointRecord rec \<and> (case latest of None \<Rightarrow> True | Some c \<Rightarrow> lsn c < lsn rec) then Some rec else latest)"

definition newest_checkpoint :: "wal_record list \<Rightarrow> wal_record option" where
  "newest_checkpoint rs = foldl newer None rs"

definition repaired :: "wal_record list \<Rightarrow> meta_page \<Rightarrow> meta_page" where
  "repaired rs m = (case newest_checkpoint rs of
     None \<Rightarrow> m
   | Some c \<Rightarrow> if lsn c \<le> last_checkpoint_lsn m then m
       else m\<lparr>root_page_id := rec_root_page_id c, freelist_head_page_id := rec_freelist_head c,
              next_page_id := rec_next_page_id c, last_checkpoint_lsn := lsn c\<rparr>)"

text \<open>
  What the data file and the log hold together: repaired with the log's newest checkpoint, the file is
  the image of a well-formed tree, and replaying the records after that checkpoint gives the map \<open>m\<close>.
\<close>

definition recovers :: "nat \<Rightarrow> nat \<Rightarrow> bytes \<Rightarrow> wal_record list \<Rightarrow> (bytes \<rightharpoonup> bytes) \<Rightarrow> bool" where
  "recovers L ps b rs m \<longleftrightarrow> (\<exists>T h m1. 129 \<le> ps \<and> tree_fine ps h T \<and> disk_page ps b META_PAGE_ID = Some (meta_bytes m1) \<and>
     meta_ok m1 \<and> root_page_id (repaired rs m1) = pid T \<and> image_ok ps (map_of (pages T)) (repaired rs m1) b \<and>
     next_page_id (repaired rs m1) \<le> L \<and> card (dom (contents T)) \<le> 2 ^ 50 \<and>
     last_checkpoint_lsn (repaired rs m1) \<le> last_lsn_of rs \<and>
     replayed (last_checkpoint_lsn (repaired rs m1)) rs (contents T) = m)"

lemma recovers_mono:
  assumes "recovers L ps b rs m" and "L \<le> L'"
  shows "recovers L' ps b rs m"
proof -
  from assms(1) obtain T h m1 where "129 \<le> ps \<and> tree_fine ps h T \<and> disk_page ps b META_PAGE_ID = Some (meta_bytes m1) \<and>
     meta_ok m1 \<and> root_page_id (repaired rs m1) = pid T \<and> image_ok ps (map_of (pages T)) (repaired rs m1) b \<and>
     next_page_id (repaired rs m1) \<le> L \<and> card (dom (contents T)) \<le> 2 ^ 50 \<and>
     last_checkpoint_lsn (repaired rs m1) \<le> last_lsn_of rs \<and>
     replayed (last_checkpoint_lsn (repaired rs m1)) rs (contents T) = m" unfolding recovers_def by blast
  with assms(2) show ?thesis unfolding recovers_def by (intro exI [of _ T] exI [of _ h] exI [of _ m1]) simp
qed

text \<open>The tree and the log of a database that is running.\<close>

definition db_live :: "store_env \<Rightarrow> nat \<Rightarrow> (bytes \<rightharpoonup> bytes) \<Rightarrow> wal_record list \<Rightarrow> db \<Rightarrow> bool" where
  "db_live E h m rs s \<longleftrightarrow> tree_holds E h m 0 (db_tree s) \<and> lsns_fit (db_tree s) \<and> wal_state rs (db_wal s)"

lemma pager_head_bound:
  assumes "pager_inv s m chain"
  shows "freelist_head_page_id m < next_page_id m"
proof (cases chain)
  case Nil
  then show ?thesis using assms by (simp add: pager_inv_def)
next
  case (Cons pf rest)
  then show ?thesis using assms by (cases pf) (auto simp: pager_inv_def)
qed

lemma lsns_fit_clean:
  assumes "pool_state E V R {} {} n r s" and "dirty_count s = 0"
  shows "lsns_fit s"
proof -
  note ok = assms(1) [unfolded pool_state_def]
  have c: "distinct (map fst (bp_cache s))" using pool_okD(1) [OF ok] by (simp add: cache_ok_def)
  have "last_modified_lsn (cp_page e) < 256 ^ 8" if e: "(p, e) \<in> set (bp_cache s)" for p e
  proof -
    have "\<not> is_dirty e" using assms(2) e by (force simp: dirty_count_def dirty_entries_def filter_empty_conv)
    with pool_okD(5) [OF ok, of p e] c e have "disk_node s p = Some (cp_page e)" by simp
    then show ?thesis by (auto simp: disk_node_def dest: decode_page_lsn split: option.splits sum.splits page.splits)
  qed
  then show ?thesis by (auto simp: lsns_fit_def)
qed

text \<open>The record a checkpoint appends to the log.\<close>

definition checkpoint_of :: "nat \<Rightarrow> meta_page \<Rightarrow> wal_record" where
  "checkpoint_of l m = WALCheckpointRecord l (root_page_id m) (freelist_head_page_id m) (next_page_id m)"

lemma checkpoint_of_simps [simp]: "lsn (checkpoint_of l m) = l" "is_WALCheckpointRecord (checkpoint_of l m)" "record_good ps (checkpoint_of l m)"
  by (simp_all add: checkpoint_of_def)

lemma image_ok_lsn: "image_ok ps V m b \<Longrightarrow> image_ok ps V (m\<lparr>last_checkpoint_lsn := l\<rparr>) b"
proof -
  have same: "file_bytes (image_state ps (m\<lparr>last_checkpoint_lsn := l\<rparr>) b) = file_bytes (image_state ps m b)"
    "pg_page_size (image_state ps (m\<lparr>last_checkpoint_lsn := l\<rparr>) b) = pg_page_size (image_state ps m b)"
    by (simp_all add: image_state_def file_bytes_def)
  assume "image_ok ps V m b"
  then show ?thesis
    unfolding image_ok_def pager_inv_def disk_node_file [OF same] using disk_freelist_file [OF same] same
    by (simp add: image_state_def fl_page_def [abs_def])
qed

text \<open>The first half of a checkpoint, up to the record in the log, and the truncation of the log.\<close>

lemma checkpoint_record:
  assumes live: "db_live E h m rs s" and lim: "page_limit (db_tree s) \<le> 2 ^ 62" and seq: "last_lsn_of rs + 1 < 2 ^ 64"
    and ps: "ps = env_page_size E" and l: "l = last_lsn_of rs + 1"
  obtains T t1 t2 t3 m0 b0 w1 w2 where "129 \<le> ps" "tree_fine ps h T" "contents T = m" "root_page_id m0 = pid T"
    "flush_all (db_tree s) = (Inr (), t1)" "flush_dirty_freelist_pages t1 = (Inr (), t2)" "fsync t2 = (Inr (), t3)"
    "get_meta t3 = (Inr m0, t3)" "pg_meta t3 = Some m0" "page_limit (db_tree s) = next_page_id m0" "page_limit t3 = next_page_id m0"
    "pool_state (E\<lparr>env_durable := Some b0\<rparr>) (map_of (pages T)) {} {} {} 0 (pid T) t3" "pg_dirty_freelist_page_ids t3 = {}" "dirty_count t3 = 0"
    "image_ok ps (map_of (pages T)) m0 b0" "meta_ok (m0\<lparr>last_checkpoint_lsn := l\<rparr>)" "page_size_bytes m0 = ps"
    "append_checkpoint (root_page_id m0) (freelist_head_page_id m0) (next_page_id m0) (db_wal s) = (Inr l, w1)"
    "wal_state (rs @ [checkpoint_of l m0]) w1" "truncate_before l w1 = (Inr (), w2)" "wal_state [checkpoint_of l m0] w2"
    "\<forall>d. disk_page ps (file_bytes (db_tree s)) 0 = Some d \<longrightarrow> disk_page ps b0 0 = Some d"
proof -
  from live ps obtain T where T: "129 \<le> ps" "tree_fine ps h T" "contents T = m"
    "pool_state E (map_of (pages T)) {} {} {} 0 (pid T) (db_tree s)" "lsns_fit (db_tree s)" "wal_state rs (db_wal s)"
    by (auto simp: db_live_def tree_holds_def)
  have lim': "page_limit (db_tree s) \<le> 256 ^ 8" using lim by (rule order_trans) simp
  note fits = cached_pages_fit [OF T(2,4) ps [symmetric] T(5) lim']
  obtain s1 s2 s3 m0 b0 where s3: "flush_all (db_tree s) = (Inr (), s1)" "flush_dirty_freelist_pages s1 = (Inr (), s2)"
    "fsync s2 = (Inr (), s3)" "get_meta s3 = (Inr m0, s3)" "pg_meta (db_tree s) = Some m0" "root_page_id m0 = pid T" "pg_disk s3 = Some b0"
    "dirty_count s3 = 0" "pool_state (E\<lparr>env_durable := Some b0\<rparr>) (map_of (pages T)) {} {} {} 0 (pid T) s3"
    "image_ok (env_page_size E) (map_of (pages T)) m0 b0" "pg_dirty_freelist_page_ids s3 = {}" "page_limit s3 = page_limit (db_tree s)"
    "\<forall>d. disk_page (env_page_size E) (file_bytes (db_tree s)) 0 = Some d \<longrightarrow> disk_page (env_page_size E) b0 0 = Some d"
    by (rule checkpoint_pages [OF T(4) fits lim'])
  note ok3 = s3(9) [unfolded pool_state_def]
  have inv3: "pager_inv s3 m0 (pager_chain s3)" using pool_okD(7) [OF ok3] s3(4) by (auto simp: get_meta_def op_simps pager_inv_def)
  have next0: "next_page_id m0 \<le> 2 ^ 62" using lim s3(5) by (simp add: page_limit_def)
  have "pid T \<in> dom (map_of (pages T))" by (simp add: pages_below [of T])
  then have root: "pid T < next_page_id m0" using pool_state_limit [OF T(4)] s3(5) by (auto simp: page_limit_def)
  have head: "freelist_head_page_id m0 < next_page_id m0" by (rule pager_head_bound [OF inv3])
  have psz: "page_size_bytes m0 = ps" using inv3 pool_okD(6) [OF ok3] ps by (simp add: pager_inv_def)
  have mok: "meta_ok (m0\<lparr>last_checkpoint_lsn := l\<rparr>)" using inv3 next0 root head seq s3(6) l by (simp add: meta_ok_def pager_inv_def)
  have wok: "wal_ok (checkpoint_of l m0)" using mok next0 by (simp add: checkpoint_of_def wal_ok_def meta_ok_def wal_body_def wal_header_def)
  obtain w1 w2 where w: "append_checkpoint (root_page_id m0) (freelist_head_page_id m0) (next_page_id m0) (db_wal s) = (Inr l, w1)"
    "wal_state (rs @ [checkpoint_of l m0]) w1" "truncate_before l w1 = (Inr (), w2)" "wal_state [checkpoint_of l m0] w2"
    using wal_log.checkpoint_truncate [OF T(6) wok [unfolded checkpoint_of_def l]] unfolding checkpoint_of_def l by metis
  have meta3: "pg_meta s3 = Some m0" using inv3 by (simp add: pager_inv_def)
  have lims: "page_limit (db_tree s) = next_page_id m0" "page_limit s3 = next_page_id m0" using s3(5,12) by (simp_all add: page_limit_def)
  show thesis
    by (rule that [OF T(1-3) s3(6,1-4) meta3 lims s3(9,11,8) s3(10) [folded ps] mok psz w]) (rule s3(13) [folded ps])
qed

lemma db_checkpoint_ok:
  assumes live: "db_live E h m rs s" and lim: "page_limit (db_tree s) \<le> 2 ^ 62" and seq: "last_lsn_of rs + 1 < 2 ^ 64"
    and card: "card (dom m) \<le> 2 ^ 50"
  obtains t w b r where "db_checkpoint s = (Inr (), s\<lparr>db_tree := t, db_wal := w\<rparr>)"
    "db_live (E\<lparr>env_durable := Some b, env_checkpoint_lsn := last_lsn_of rs + 1\<rparr>) h m [r] (s\<lparr>db_tree := t, db_wal := w\<rparr>)"
    "recovers (page_limit t) (env_page_size E) b [r] m" "dirty_count t = 0" "page_limit t = page_limit (db_tree s)"
    "lsn r = last_lsn_of rs + 1" "is_WALCheckpointRecord r"
    "pg_disk t = Some b" "pg_dirty_freelist_page_ids t = {}" "\<not> pg_is_meta_dirty t"
proof -
  define ps l where "ps = env_page_size E" and "l = last_lsn_of rs + 1"
  obtain T t1 t2 t3 m0 b0 w1 w2 where c: "129 \<le> ps" "tree_fine ps h T" "contents T = m" "root_page_id m0 = pid T"
    "flush_all (db_tree s) = (Inr (), t1)" "flush_dirty_freelist_pages t1 = (Inr (), t2)" "fsync t2 = (Inr (), t3)"
    "get_meta t3 = (Inr m0, t3)" "pg_meta t3 = Some m0" "page_limit (db_tree s) = next_page_id m0" "page_limit t3 = next_page_id m0"
    "pool_state (E\<lparr>env_durable := Some b0\<rparr>) (map_of (pages T)) {} {} {} 0 (pid T) t3" "pg_dirty_freelist_page_ids t3 = {}" "dirty_count t3 = 0"
    "image_ok ps (map_of (pages T)) m0 b0" "meta_ok (m0\<lparr>last_checkpoint_lsn := l\<rparr>)" "page_size_bytes m0 = ps"
    "append_checkpoint (root_page_id m0) (freelist_head_page_id m0) (next_page_id m0) (db_wal s) = (Inr l, w1)"
    "wal_state (rs @ [checkpoint_of l m0]) w1" "truncate_before l w1 = (Inr (), w2)" "wal_state [checkpoint_of l m0] w2"
    by (rule checkpoint_record [OF live lim seq ps_def l_def]) blast
  let ?m = "m0\<lparr>last_checkpoint_lsn := l\<rparr>" and ?E = "E\<lparr>env_durable := Some b0\<rparr>"
  obtain s4 s5 s6 b where s6: "update_meta (last_checkpoint_lsn_update (\<lambda>_. l)) t3 = (Inr (), s4)" "flush_meta s4 = (Inr (), s5)"
    "fsync s5 = (Inr (), s6)" "dirty_count s6 = 0"
    "pool_state (?E\<lparr>env_durable := Some b, env_checkpoint_lsn := l\<rparr>) (map_of (pages T)) {} {} {} 0 (pid T) s6"
    "image_ok (env_page_size ?E) (map_of (pages T)) ?m b"
    "disk_page (env_page_size ?E) b META_PAGE_ID = Some (meta_bytes ?m)" "page_limit s6 = page_limit t3"
    "pg_disk s6 = Some b" "pg_dirty_freelist_page_ids s6 = {}" "\<not> pg_is_meta_dirty s6"
    by (rule checkpoint_meta [OF c(12,14,13,9,16)])
  have cur: "wl_current_lsn (db_wal s) + 1 = l" using wal_stateD(4) live by (simp add: db_live_def l_def)
  have run: "db_checkpoint s = (Inr (), s\<lparr>db_tree := s6, db_wal := w2\<rparr>)"
    using c(5-8,18,20) s6(1-3) cur by (simp add: db_checkpoint_def on_wal_def)
  have holds: "tree_holds (E\<lparr>env_durable := Some b, env_checkpoint_lsn := l\<rparr>) h m 0 s6"
    using c(1-3) s6(5) unfolding tree_holds_def ps_def by auto
  have "db_live (E\<lparr>env_durable := Some b, env_checkpoint_lsn := l\<rparr>) h m [checkpoint_of l m0] (s\<lparr>db_tree := s6, db_wal := w2\<rparr>)"
    using holds c(21) lsns_fit_clean [OF s6(5,4)] by (simp add: db_live_def)
  moreover have "recovers (page_limit s6) ps b [checkpoint_of l m0] m"
    unfolding recovers_def using c(1-4,11,16) s6(6-8) card
    by (intro exI [of _ T] exI [of _ h] exI [of _ ?m])
      (simp add: replayed_def last_lsn_of_def repaired_def newest_checkpoint_def newer_def ps_def)
  ultimately show thesis using that [OF run, of b "checkpoint_of l m0"] s6(4,8-11) c(10,11) by (simp add: l_def ps_def)
qed

section \<open>The invariant of a running database\<close>

text \<open>
  The configuration leaves enough room: with at most the configured share of the pool dirty, an update
  of a tree of height \<open>N\<close> finds the pages it needs.
\<close>

definition config_ok :: "nat \<Rightarrow> nat \<Rightarrow> nat \<Rightarrow> nat \<times> nat \<Rightarrow> bool" where
  "config_ok N capacity wal_limit ratio \<longleftrightarrow> (case ratio of (num, den) \<Rightarrow>
       0 < den \<and> num * capacity + (7 * N + 5) * den \<le> capacity * den) \<and> wal_limit < 2 ^ 50 \<and> N \<le> 48"

definition db_config :: "nat \<Rightarrow> store_env \<Rightarrow> db \<Rightarrow> bool" where
  "db_config N E s \<longleftrightarrow> config_ok N (env_capacity E) (db_checkpoint_wal_size_bytes s) (db_checkpoint_dirty_page_ratio s)"

definition db_ok :: "nat \<Rightarrow> store_env \<Rightarrow> nat \<Rightarrow> (bytes \<rightharpoonup> bytes) \<Rightarrow> wal_record list \<Rightarrow> db \<Rightarrow> bool" where
  "db_ok N E h m rs s \<longleftrightarrow> db_live E h m rs s \<and> env_evicting E \<and> db_config N E s \<and> card (dom m) < 2 ^ Suc N \<and>
     (\<forall>r \<in> set rs. record_good (env_page_size E) r) \<and> length rs \<le> 2 ^ 50 \<and>
     (\<exists>b x. env_durable E = Some b \<and> recovers (page_limit (db_tree s)) (env_page_size E) b rs m \<and>
        file_bytes (db_tree s) = b @ x)"

text \<open>
  No checkpoint is due: no more than the configured share of the pool is dirty, and the log is not above its limit
  (unless the limit is smaller than the one record a checkpoint leaves, which takes 41 bytes).
\<close>

definition settled :: "store_env \<Rightarrow> db \<Rightarrow> bool" where
  "settled E s \<longleftrightarrow> (case db_checkpoint_dirty_page_ratio s of (num, den) \<Rightarrow>
     dirty_count (db_tree s) * den \<le> num * env_capacity E) \<and>
     size_bytes (db_wal s) \<le> max (db_checkpoint_wal_size_bytes s) 41"

lemma checkpoint_log_size: "wal_state [r] w \<Longrightarrow> is_WALCheckpointRecord r \<Longrightarrow> size_bytes w = 41"
  using wal_stateD(6) [of "[r]" w] by (cases r) (simp_all add: size_bytes_def length_wal_bytes)

lemma settled_room:
  assumes "db_config N E s" and "settled E s" and "n \<le> 7 * N + 5"
  shows "dirty_count (db_tree s) + n \<le> env_capacity E"
proof -
  obtain num den where r: "db_checkpoint_dirty_page_ratio s = (num, den)" by fastforce
  have "(dirty_count (db_tree s) + n) * den \<le> num * env_capacity E + (7 * N + 5) * den"
    using assms(2) r mult_le_mono1 [OF assms(3), of den] by (simp add: settled_def add_mult_distrib)
  also have "\<dots> \<le> env_capacity E * den" using assms(1) r by (simp add: db_config_def config_ok_def)
  finally show ?thesis using assms(1) r by (simp add: db_config_def config_ok_def)
qed

lemma db_ok_room:
  assumes "db_ok N E h m rs s" and "settled E s" and "n \<le> 7 * N + 5"
  shows "tree_holds E h m n (db_tree s)" and "h \<le> N"
proof -
  have live: "tree_holds E h m 0 (db_tree s)" using assms(1) by (simp add: db_ok_def db_live_def)
  have "dirty_count (db_tree s) + n \<le> env_capacity E" by (rule settled_room) (use assms in \<open>simp_all add: db_ok_def\<close>)
  with live show "tree_holds E h m n (db_tree s)" using tree_holds_room [of E h m n "db_tree s"] by simp
  show "h \<le> N" by (rule tree_holds_low [OF live]) (use assms(1) in \<open>simp add: db_ok_def\<close>)
qed

lemma tree_holds_meta:
  assumes "tree_holds E h m n s"
  shows "bp_capacity_pages s = env_capacity E" "bp_eviction_enabled s = env_evicting E" "pg_page_size s = env_page_size E"
    "pg_durable s = env_durable E" "env_page_size E < 256 ^ 4"
proof -
  from assms obtain T where ok: "pool_state E (map_of (pages T)) {} {} {} n (pid T) s" by (auto simp: tree_holds_def)
  note d = pool_okD(3,4,6,7) [OF ok [unfolded pool_state_def]]
  show "bp_capacity_pages s = env_capacity E" "bp_eviction_enabled s = env_evicting E" "pg_page_size s = env_page_size E"
    using d(1-3) by simp_all
  show "pg_durable s = env_durable E" using ok by (simp add: pool_state_def pool_ok_def)
  show "env_page_size E < 256 ^ 4" using d(3,4) by (auto simp: pager_inv_def)
qed

lemma length_log: "chained l rs \<Longrightarrow> length rs \<le> length (log_bytes rs)"
proof (induction rs arbitrary: l)
  case (Cons r rs)
  then have "0 < length (wal_bytes r)" "length rs \<le> length (log_bytes rs)" by (auto simp: wal_bytes_def)
  then show ?case by (simp add: Suc_le_eq flip: length_greater_0_conv)
qed simp

lemma card_le_pow: "N \<le> 48 \<Longrightarrow> (x :: nat) < 2 ^ Suc N \<Longrightarrow> x \<le> 2 ^ 50"
proof -
  assume "N \<le> 48" "x < 2 ^ Suc N"
  moreover have "(2 :: nat) ^ Suc N \<le> 2 ^ 50" using \<open>N \<le> 48\<close> by (intro power_increasing) simp_all
  ultimately show ?thesis by linarith
qed

lemma db_maybe_checkpoint_ok:
  assumes ok: "db_ok N E h m rs s" and lim: "page_limit (db_tree s) \<le> 2 ^ 62" and seq: "last_lsn_of rs + 1 < 2 ^ 64"
  obtains t w E' rs' where "db_maybe_checkpoint s = (Inr (), s\<lparr>db_tree := t, db_wal := w\<rparr>)"
    "db_ok N E' h m rs' (s\<lparr>db_tree := t, db_wal := w\<rparr>)" "settled E' (s\<lparr>db_tree := t, db_wal := w\<rparr>)"
    "page_limit t = page_limit (db_tree s)" "last_lsn_of rs' \<le> last_lsn_of rs + 1" "length rs' < 2 ^ 50"
    "env_page_size E' = env_page_size E" "env_capacity E' = env_capacity E"
proof -
  obtain num den where r: "db_checkpoint_dirty_page_ratio s = (num, den)" by fastforce
  have live: "db_live E h m rs s" and conf: "db_config N E s" and card: "card (dom m) < 2 ^ Suc N" using ok by (simp_all add: db_ok_def)
  have th: "tree_holds E h m 0 (db_tree s)" and ws: "wal_state rs (db_wal s)" using live by (simp_all add: db_live_def)
  note meta = tree_holds_meta [OF th]
  have cap: "env_capacity E \<noteq> 0"
  proof
    assume "env_capacity E = 0"
    then show False using conf r by (auto simp: db_config_def config_ok_def)
  qed
  have N: "N \<le> 48" using conf by (simp add: db_config_def config_ok_def)
  define long where "long \<longleftrightarrow> db_checkpoint_wal_size_bytes s < size_bytes (db_wal s)"
  have should: "db_maybe_checkpoint s = (if long \<or> num * env_capacity E < dirty_count (db_tree s) * den then db_checkpoint s else (Inr (), s))"
    using r meta(1) cap by (auto simp: db_maybe_checkpoint_def long_def dirty_ratio_above_def bind_op_def on_tree_def)
  show thesis
  proof (cases "long \<or> num * env_capacity E < dirty_count (db_tree s) * den")
    case True
    obtain t w b rc where c: "db_checkpoint s = (Inr (), s\<lparr>db_tree := t, db_wal := w\<rparr>)"
      "db_live (E\<lparr>env_durable := Some b, env_checkpoint_lsn := last_lsn_of rs + 1\<rparr>) h m [rc] (s\<lparr>db_tree := t, db_wal := w\<rparr>)"
      "recovers (page_limit t) (env_page_size E) b [rc] m" "dirty_count t = 0" "page_limit t = page_limit (db_tree s)"
      "lsn rc = last_lsn_of rs + 1" "is_WALCheckpointRecord rc" "pg_disk t = Some b"
      by (rule db_checkpoint_ok [OF live lim seq card_le_pow [OF N card]]) blast
    let ?E = "E\<lparr>env_durable := Some b, env_checkpoint_lsn := last_lsn_of rs + 1\<rparr>"
    have good: "record_good (env_page_size E) rc" using c(7) by (cases rc) simp_all
    have "db_ok N ?E h m [rc] (s\<lparr>db_tree := t, db_wal := w\<rparr>)"
      using ok c(2,3,8) good by (simp add: db_ok_def db_config_def config_ok_def file_bytes_def)
    moreover have "settled ?E (s\<lparr>db_tree := t, db_wal := w\<rparr>)"
      using c(2,4,7) r checkpoint_log_size [of rc w] by (simp add: settled_def db_live_def)
    ultimately show thesis
      using that [where t = t and w = w and E' = ?E and rs' = "[rc]"] should True c by (simp add: last_lsn_of_def)
  next
    case False
    have "length rs \<le> size_bytes (db_wal s)" using length_log wal_stateD(5,6) [OF ws] by (simp add: size_bytes_def)
    then have "length rs < 2 ^ 50" using False conf by (simp add: long_def db_config_def config_ok_def)
    moreover have "settled E s" using False r by (simp add: settled_def long_def le_max_iff_disj)
    ultimately show thesis using that [where t = "db_tree s" and w = "db_wal s" and E' = E and rs' = rs] should False ok by simp
  qed
qed

section \<open>Writes\<close>

lemma repaired_append: "\<not> is_WALCheckpointRecord r \<Longrightarrow> repaired (rs @ [r]) m = repaired rs m"
  by (simp add: repaired_def newest_checkpoint_def newer_def)

lemma recovers_append:
  assumes "recovers L ps b rs m" and "lsn r = last_lsn_of rs + 1" and "\<not> is_WALCheckpointRecord r"
  shows "recovers L ps b (rs @ [r]) (apply_record r m)"
proof -
  from assms(1) obtain T h m1 where *: "129 \<le> ps" "tree_fine ps h T" "disk_page ps b META_PAGE_ID = Some (meta_bytes m1)" "meta_ok m1"
     "root_page_id (repaired rs m1) = pid T" "image_ok ps (map_of (pages T)) (repaired rs m1) b"
     "next_page_id (repaired rs m1) \<le> L" "card (dom (contents T)) \<le> 2 ^ 50" "last_checkpoint_lsn (repaired rs m1) \<le> last_lsn_of rs"
     "replayed (last_checkpoint_lsn (repaired rs m1)) rs (contents T) = m" by (auto simp: recovers_def)
  then have "replayed (last_checkpoint_lsn (repaired rs m1)) (rs @ [r]) (contents T) = apply_record r m"
    using assms(2) by (simp add: replayed_def)
  with * assms(2) show ?thesis
    unfolding recovers_def by (intro exI [of _ T] exI [of _ h] exI [of _ m1]) (simp add: repaired_append [OF assms(3)])
qed

lemma db_logged:
  assumes ok: "db_ok N E h m rs s" and len: "length rs < 2 ^ 50" and r: "lsn r = last_lsn_of rs + 1" "\<not> is_WALCheckpointRecord r"
    and good: "record_good (env_page_size E) r" and card: "card (dom (apply_record r m)) < 2 ^ Suc N"
    and new: "wal_state (rs @ [r]) w" "tree_holds E h' (apply_record r m) 0 t" "lsns_fit t" "grown k (db_tree s) t"
    and s': "db_tree s' = t" "db_wal s' = w" "db_checkpoint_dirty_page_ratio s' = db_checkpoint_dirty_page_ratio s"
      "db_checkpoint_wal_size_bytes s' = db_checkpoint_wal_size_bytes s"
  shows "db_ok N E h' (apply_record r m) (rs @ [r]) s'"
proof -
  from ok obtain b x where b: "env_durable E = Some b" "recovers (page_limit (db_tree s)) (env_page_size E) b rs m"
    "file_bytes (db_tree s) = b @ x" by (auto simp: db_ok_def)
  from new(4) b(3) obtain y where y: "page_limit (db_tree s) \<le> page_limit t" "file_bytes t = b @ y" by (auto simp: grown_def)
  from recovers_mono [OF recovers_append [OF b(2) r] y(1)] have "recovers (page_limit t) (env_page_size E) b (rs @ [r]) (apply_record r m)" .
  with assms b(1) y(2) show ?thesis unfolding db_ok_def db_live_def db_config_def by auto
qed

definition db_holds :: "nat \<Rightarrow> (bytes \<rightharpoonup> bytes) \<Rightarrow> db \<Rightarrow> bool" where
  "db_holds N m s \<longleftrightarrow> db_is_opened s \<and> (\<exists>E h rs. db_ok N E h m rs s \<and> settled E s)"

text \<open>
  Page identifiers and LSNs do not run out during the next \<open>n\<close> operations; each of them takes at most
  \<open>2 * (N + 2)\<close> pages and three LSNs.
\<close>

definition headroom :: "nat \<Rightarrow> nat \<Rightarrow> db \<Rightarrow> bool" where
  "headroom n N s \<longleftrightarrow> page_limit (db_tree s) + n * (2 * (N + 2)) \<le> 2 ^ 61 \<and> wl_current_lsn (db_wal s) + 3 * n + 1 < 2 ^ 64"

definition step_bound :: "nat \<Rightarrow> db \<Rightarrow> db \<Rightarrow> bool" where
  "step_bound N s s' \<longleftrightarrow> page_limit (db_tree s') \<le> page_limit (db_tree s) + 2 * (N + 2) \<and>
     wl_current_lsn (db_wal s') \<le> wl_current_lsn (db_wal s) + 3 \<and> pg_page_size (db_tree s') = pg_page_size (db_tree s)"

lemma headroom_step: "headroom (Suc n) N s \<Longrightarrow> step_bound N s s' \<Longrightarrow> headroom n N s'"
  by (simp add: headroom_def step_bound_def)

text \<open>What the database accepts: keys of at most about a tenth of a page, records of at most a fifth.\<close>

definition acceptable :: "nat \<Rightarrow> bytes \<Rightarrow> bytes \<Rightarrow> bool" where
  "acceptable ps key val \<longleftrightarrow> short_key ps key \<and> int (calculate_leaf_record_size key val) \<le> get_max_leaf_record_size ps"

lemma put_record_ok:
  assumes "acceptable ps key val" and "ps < 256 ^ 4" and "l < 256 ^ 8"
  shows "wal_ok (WALPutRecord l key val)"
proof -
  have "5 * (int (length key) + int (length val) + 16) \<le> int ps"
    using assms(1) by (auto simp: acceptable_def calculate_leaf_record_size_def get_max_leaf_record_size_def)
  then have "int (5 * (length key + length val + 16)) \<le> int ps" by simp
  then have "5 * (length key + length val + 16) \<le> ps" unfolding of_nat_le_iff .
  then have "5 * (length key + length val + 16) < 256 ^ 4" using assms(2) by (rule le_less_trans)
  then show ?thesis using assms(3) by (simp add: wal_ok_def wal_body_def wal_header_def lp_def)
qed

text \<open>
  The course of a write, shared by \<^verbatim>\<open>put\<close> and \<^verbatim>\<open>delete\<close>: make room, log the record, update the tree, count the
  version, and checkpoint if it is due.
\<close>

lemma db_write_ok:
  assumes holds: "db_holds N m s" and room: "headroom 1 N s" and card: "card (dom m') < 2 ^ Suc N"
    and rec: "\<And>l. lsn (rec l) = l" "\<And>l. apply_record (rec l) m = m'" "\<And>l. record_good (pg_page_size (db_tree s)) (rec l)"
      "\<And>l. l < 256 ^ 8 \<Longrightarrow> wal_ok (rec l)" "\<And>l. \<not> is_WALCheckpointRecord (rec l)"
    and log: "\<And>rs w. wal_state rs w \<Longrightarrow> wal_ok (rec (last_lsn_of rs + 1)) \<Longrightarrow>
       \<exists>w'. log_op w = (Inr (last_lsn_of rs + 1), w') \<and> wal_state (rs @ [rec (last_lsn_of rs + 1)]) w'"
    and upd: "\<And>E h t l. tree_holds E h m (7 * h + 5) t \<Longrightarrow> env_page_size E = pg_page_size (db_tree s) \<Longrightarrow>
       \<exists>h' t'. update l t = (Inr a, t') \<and> tree_holds E h' m' 0 t'"
    and keep: "\<And>l. l < 256 ^ 8 \<Longrightarrow> keeps lsns_fit (update l)"
    and grow: "\<And>E h t l r t'. tree_holds E h m (7 * h + 5) t \<Longrightarrow> update l t = (r, t') \<Longrightarrow> grown (2 * (h + 2)) t t'"
    and chk: "chk a"
  shows "\<exists>s'. bind_op db_maybe_checkpoint (\<lambda>_. bind_op (on_wal log_op) (\<lambda>l. bind_op (on_tree (update l)) (\<lambda>x.
       bind_op (assert_op (chk x)) (\<lambda>_. bind_op bump_version (\<lambda>_. db_maybe_checkpoint))))) s = (Inr (), s') \<and> db_holds N m' s' \<and>
       step_bound N s s' \<and> db_version_counter s' = db_version_counter s + 1"
proof -
  from holds obtain E h rs where ok: "db_ok N E h m rs s" and few: "settled E s" and opn: "db_is_opened s"
    by (auto simp: db_holds_def)
  have th: "tree_holds E h m 0 (db_tree s)" and ws: "wal_state rs (db_wal s)" using ok by (simp_all add: db_ok_def db_live_def)
  have ps: "env_page_size E = pg_page_size (db_tree s)" using tree_holds_meta(3) [OF th] by simp
  have lim: "page_limit (db_tree s) + 2 * (N + 2) \<le> 2 ^ 61" and seq: "last_lsn_of rs + 3 < 2 ^ 64"
    using room wal_stateD(4) [OF ws] by (simp_all add: headroom_def)
  have hN: "h \<le> N" by (rule db_ok_room(2) [OF ok few le0])
  obtain t1 w1 E1 rs1 where s1: "db_maybe_checkpoint s = (Inr (), s\<lparr>db_tree := t1, db_wal := w1\<rparr>)"
    "db_ok N E1 h m rs1 (s\<lparr>db_tree := t1, db_wal := w1\<rparr>)" "settled E1 (s\<lparr>db_tree := t1, db_wal := w1\<rparr>)"
    "page_limit t1 = page_limit (db_tree s)" "last_lsn_of rs1 \<le> last_lsn_of rs + 1" "length rs1 < 2 ^ 50"
    "env_page_size E1 = env_page_size E"
    by (rule db_maybe_checkpoint_ok [OF ok]) (use lim seq in simp_all)
  let ?l = "last_lsn_of rs1 + 1"
  have th1: "tree_holds E1 h m (7 * h + 5) t1" using db_ok_room(1) [OF s1(2,3), of "7 * h + 5"] hN by simp
  have ws1: "wal_state rs1 w1" and fit1: "lsns_fit t1" using s1(2) by (simp_all add: db_ok_def db_live_def)
  have l64: "?l < 256 ^ 8" using s1(5) seq by simp
  from log [OF ws1 rec(4) [OF l64]] obtain w2 where w2: "log_op w1 = (Inr ?l, w2)" "wal_state (rs1 @ [rec ?l]) w2" by blast
  from upd [OF th1, of ?l] s1(7) ps obtain h2 t2 where t2: "update ?l t1 = (Inr a, t2)" "tree_holds E1 h2 m' 0 t2" by auto
  have fit2: "lsns_fit t2" by (rule keepsD [OF keep [OF l64] t2(1) fit1])
  let ?s2 = "s\<lparr>db_wal := w2, db_tree := t2, db_version_counter := db_version_counter s + 1\<rparr>"
  have lim2: "page_limit t2 \<le> page_limit t1 + 2 * (h + 2)" using grow [OF th1 t2(1)] by (simp add: grown_def)
  have ok2: "db_ok N E1 h2 m' (rs1 @ [rec ?l]) ?s2" unfolding rec(2) [of ?l, symmetric]
    by (rule db_logged [OF s1(2,6) rec(1,5), where k = "2 * (h + 2)"]) (use rec(2,3) s1(7) ps card w2(2) t2(2) fit2 grow [OF th1 t2(1)] in simp_all)
  obtain t3 w3 E3 rs3 where s3: "db_maybe_checkpoint ?s2 = (Inr (), ?s2\<lparr>db_tree := t3, db_wal := w3\<rparr>)"
    "db_ok N E3 h2 m' rs3 (?s2\<lparr>db_tree := t3, db_wal := w3\<rparr>)" "settled E3 (?s2\<lparr>db_tree := t3, db_wal := w3\<rparr>)"
    "page_limit t3 = page_limit (db_tree ?s2)" "last_lsn_of rs3 \<le> last_lsn_of (rs1 @ [rec ?l]) + 1" "length rs3 < 2 ^ 50"
    "env_page_size E3 = env_page_size E1"
    by (rule db_maybe_checkpoint_ok [OF ok2]) (use lim lim2 s1(4,5) hN seq rec(1) in simp_all)
  have end_state: "tree_holds E3 h2 m' 0 t3" "wal_state rs3 w3" using s3(2) by (simp_all add: db_ok_def db_live_def)
  then have "step_bound N s (?s2\<lparr>db_tree := t3, db_wal := w3\<rparr>)"
    using lim2 s1(4,5,7) s3(4-7) ps hN rec(1) wal_stateD(4) [OF ws]
      wal_stateD(4) [OF end_state(2)] tree_holds_meta(3) [OF end_state(1)]
    by (auto simp: step_bound_def)
  then show ?thesis
    using opn s1(1) w2(1) t2(1) s3(1-3) chk unfolding db_holds_def
    by (auto simp: bump_version_def bind_op_def [of db_maybe_checkpoint])
qed

lemma tree_write_grows:
  fixes s :: "'z tree_scheme"
  assumes "tree_holds E h m (7 * h + 5) s"
  shows "tree_insert key v l s = (r, s') \<Longrightarrow> grown (2 * (h + 2)) s s'"
    and "tree_delete key l s = (r', s') \<Longrightarrow> grown (2 * (h + 2)) s s'"
  by (rule tree_update_grows [OF assms]; simp)+

lemma grows_search: "grows 0 (tree_search key)"
  unfolding tree_search_def by (intro grows_rules grows_bind0)

lemma bind_assert_True [simp]: "bind_op (assert_op True) f = f ()"
  by (rule ext) (simp add: bind_op_def)

lemma bind_check_if_opened [simp]:
  "bind_op check_if_opened f s = (if db_is_opened s then f () s else (Inl DBClosedError, s))"
  by (simp add: check_if_opened_def bind_op_assoc)

lemma bind_ensure_bytes [simp]:
  "bind_op (ensure_bytes_type (PyBytes b)) f s = f b s" "bind_op (ensure_bytes_type PyOther) f s = (Inl TypeError, s)"
  by (simp_all add: ensure_bytes_type_def)

lemma db_put_ok:
  assumes holds: "db_holds N m s" and room: "headroom 1 N s" and card: "card (dom (m(key \<mapsto> val))) < 2 ^ Suc N"
    and acc: "acceptable (pg_page_size (db_tree s)) key val"
  shows "\<exists>s'. db_put (PyBytes key) (PyBytes val) s = (Inr (), s') \<and> db_holds N (m(key \<mapsto> val)) s' \<and>
     step_bound N s s' \<and> db_version_counter s' = db_version_counter s + 1"
proof -
  from holds obtain E h rs where th: "tree_holds E h m 0 (db_tree s)" and opn: "db_is_opened s"
    by (auto simp: db_holds_def db_ok_def db_live_def)
  note meta = tree_holds_meta [OF th]
  have fits: "short_key (env_page_size E) key" "int (calculate_leaf_record_size key val) \<le> get_max_leaf_record_size (env_page_size E)"
    using acc meta(3) by (simp_all add: acceptable_def)
  have psb: "pg_page_size (db_tree s) < 256 ^ 4" using meta(3,5) by simp
  have big: "raise_if_record_too_large key val (db_tree s) = (Inr (), db_tree s)"
    using raise_if_record_too_large_ok [OF th, of key val] fits by simp
  have up: "\<exists>h' t'. tree_insert key val l t = (Inr (), t') \<and> tree_holds E h' (m(key \<mapsto> val)) 0 t'"
    if "tree_holds E h m (7 * h + 5) t" "env_page_size E = pg_page_size (db_tree s)" for E h l and t :: tree
    by (rule tree_insert_ok [OF that(1)]) (use acc that(2) in \<open>simp_all add: acceptable_def\<close>)
  have "\<exists>s'. bind_op db_maybe_checkpoint (\<lambda>_. bind_op (on_wal (append_put key val)) (\<lambda>l. bind_op (on_tree (tree_insert key val l)) (\<lambda>x.
       bind_op (assert_op True) (\<lambda>_. bind_op bump_version (\<lambda>_. db_maybe_checkpoint))))) s = (Inr (), s') \<and> db_holds N (m(key \<mapsto> val)) s' \<and>
     step_bound N s s' \<and> db_version_counter s' = db_version_counter s + 1"
    by (rule db_write_ok [OF holds room card, where rec = "\<lambda>l. WALPutRecord l key val" and a = "()"];
      (erule (1) append_put_ok | erule (1) up | erule lsns_keep_update(1) | erule (1) tree_write_grows(1) |
       erule put_record_ok [OF acc psb] | use acc in \<open>simp add: acceptable_def\<close>))
  then show ?thesis using opn big
    by (simp add: db_put_def)
qed

lemma contents_entry:
  assumes "tree_fine ps h T" and "contents T key = Some v"
  shows "calculate_leaf_slot_size (LeafSlot key v) True \<le> slot_cap ps"
proof -
  have "(key, v) \<in> set (map kv (entries (leaf_seq T)))" using assms(2) by (auto simp: contents_def dest: map_of_SomeD)
  then obtain e where e: "e \<in> set (entries (leaf_seq T))" "kv e = (key, v)" by auto
  from e(2) have "e = LeafSlot key v" by (cases e) simp
  with e(1) obtain x where "x \<in> set (leaf_seq T)" "LeafSlot key v \<in> set (item_entries x)" by (auto simp: entries_def)
  moreover have "item_capped ps x" using calculation(1) assms(1) by (auto simp: tree_fine_def tree_ok_def seq_ok_def)
  ultimately show ?thesis by - (cases x; auto)
qed

lemma delete_record_ok:
  assumes "tree_holds E h m n t" and "m key = Some v" and "l < 256 ^ 8"
  shows "wal_ok (WALDeleteRecord l key)"
proof -
  from assms(1) obtain T where "tree_fine (env_page_size E) h T" "contents T = m" by (auto simp: tree_holds_def)
  with contents_entry [of "env_page_size E" h T key v] assms(2) have "length key \<le> slot_cap (env_page_size E)"
    by (simp add: calculate_leaf_slot_size_def)
  also have "\<dots> < 256 ^ 4 div 5" using tree_holds_meta(5) [OF assms(1)] by (simp add: slot_cap_def)
  finally show ?thesis using assms(3) by (simp add: wal_ok_def wal_body_def wal_header_def lp_def)
qed

text \<open>A read leaves the database as it was, up to which clean pages are cached.\<close>

lemma db_read:
  assumes ok: "db_ok N E h m rs s" and few: "settled E s" and opn: "db_is_opened s"
    and run: "f (db_tree s) = (r, t)" "tree_holds E h m n t"
    and keep: "keeps lsns_fit f" "\<And>d. keeps (\<lambda>t. dirty_count t \<le> d) f" "grows 0 f"
  shows "db_holds N m (s\<lparr>db_tree := t\<rparr>)" "page_limit t = page_limit (db_tree s)" "pg_page_size t = pg_page_size (db_tree s)"
proof -
  have th: "tree_holds E h m 0 (db_tree s)" and fit: "lsns_fit (db_tree s)" using ok by (simp_all add: db_ok_def db_live_def)
  have th0: "tree_holds E h m 0 t" using run(2) tree_holds_room by blast
  have dirty: "dirty_count t \<le> dirty_count (db_tree s)" by (rule keepsD [OF keep(2) run(1)]) simp
  have grown: "grown 0 (db_tree s) t" by (rule growsD [OF keep(3) run(1)])
  then show lim: "page_limit t = page_limit (db_tree s)" by (simp add: grown_def)
  show "pg_page_size t = pg_page_size (db_tree s)" using tree_holds_meta(3) [OF th] tree_holds_meta(3) [OF th0] by simp
  have "db_ok N E h m rs (s\<lparr>db_tree := t\<rparr>)"
    using ok th0 lim grown keepsD [OF keep(1) run(1) fit] unfolding db_ok_def db_live_def db_config_def grown_def by auto
  moreover have "settled E (s\<lparr>db_tree := t\<rparr>)"
    using few dirty le_trans [OF mult_le_mono1 [OF dirty]] by (auto simp: settled_def split: prod.splits)
  ultimately show "db_holds N m (s\<lparr>db_tree := t\<rparr>)" using opn unfolding db_holds_def by auto
qed

text \<open>The room a descent needs is there whenever the database holds.\<close>

lemma db_holds_descend:
  assumes "db_holds N m s"
  obtains E h rs where "db_ok N E h m rs s" "settled E s" "db_is_opened s" "tree_holds E h m (Suc h) (db_tree s)"
proof -
  from assms obtain E h rs where ok: "db_ok N E h m rs s" "settled E s" "db_is_opened s" by (auto simp: db_holds_def)
  have "h \<le> N" by (rule db_ok_room(2) [OF ok(1,2) le0])
  then have "tree_holds E h m (Suc h) (db_tree s)" by (intro db_ok_room(1) [OF ok(1,2)]) simp
  with ok show thesis by (rule that)
qed

lemma db_search_ok:
  assumes holds: "db_holds N m s"
  shows "\<exists>t. tree_search key (db_tree s) = (Inr (m key), t) \<and> db_holds N m (s\<lparr>db_tree := t\<rparr>) \<and> page_limit t = page_limit (db_tree s)
     \<and> pg_page_size t = pg_page_size (db_tree s)"
proof -
  obtain E h rs where ok: "db_ok N E h m rs s" "settled E s" "db_is_opened s" "tree_holds E h m (Suc h) (db_tree s)"
    by (rule db_holds_descend [OF holds])
  from tree_search_holds [OF ok(4), of key] obtain t where
    t: "tree_search key (db_tree s) = (Inr (m key), t)" "tree_holds E h m (Suc h) t" by auto
  show ?thesis using t(1) db_read [OF ok(1-3) t lsns_keep_search(2) dirty_keep_search(2) grows_search] by blast
qed

lemma db_get_ok:
  assumes "db_holds N m s"
  shows "\<exists>s'. db_get (PyBytes key) s = (Inr (m key), s') \<and> db_holds N m s' \<and> step_bound N s s' \<and>
     db_version_counter s' = db_version_counter s"
  using db_search_ok [OF assms, of key] assms
  by (auto simp: db_get_def on_tree_def step_bound_def db_holds_def [of N m s])

lemma card_dom_delete: "card (dom m) < n \<Longrightarrow> card (dom (m(key := None))) < n"
  by (simp add: card_Diff_singleton_if) linarith

lemma db_delete_ok:
  assumes holds: "db_holds N m s" and room: "headroom 1 N s"
  shows "\<exists>s'. db_delete (PyBytes key) s = (Inr (m key \<noteq> None), s') \<and> db_holds N (m(key := None)) s' \<and>
     step_bound N s s' \<and> db_version_counter s' = db_version_counter s + (if m key = None then 0 else 1)"
proof -
  have opn: "db_is_opened s" using holds by (simp add: db_holds_def)
  from db_search_ok [OF holds, of key] obtain t where
    t: "tree_search key (db_tree s) = (Inr (m key), t)" "db_holds N m (s\<lparr>db_tree := t\<rparr>)" "page_limit t = page_limit (db_tree s)"
       "pg_page_size t = pg_page_size (db_tree s)" by auto
  show ?thesis
  proof (cases "m key")
    case None
    then have "m(key := None) = m" by auto
    with t opn None show ?thesis
      by (auto simp: db_delete_def step_bound_def)
  next
    case (Some v)
    from t(2) obtain E h rs where th: "tree_holds E h m 0 t" and card: "card (dom m) < 2 ^ Suc N"
      by (auto simp: db_holds_def db_ok_def db_live_def)
    have room': "headroom 1 N (s\<lparr>db_tree := t\<rparr>)" using room t(3) by (simp add: headroom_def)
    have up: "\<exists>h' t'. tree_delete key l t = (Inr True, t') \<and> tree_holds E h' (m(key := None)) 0 t'"
      if "tree_holds E h m (7 * h + 5) t" for E h l and t :: tree
      using tree_delete_ok [OF that, of key l] Some by simp
    have "\<exists>s'. bind_op db_maybe_checkpoint (\<lambda>_. bind_op (on_wal (append_delete key)) (\<lambda>l. bind_op (on_tree (tree_delete key l)) (\<lambda>x.
         bind_op (assert_op x) (\<lambda>_. bind_op bump_version (\<lambda>_. db_maybe_checkpoint))))) (s\<lparr>db_tree := t\<rparr>) = (Inr (), s') \<and>
         db_holds N (m(key := None)) s' \<and> step_bound N (s\<lparr>db_tree := t\<rparr>) s' \<and>
         db_version_counter s' = db_version_counter (s\<lparr>db_tree := t\<rparr>) + 1"
      by (rule db_write_ok [OF t(2) room' card_dom_delete [OF card], where rec = "\<lambda>l. WALDeleteRecord l key" and a = True and chk = "\<lambda>x. x"];
        (erule (1) append_delete_ok | erule up | erule lsns_keep_update(2) | erule (1) tree_write_grows(2) |
         erule delete_record_ok [OF th Some] | simp))
    then obtain s' where s': "bind_op db_maybe_checkpoint (\<lambda>_. bind_op (on_wal (append_delete key)) (\<lambda>l. bind_op (on_tree (tree_delete key l)) (\<lambda>x.
         bind_op (assert_op x) (\<lambda>_. bind_op bump_version (\<lambda>_. db_maybe_checkpoint))))) (s\<lparr>db_tree := t\<rparr>) = (Inr (), s')"
         "db_holds N (m(key := None)) s'" "step_bound N (s\<lparr>db_tree := t\<rparr>) s'" "db_version_counter s' = db_version_counter s + 1" by auto
    have "db_delete (PyBytes key) s = bind_op (bind_op db_maybe_checkpoint (\<lambda>_. bind_op (on_wal (append_delete key)) (\<lambda>l.
        bind_op (on_tree (tree_delete key l)) (\<lambda>x. bind_op (assert_op x) (\<lambda>_. bind_op bump_version (\<lambda>_. db_maybe_checkpoint))))))
        (\<lambda>_. ret True) (s\<lparr>db_tree := t\<rparr>)"
      using t(1) Some opn by (simp add: db_delete_def bind_op_assoc)
    also have "\<dots> = (Inr True, s')" unfolding bind_op_def [of "bind_op db_maybe_checkpoint _"] s'(1) by simp
    finally show ?thesis using s'(2-4) t(3,4) Some by (auto simp: step_bound_def)
  qed
qed

end
