(* ===== verification/Recovery.thy ===== *)
theory Recovery
  imports DbState
begin

text \<open>
  Opening a database (\<^verbatim>\<open>DB.open\<close>, \<^verbatim>\<open>DB._recover\<close>): the meta page is repaired from the newest checkpoint record of the
  log (\<open>repair_ok\<close>), the records after it are applied to the tree with eviction disabled (\<open>db_replay_ok\<close>), and a
  checkpoint follows. A data file and a log that recover to a map open as a running database that holds it
  (\<open>db_open_ok\<close>).
\<close>

section \<open>Replay\<close>

lemma on_tree_op [simp]: "f (db_tree s) = (r, t) \<Longrightarrow> on_tree f s = (r, s\<lparr>db_tree := t\<rparr>)"
  by (simp add: on_tree_def)

text \<open>The effect of a record when recovery starts after the checkpoint \<open>c\<close>.\<close>

definition redo :: "nat \<Rightarrow> wal_record \<Rightarrow> (bytes \<rightharpoonup> bytes) \<Rightarrow> (bytes \<rightharpoonup> bytes)" where
  "redo c r m = (if lsn r \<le> c then m else apply_record r m)"

lemma replayed_simps [simp]: "replayed c [] m = m" "replayed c (r # rs) m = replayed c rs (redo c r m)"
  by (simp_all add: replayed_def redo_def)

lemma tree_holds_finite: "tree_holds E h m n s \<Longrightarrow> finite (dom m)"
  by (auto simp: tree_holds_def contents_def finite_dom_map_of)

lemma card_redo: "finite (dom m) \<Longrightarrow> card (dom (redo c r m)) \<le> card (dom m) + 1"
  by (cases r) (auto simp: redo_def card_insert_if card_Diff_singleton_if)

lemma apply_wal_record_ok:
  assumes holds: "tree_holds E h m 0 (db_tree s)" and quiet: "\<not> env_evicting E" and fit: "lsns_fit (db_tree s)"
    and good: "record_good (env_page_size E) r" and r: "lsn r < 256 ^ 8" and card: "card (dom m) < 2 ^ Suc N"
  obtains h' t where "apply_wal_record r s = (Inr (), s\<lparr>db_tree := t\<rparr>)"
    "tree_holds E h' (redo (db_recovery_last_checkpoint_lsn s) r m) 0 t" "lsns_fit t"
    "page_limit t \<le> page_limit (db_tree s) + 2 * (N + 2)"
proof -
  have room: "tree_holds E h m (7 * h + 5) (db_tree s)" using holds quiet tree_holds_room [of E h m "7 * h + 5" "db_tree s"] by simp
  have hN: "h \<le> N" by (rule tree_holds_low [OF holds card])
  show thesis
  proof (cases "lsn r \<le> db_recovery_last_checkpoint_lsn s")
    case True
    then show thesis using that [where t = "db_tree s"] holds fit by (simp add: apply_wal_record_def redo_def)
  next
    case False
    show thesis
    proof (cases r)
      case (WALPutRecord l key val)
      from tree_insert_ok [OF room, of key val l] good WALPutRecord obtain h' t where
        t: "tree_insert key val l (db_tree s) = (Inr (), t)" "tree_holds E h' (m(key \<mapsto> val)) 0 t" by auto
      moreover have "lsns_fit t" by (rule keepsD [OF lsns_keep_update(1) t(1) fit]) (use r WALPutRecord in simp)
      ultimately show thesis using that [where t = t] tree_write_grows(1) [OF room t(1)] hN False WALPutRecord
        by (simp add: grown_def apply_wal_record_def redo_def)
    next
      case (WALDeleteRecord l key)
      from tree_delete_ok [OF room, of key l] obtain h' t where
        t: "tree_delete key l (db_tree s) = (Inr (m key \<noteq> None), t)" "tree_holds E h' (m(key := None)) 0 t" by auto
      moreover have "lsns_fit t" by (rule keepsD [OF lsns_keep_update(2) t(1) fit]) (use r WALDeleteRecord in simp)
      ultimately show thesis using that [where t = t] tree_write_grows(2) [OF room t(1)] hN False WALDeleteRecord
        by (simp add: grown_def apply_wal_record_def redo_def)
    qed (use that [where t = "db_tree s"] holds fit False in \<open>simp add: apply_wal_record_def redo_def\<close>)
  qed
qed

lemma apply_all_ok:
  assumes "tree_holds E h m 0 (db_tree s)" and "\<not> env_evicting E" and "lsns_fit (db_tree s)"
    and "\<forall>r \<in> set rs. record_good (env_page_size E) r \<and> lsn r < 256 ^ 8" and "card (dom m) + length rs < 2 ^ Suc N"
  shows "\<exists>h' t. apply_all apply_wal_record rs s = (Inr (), s\<lparr>db_tree := t\<rparr>) \<and>
     tree_holds E h' (replayed (db_recovery_last_checkpoint_lsn s) rs m) 0 t \<and> lsns_fit t \<and>
     page_limit t \<le> page_limit (db_tree s) + 2 * (N + 2) * length rs"
  using assms
proof (induction rs arbitrary: m h s)
  case (Cons r rs)
  let ?m = "redo (db_recovery_last_checkpoint_lsn s) r m"
  obtain h1 t1 where t1: "apply_wal_record r s = (Inr (), s\<lparr>db_tree := t1\<rparr>)" "tree_holds E h1 ?m 0 t1" "lsns_fit t1"
    "page_limit t1 \<le> page_limit (db_tree s) + 2 * (N + 2)"
    by (rule apply_wal_record_ok [OF Cons.prems(1-3), of r N]) (use Cons.prems(4,5) in auto)
  have "card (dom ?m) + length rs < 2 ^ Suc N"
    using card_redo [OF tree_holds_finite [OF Cons.prems(1)], of "db_recovery_last_checkpoint_lsn s" r] Cons.prems(5) by simp
  with Cons.IH [of h1 ?m "s\<lparr>db_tree := t1\<rparr>"] t1(2,3) Cons.prems(2,4) obtain h' t where
    t: "apply_all apply_wal_record rs (s\<lparr>db_tree := t1\<rparr>) = (Inr (), s\<lparr>db_tree := t\<rparr>)"
       "tree_holds E h' (replayed (db_recovery_last_checkpoint_lsn s) rs ?m) 0 t" "lsns_fit t"
       "page_limit t \<le> page_limit t1 + 2 * (N + 2) * length rs" by auto
  have "page_limit t \<le> page_limit (db_tree s) + 2 * (N + 2) * length (r # rs)" using t(4) t1(4) by simp
  with t(1-3) t1(1) show ?case by (intro exI [of _ h'] exI [of _ t]) (simp add: bind_op_Inr)
next
  case Nil
  then show ?case by (intro exI [of _ h] exI [of _ "db_tree s"]) simp
qed

section \<open>Repair\<close>

lemma newest_loop: "for_fold newer_checkpoint acc (rs, Inr ()) = ret (foldl newer acc rs)"
  by (induction rs arbitrary: acc) (auto simp: newer_checkpoint_def newer_def bind_op_def fun_eq_iff)

lemma repair_ok:
  assumes w: "wl_open (db_wal s)" "wl_file (db_wal s) = Some (log_bytes rs @ t)" "chained 0 rs" "ignored_tail t"
    and meta: "pg_meta (db_tree s) = Some m"
  obtains d where "repair_pager_meta_from_wal_checkpoint s =
    (Inr (), s\<lparr>db_tree := (db_tree s)\<lparr>pg_meta := Some (repaired rs m), pg_is_meta_dirty := d\<rparr>\<rparr>)"
proof -
  have run: "repair_pager_meta_from_wal_checkpoint s = (case newest_checkpoint rs of None \<Rightarrow> ret ()
     | Some c \<Rightarrow> if lsn c \<le> last_checkpoint_lsn m then ret ()
         else on_tree (update_meta (\<lambda>m. m\<lparr>root_page_id := rec_root_page_id c,
                freelist_head_page_id := rec_freelist_head c, next_page_id := rec_next_page_id c,
                last_checkpoint_lsn := lsn c\<rparr>))) s"
    using peek_records_ok [OF w] meta
    by (simp add: repair_pager_meta_from_wal_checkpoint_def get_meta_def require_meta_def op_simps newest_loop newest_checkpoint_def)
  have same: "(db_tree s)\<lparr>pg_meta := Some m, pg_is_meta_dirty := pg_is_meta_dirty (db_tree s)\<rparr> = db_tree s"
    using meta by (cases "db_tree s") simp
  show thesis
  proof (cases "newest_checkpoint rs")
    case None
    then show thesis using that [of "pg_is_meta_dirty (db_tree s)"] run same by (simp add: repaired_def)
  next
    case (Some c)
    show thesis
    proof (cases "lsn c \<le> last_checkpoint_lsn m")
      case True
      then show thesis using that [of "pg_is_meta_dirty (db_tree s)"] run same Some by (simp add: repaired_def)
    next
      case False
      then show thesis using that [of True] run Some update_meta_ok [OF meta] by (simp add: repaired_def)
    qed
  qed
qed

section \<open>Opening\<close>

text \<open>What \<^verbatim>\<open>_recover\<close> finds: an open pager with an empty cache over the file \<open>b\<close> and an open log.\<close>

definition fresh_store :: "nat \<Rightarrow> bytes \<Rightarrow> meta_page \<Rightarrow> tree \<Rightarrow> bool" where
  "fresh_store ps b m t \<longleftrightarrow> pg_disk t = Some b \<and> pg_open t \<and> pg_meta t = Some m \<and> pg_page_size t = ps \<and>
     pg_freelist_cache t = Map.empty \<and> pg_dirty_freelist_page_ids t = {} \<and> bp_cache t = [] \<and> bp_eviction_enabled t"

lemma image_tree:
  assumes t: "fresh_store ps b m1 t" and img: "image_ok ps (map_of (pages T)) m b"
    and T: "tree_fine ps h T" "129 \<le> ps" "root_page_id m = pid T"
  shows "tree_holds \<lparr>env_page_size = ps, env_capacity = bp_capacity_pages t, env_evicting = False,
      env_durable = pg_durable t, env_checkpoint_lsn = last_checkpoint_lsn m\<rparr> h (contents T) 0
      (t\<lparr>bp_eviction_enabled := False, pg_meta := Some m, pg_is_meta_dirty := d\<rparr>)" (is "tree_holds ?E h _ 0 ?t")
proof -
  have "pool_state ?E (map_of (pages T)) {} {} {} 0 (root_page_id m) ?t"
    using image_pool [OF img, of ?t 0] t by (simp add: fresh_store_def)
  with T show ?thesis by (auto simp: tree_holds_def)
qed

lemma tree_holds_evicting:
  "tree_holds E h m n t \<Longrightarrow> tree_holds (E\<lparr>env_evicting := ev\<rparr>) h m 0 (t\<lparr>bp_eviction_enabled := ev\<rparr>)"
  using pool_state_evicting(2) by (fastforce simp: tree_holds_def)

lemma db_replay_ok:
  assumes w: "wl_open (db_wal s)" "wl_file (db_wal s) = Some (log_bytes rs @ z)" "chained 0 rs" "ignored_tail z"
    and t: "tree_holds E h m 0 (db_tree s)" "\<not> env_evicting E" "lsns_fit (db_tree s)"
    and rs: "\<forall>r \<in> set rs. record_good (env_page_size E) r" "card (dom m) + length rs < 2 ^ Suc N"
  obtains h' t' w' where "db_replay s = (Inr (), s\<lparr>db_tree := t', db_wal := w'\<rparr>)" "wal_state rs w'"
    "tree_holds E h' (replayed (db_recovery_last_checkpoint_lsn s) rs m) 0 t'" "lsns_fit t'"
    "page_limit t' \<le> page_limit (db_tree s) + 2 * (N + 2) * length rs"
proof -
  have "\<forall>r \<in> set rs. record_good (env_page_size E) r \<and> lsn r < 256 ^ 8"
    using rs(1) chained_ok [OF w(3)] by (auto simp: wal_ok_def)
  from apply_all_ok [OF t this rs(2)] obtain h' t' where
    t': "apply_all apply_wal_record rs s = (Inr (), s\<lparr>db_tree := t'\<rparr>)"
      "tree_holds E h' (replayed (db_recovery_last_checkpoint_lsn s) rs m) 0 t'" "lsns_fit t'"
      "page_limit t' \<le> page_limit (db_tree s) + 2 * (N + 2) * length rs" by blast
  from replay_ok [OF w t'(1)] obtain w' where
    "replay apply_wal_record (db_wal s, s) = (Inr (), w', s\<lparr>db_tree := t'\<rparr>)" "wal_state rs w'" by auto
  with t'(2-4) show thesis using that [where t' = t' and w' = w'] by (simp add: db_replay_def)
qed

text \<open>The bounds under which recovery cannot run out of page identifiers, LSNs or pages of the pool.\<close>

definition recoverable :: "nat \<Rightarrow> nat \<Rightarrow> nat \<Rightarrow> bytes \<Rightarrow> wal_record list \<Rightarrow> (bytes \<rightharpoonup> bytes) \<Rightarrow> bool" where
  "recoverable L N ps b rs m \<longleftrightarrow> recovers L ps b rs m \<and> L \<le> 2 ^ 61 \<and> chained 0 rs \<and> (\<forall>r \<in> set rs. record_good ps r) \<and>
     length rs \<le> 2 ^ 51 \<and> last_lsn_of rs + 1 < 2 ^ 64 \<and> card (dom m) < 2 ^ Suc N"

lemma db_recover_ok:
  assumes T: "129 \<le> ps" "tree_fine ps h T" "root_page_id (repaired rs m1) = pid T"
      "image_ok ps (map_of (pages T)) (repaired rs m1) b" "next_page_id (repaired rs m1) \<le> 2 ^ 61" "card (dom (contents T)) \<le> 2 ^ 50"
      "replayed (last_checkpoint_lsn (repaired rs m1)) rs (contents T) = m"
    and t: "fresh_store ps b m1 (db_tree s)" and w: "wl_open (db_wal s)" "wl_file (db_wal s) = Some (log_bytes rs @ z)" "chained 0 rs" "ignored_tail z"
    and rs: "\<forall>r \<in> set rs. record_good ps r" "length rs \<le> 2 ^ 51" "last_lsn_of rs + 1 < 2 ^ 64" "card (dom m) < 2 ^ Suc N"
    and conf: "config_ok N (bp_capacity_pages (db_tree s)) (db_checkpoint_wal_size_bytes s) (db_checkpoint_dirty_page_ratio s)"
  obtains s' where "db_recover s = (Inr (), s')" "db_holds N m (s'\<lparr>db_is_opened := True\<rparr>)"
    "db_version_counter s' = db_version_counter s" "pg_page_size (db_tree s') = ps"
    "page_limit (db_tree s') \<le> next_page_id (repaired rs m1) + 106 * length rs" "wl_current_lsn (db_wal s') = last_lsn_of rs + 1"
proof -
  let ?m = "repaired rs m1"
  let ?E = "\<lparr>env_page_size = ps, env_capacity = bp_capacity_pages (db_tree s), env_evicting = False,
      env_durable = pg_durable (db_tree s), env_checkpoint_lsn = last_checkpoint_lsn ?m\<rparr>"
  let ?s0 = "s\<lparr>db_tree := (db_tree s)\<lparr>bp_eviction_enabled := False\<rparr>\<rparr>"
  have ev: "bp_eviction_enabled (db_tree s)" using t by (simp add: fresh_store_def)
  obtain d where rep: "repair_pager_meta_from_wal_checkpoint ?s0 =
    (Inr (), ?s0\<lparr>db_tree := (db_tree ?s0)\<lparr>pg_meta := Some ?m, pg_is_meta_dirty := d\<rparr>\<rparr>)"
    by (rule repair_ok [of ?s0 rs z m1]) (use t w in \<open>simp_all add: fresh_store_def\<close>)
  let ?t = "(db_tree s)\<lparr>bp_eviction_enabled := False, pg_meta := Some ?m, pg_is_meta_dirty := d\<rparr>"
  let ?s1 = "s\<lparr>db_tree := ?t, db_recovery_last_checkpoint_lsn := last_checkpoint_lsn ?m\<rparr>"
  have holds: "tree_holds ?E h (contents T) 0 (db_tree ?s1)" using image_tree [OF t T(4,2,1,3)] by simp
  obtain h' t' w' where r: "db_replay ?s1 = (Inr (), ?s1\<lparr>db_tree := t', db_wal := w'\<rparr>)" "wal_state rs w'"
    "tree_holds ?E h' (replayed (db_recovery_last_checkpoint_lsn ?s1) rs (contents T)) 0 t'" "lsns_fit t'"
    "page_limit t' \<le> page_limit (db_tree ?s1) + 2 * (51 + 2) * length rs"
    by (rule db_replay_ok [OF _ _ w(3,4) holds, where N = 51])
      (use t w rs T(6) in \<open>simp_all add: fresh_store_def lsns_fit_def\<close>)
  let ?E2 = "?E\<lparr>env_evicting := True\<rparr>"
  let ?s2 = "s\<lparr>db_recovery_last_checkpoint_lsn := last_checkpoint_lsn ?m, db_wal := w', db_tree := t'\<lparr>bp_eviction_enabled := True\<rparr>\<rparr>"
  have live: "db_live ?E2 h' m rs ?s2"
    using tree_holds_evicting [OF r(3), of True] r(2,4) T(7) by (simp add: db_live_def lsns_fit_def)
  have N: "N \<le> 48" using conf by (simp add: config_ok_def)
  have lim: "page_limit (db_tree ?s2) \<le> 2 ^ 62" using r(5) T(5) rs(2) by (simp add: page_limit_def)
  obtain t3 w3 b3 rc where c: "db_checkpoint ?s2 = (Inr (), ?s2\<lparr>db_tree := t3, db_wal := w3\<rparr>)"
    "db_live (?E2\<lparr>env_durable := Some b3, env_checkpoint_lsn := last_lsn_of rs + 1\<rparr>) h' m [rc] (?s2\<lparr>db_tree := t3, db_wal := w3\<rparr>)"
    "recovers (page_limit t3) (env_page_size ?E2) b3 [rc] m" "dirty_count t3 = 0" "page_limit t3 = page_limit (db_tree ?s2)"
    "lsn rc = last_lsn_of rs + 1" "is_WALCheckpointRecord rc" "pg_disk t3 = Some b3"
    by (rule db_checkpoint_ok [OF live lim rs(3) card_le_pow [OF N rs(4)]]) blast
  let ?s3 = "?s2\<lparr>db_tree := t3, db_wal := w3\<rparr>"
  have run: "db_recover s = (Inr (), ?s3)"
    using ev rep r(1) t c(1)
    by (simp add: db_recover_def db_eviction_disabled_def finally_op_def bind_op_Inr get_meta_def require_meta_def op_simps)
  have good: "record_good ps rc" using c(7) by (cases rc) simp_all
  have "db_ok N (?E2\<lparr>env_durable := Some b3, env_checkpoint_lsn := last_lsn_of rs + 1\<rparr>) h' m [rc] (?s3\<lparr>db_is_opened := True\<rparr>)"
    using c(2,3,8) good rs(4) conf by (simp add: db_ok_def db_live_def db_config_def file_bytes_def)
  moreover have "settled E (?s3\<lparr>db_is_opened := True\<rparr>)" for E
    using c(2,4,7) checkpoint_log_size [of rc w3] by (simp add: settled_def db_live_def split: prod.split)
  ultimately have "db_holds N m (?s3\<lparr>db_is_opened := True\<rparr>)" unfolding db_holds_def by auto
  moreover have "wal_state [rc] w3" "tree_holds (?E2\<lparr>env_durable := Some b3, env_checkpoint_lsn := last_lsn_of rs + 1\<rparr>) h' m 0 t3"
    using c(2) by (simp_all add: db_live_def)
  ultimately show thesis using that [OF run] r(5) c(5,6) wal_stateD(4) [of "[rc]" w3] tree_holds_meta(3) [of _ h' m 0 t3]
    by (simp add: last_lsn_of_def page_limit_def)
qed

section \<open>Bytes after the pages in use\<close>

text \<open>
  A crash may leave the file longer than what was synced, because pages are appended before a checkpoint
  makes them part of the database. The additional bytes do not matter.
\<close>

lemma disk_page_extend: "disk_page ps b p = Some d \<Longrightarrow> 0 < ps \<Longrightarrow> disk_page ps (b @ x) p = Some d"
  by (auto simp: disk_page_Some)

lemma image_ok_extend:
  assumes "image_ok ps V m b"
  shows "image_ok ps V m (b @ x)"
proof -
  from assms obtain chain where inv: "pager_inv (image_state ps m b) m chain" and dom: "dom V \<subseteq> {0<..<next_page_id m}"
    "dom V \<inter> set (fl_ids chain) = {}" and vis: "\<And>p y. V p = Some y \<Longrightarrow> map_option strip (disk_node (image_state ps m b) p) = Some y"
    by (auto simp: image_ok_def)
  let ?i = "image_state ps m b" and ?j = "image_state ps m (b @ x)"
  have i: "file_bytes ?i = b" "file_bytes ?j = b @ x" "pg_page_size ?i = ps" "pg_page_size ?j = ps" "pg_freelist_cache ?i = Map.empty"
    "pg_freelist_cache ?j = Map.empty" "pg_dirty_freelist_page_ids ?j = {}" "pg_open ?j" "pg_meta ?j = Some m"
    by (simp_all add: image_state_def file_bytes_def)
  have ps: "0 < ps" using inv i by (simp add: pager_inv_def MIN_PAGE_SIZE_def)
  note grow = disk_page_extend [OF _ ps, of b _ _ x]
  have fl: "fl_page ?j p = Some f" if "fl_page ?i p = Some f" for p f
    using that i grow [of p] by (auto simp: fl_page_def disk_freelist_def split: option.splits)
  have "fl_chain (fl_page ?j) h c" if "fl_chain (fl_page ?i) h c" for h c
    using that by (induction "fl_page ?i" h c rule: fl_chain.induct) (auto intro: fl)
  then have "pager_inv ?j m chain" using inv i by (simp add: pager_inv_def)
  moreover have "map_option strip (disk_node ?j p) = Some y" if "V p = Some y" for p y
    using vis [OF that] i grow [of p] by (auto simp: disk_node_def split: option.splits)
  ultimately show ?thesis using dom unfolding image_ok_def by blast
qed

lemma recovers_extend:
  assumes "recovers L ps b rs m"
  shows "recovers L ps (b @ x) rs m"
proof -
  from assms obtain T h m1 where *: "129 \<le> ps" "tree_fine ps h T" "disk_page ps b META_PAGE_ID = Some (meta_bytes m1)" "meta_ok m1"
     "root_page_id (repaired rs m1) = pid T" "image_ok ps (map_of (pages T)) (repaired rs m1) b"
     "next_page_id (repaired rs m1) \<le> L" "card (dom (contents T)) \<le> 2 ^ 50" "last_checkpoint_lsn (repaired rs m1) \<le> last_lsn_of rs"
     "replayed (last_checkpoint_lsn (repaired rs m1)) rs (contents T) = m" by (auto simp: recovers_def)
  from disk_page_extend [OF *(3), of x] image_ok_extend [OF *(6), of x] * show ?thesis
    unfolding recovers_def by (intro exI [of _ T] exI [of _ h] exI [of _ m1]) simp
qed

section \<open>Opening an existing database\<close>

text \<open>Opening existing files up to the recovery.\<close>

lemma db_open_start:
  assumes init: "DB_init (Some b) (Some l) temp ps0 cap wl ratio = Inr s0"
    and m1: "disk_page (page_size_bytes m1) b META_PAGE_ID = Some (meta_bytes m1)" "meta_ok m1"
  obtains s where "db_open s0 = bind_op (on_error db_recover (bind_op (on_wal wal_close) (\<lambda>_. on_tree pager_close)))
      (\<lambda>_. modify_op (\<lambda>s. s\<lparr>db_is_opened := True\<rparr>)) s"
    "fresh_store (page_size_bytes m1) b m1 (db_tree s)" "wl_open (db_wal s)" "wl_file (db_wal s) = Some l"
    "bp_capacity_pages (db_tree s) = cap" "db_checkpoint_wal_size_bytes s = wl" "db_checkpoint_dirty_page_ratio s = ratio"
    "db_version_counter s = 0" "\<not> db_is_opened s" "\<not> pg_is_meta_dirty (db_tree s)"
proof -
  from init have s0: "52 \<le> ps0" "s0 = \<lparr>db_tree = BPlusTree_init (BufferPool_init \<lparr>pg_disk = Some b, pg_durable = Some b, pg_open = False,
                pg_page_size = ps0, pg_meta = None, pg_is_meta_dirty = False, pg_freelist_cache = Map.empty,
                pg_dirty_freelist_page_ids = {}, pg_stats = fresh_pager_stats\<rparr> cap),
          db_wal = WAL_init (Some l) temp, db_page_size_bytes = ps0,
          db_checkpoint_wal_size_bytes = wl, db_checkpoint_dirty_page_ratio = ratio,
          db_is_opened = False, db_version_counter = 0, db_recovery_last_checkpoint_lsn = 0\<rparr>"
    by (auto simp: DB_init_def Pager_init_def bind_r_def MIN_PAGE_SIZE_def split: if_splits)
  let ?t = "db_tree s0"
  have t0: "pg_disk ?t = Some b" "\<not> pg_open ?t" "52 \<le> pg_page_size ?t" "bp_capacity_pages ?t = cap" "bp_eviction_enabled ?t"
    "bp_cache ?t = []" "pg_freelist_cache ?t = Map.empty" "pg_dirty_freelist_page_ids ?t = {}" "\<not> pg_is_meta_dirty ?t"
    using s0 by (simp_all add: BPlusTree_init_def BufferPool_init_def buffer_pool.defs pager.defs)
  from open_file [OF m1 t0(1-3)] obtain t st where
    t: "pager_open ?t = (Inr (), t)" "t = ?t\<lparr>pg_open := True, pg_stats := st, pg_meta := Some m1, pg_page_size := page_size_bytes m1\<rparr>" by blast
  let ?w = "(db_wal s0)\<lparr>wl_temp := None, wl_current_lsn := 0, wl_open := True\<rparr>"
  have w: "wal_open (db_wal s0) = (Inr (), ?w)" "wl_open ?w" "wl_file ?w = Some l"
    using s0(2) by (simp_all add: wal_open_def WAL_init_def wal_bytes_of_def)
  show thesis
    by (rule that [of "s0\<lparr>db_tree := t, db_wal := ?w\<rparr>"]) (use t w t0 s0(2) in \<open>simp_all add: db_open_def fresh_store_def\<close>)
qed

lemma db_open_ok:
  assumes rec: "recoverable L N ps b rs m" and z: "ignored_tail z"
    and init: "DB_init (Some b) (Some (log_bytes rs @ z)) temp ps0 cap wl ratio = Inr s0" and conf: "config_ok N cap wl ratio"
  obtains s where "db_open s0 = (Inr (), s)" "db_holds N m s" "db_version_counter s = 0" "pg_page_size (db_tree s) = ps"
    "page_limit (db_tree s) \<le> L + 106 * length rs" "wl_current_lsn (db_wal s) = last_lsn_of rs + 1"
proof -
  from rec obtain T h m1 where *: "129 \<le> ps" "tree_fine ps h T" "disk_page ps b META_PAGE_ID = Some (meta_bytes m1)" "meta_ok m1"
     "root_page_id (repaired rs m1) = pid T" "image_ok ps (map_of (pages T)) (repaired rs m1) b"
     "next_page_id (repaired rs m1) \<le> L" "card (dom (contents T)) \<le> 2 ^ 50"
     "replayed (last_checkpoint_lsn (repaired rs m1)) rs (contents T) = m" by (auto simp: recoverable_def recovers_def)
  have L: "next_page_id (repaired rs m1) \<le> 2 ^ 61" using *(7) rec by (simp add: recoverable_def)
  have "page_size_bytes (repaired rs m1) = ps" using *(6) by (auto simp: image_ok_def pager_inv_def image_state_def)
  then have ps: "page_size_bytes m1 = ps" by (simp add: repaired_def split: option.splits if_splits)
  obtain s where s: "db_open s0 = bind_op (on_error db_recover (bind_op (on_wal wal_close) (\<lambda>_. on_tree pager_close)))
      (\<lambda>_. modify_op (\<lambda>s. s\<lparr>db_is_opened := True\<rparr>)) s"
    "fresh_store (page_size_bytes m1) b m1 (db_tree s)" "wl_open (db_wal s)" "wl_file (db_wal s) = Some (log_bytes rs @ z)"
    "bp_capacity_pages (db_tree s) = cap" "db_checkpoint_wal_size_bytes s = wl" "db_checkpoint_dirty_page_ratio s = ratio" "db_version_counter s = 0"
    by (rule db_open_start [OF init *(3) [folded ps] *(4)]) blast
  obtain s' where s': "db_recover s = (Inr (), s')" "db_holds N m (s'\<lparr>db_is_opened := True\<rparr>)" "db_version_counter s' = db_version_counter s"
    "pg_page_size (db_tree s') = ps" "page_limit (db_tree s') \<le> next_page_id (repaired rs m1) + 106 * length rs"
    "wl_current_lsn (db_wal s') = last_lsn_of rs + 1"
    by (rule db_recover_ok [OF *(1,2,5,6) L *(8,9) s(2) [unfolded ps] s(3,4), of N]) (use z rec conf s in \<open>simp_all add: recoverable_def\<close>)
  have "db_open s0 = (Inr (), s'\<lparr>db_is_opened := True\<rparr>)" unfolding s(1) using s'(1) by (simp add: on_error_def bind_op_Inr)
  with s'(2-6) s(8) *(7) show thesis using that by simp
qed

lemma newest_loop_error: "for_fold newer_checkpoint acc (rs, Inl e) = raise e"
  by (induction rs arbitrary: acc) (auto simp: newer_checkpoint_def bind_op_def fun_eq_iff)

text \<open>Closing the files when nothing is left to be written.\<close>

lemma wal_close_ok: "wl_open w \<Longrightarrow> \<exists>w'. wal_close w = (Inr (), w') \<and> \<not> wl_open w' \<and> wl_file w' = wl_file w \<and> wl_durable w' = wl_file w"
  by (simp add: wal_close_def)

lemma pager_close_clean:
  assumes "pg_open t" and "pg_dirty_freelist_page_ids t = {}" and "\<not> pg_is_meta_dirty t"
  shows "\<exists>t'. pager_close t = (Inr (), t') \<and> \<not> pg_open t' \<and> pg_disk t' = pg_disk t \<and> pg_durable t' = pg_disk t \<and> pager.more t' = pager.more t"
  using assms by (simp add: pager_close_def bind_op_Inr [OF fsync_ok] bind_op_assoc)

text \<open>A log that the reader refuses makes \<^verbatim>\<open>open\<close> raise; both files are closed and left as they were.\<close>

lemma db_open_refuses:
  assumes init: "DB_init (Some b) (Some l) temp ps0 cap wl ratio = Inr s0"
    and m1: "disk_page (page_size_bytes m1) b META_PAGE_ID = Some (meta_bytes m1)" "meta_ok m1"
    and bad: "\<And>w. wl_open w \<Longrightarrow> wl_file w = Some l \<Longrightarrow> peek_records w = (Inr (rs, Inl e), w)"
  shows "\<exists>s. db_open s0 = (Inl e, s) \<and> \<not> db_is_opened s \<and> \<not> pg_open (db_tree s) \<and> \<not> wl_open (db_wal s) \<and>
     pg_disk (db_tree s) = Some b \<and> wl_file (db_wal s) = Some l"
proof -
  obtain s where s: "db_open s0 = bind_op (on_error db_recover (bind_op (on_wal wal_close) (\<lambda>_. on_tree pager_close)))
      (\<lambda>_. modify_op (\<lambda>s. s\<lparr>db_is_opened := True\<rparr>)) s"
    "fresh_store (page_size_bytes m1) b m1 (db_tree s)" "wl_open (db_wal s)" "wl_file (db_wal s) = Some l"
    "\<not> db_is_opened s" "\<not> pg_is_meta_dirty (db_tree s)"
    by (rule db_open_start [OF init m1]) blast
  let ?s = "s\<lparr>db_tree := (db_tree s)\<lparr>bp_eviction_enabled := False\<rparr>\<rparr>"
  have "repair_pager_meta_from_wal_checkpoint ?s = (Inl e, ?s)"
    using s(2) bad [OF s(3,4)]
    by (simp add: repair_pager_meta_from_wal_checkpoint_def get_meta_def require_meta_def op_simps newest_loop_error fresh_store_def)
  then have fail: "db_recover s = (Inl e, s)"
    using s(2) by (simp add: db_recover_def db_eviction_disabled_def finally_op_def bind_op_Inl fresh_store_def)
  from wal_close_ok [OF s(3)] s(4) obtain w where w: "wal_close (db_wal s) = (Inr (), w)" "\<not> wl_open w" "wl_file w = Some l" by auto
  from pager_close_clean [of "db_tree s"] s(2,6) obtain t where
    t: "pager_close (db_tree s) = (Inr (), t)" "\<not> pg_open t" "pg_disk t = Some b" by (auto simp: fresh_store_def)
  have "on_error db_recover (bind_op (on_wal wal_close) (\<lambda>_. on_tree pager_close)) s = (Inl e, s\<lparr>db_wal := w, db_tree := t\<rparr>)"
    using fail w(1) t(1) by (simp add: on_error_def)
  then show ?thesis unfolding s(1) using w(2,3) t(2,3) s(5) by (simp add: bind_op_Inl)
qed

section \<open>A new database\<close>

lemma db_create_ok:
  assumes init: "DB_init None None temp ps cap wl ratio = Inr s0" and ps: "129 \<le> ps" "ps < 256 ^ 4" and conf: "config_ok N cap wl ratio"
  obtains s where "db_open s0 = (Inr (), s)" "db_holds N Map.empty s" "db_version_counter s = 0" "pg_page_size (db_tree s) = ps"
    "headroom (2 ^ 50) N s"
proof -
  from init obtain p where p: "Pager_init None ps = Inr p" "s0 = \<lparr>db_tree = BPlusTree_init (BufferPool_init p cap),
          db_wal = WAL_init None temp, db_page_size_bytes = ps,
          db_checkpoint_wal_size_bytes = wl, db_checkpoint_dirty_page_ratio = ratio,
          db_is_opened = False, db_version_counter = 0, db_recovery_last_checkpoint_lsn = 0\<rparr>"
    by (auto simp: DB_init_def bind_r_def split: sum.splits)
  let ?t = "db_tree s0"
  have "pager.truncate ?t = p" using p(2) by (simp add: BPlusTree_init_def BufferPool_init_def buffer_pool.defs pager.defs)
  with p(1) have pinit: "Pager_init None ps = Inr (pager.truncate ?t)" by simp
  have t0: "bp_capacity_pages ?t = cap" "bp_eviction_enabled ?t" "bp_cache ?t = []"
    using p(2) by (simp_all add: BPlusTree_init_def BufferPool_init_def buffer_pool.defs pager.defs)
  from pager_bootstrap_ok [OF pinit ps(2)] obtain t m where t: "pager_open ?t = (Inr (), t)" "pager_inv t m []"
    "m = \<lparr>page_size_bytes = ps, root_page_id = 1, next_page_id = 2, freelist_head_page_id = 0, last_checkpoint_lsn = 0\<rparr>"
    "pg_page_size t = ps" "pager.more t = pager.more ?t" "disk_page ps (file_bytes t) 1 = Some (node_bytes (LeafPage 0 0 []) ps)" by blast
  note mp = more_pool [OF t(5)]
  obtain b where b: "pg_disk t = Some b" using t(2) ps(1) by (cases "pg_disk t") (auto simp: pager_inv_def file_bytes_def)
  have fresh: "fresh_store ps b m t"
    using t(2,4) b t0 mp by (auto simp: fresh_store_def pager_inv_def)
  have fine: "tree_fine ps 0 (Lf 1 0 [])" using empty_tree_ok [of ps 1] ps(1) by (simp add: tree_fine_def keys_short_def)
  have "node_fits ps (LeafPage 0 0 [])" using ps by (simp add: node_fits_def calculate_page_size_sum)
  from decode_node_ok [OF this] t(4,6) have dn: "disk_node t 1 = Some (LeafPage 0 0 [])"
    by (simp add: disk_node_def del: node_bytes.simps)
  have "image_ok (pg_page_size t) (map_of (pages (Lf 1 0 []))) m (file_bytes t)"
    by (rule image_of_state [OF t(2)]) (use t(3) fresh dn in \<open>auto simp: fresh_store_def split: if_splits\<close>)
  then have img: "image_ok ps (map_of (pages (Lf 1 0 []))) (repaired [] m) b"
    using t(4) b by (simp add: file_bytes_def repaired_def newest_checkpoint_def)
  let ?w = "(db_wal s0)\<lparr>wl_temp := None, wl_current_lsn := 0, wl_file := Some [], wl_open := True, wl_durable := Some []\<rparr>"
  have w: "wal_open (db_wal s0) = (Inr (), ?w)"
    using p(2) by (simp add: wal_open_def WAL_init_def wal_bytes_of_def)
  let ?s = "s0\<lparr>db_tree := t, db_wal := ?w\<rparr>"
  have rep: "repaired [] m = m" by (simp add: repaired_def newest_checkpoint_def)
  obtain s' where s': "db_recover ?s = (Inr (), s')" "db_holds N Map.empty (s'\<lparr>db_is_opened := True\<rparr>)"
    "db_version_counter s' = db_version_counter ?s" "pg_page_size (db_tree s') = ps"
    "page_limit (db_tree s') \<le> next_page_id (repaired [] m) + 106 * length ([] :: wal_record list)" "wl_current_lsn (db_wal s') = last_lsn_of [] + 1"
    by (rule db_recover_ok [OF ps(1) fine _ img, where m = Map.empty and z = "[]" and s = ?s and N = N])
      (use fresh rep t(3) conf p(2) t0 mp in \<open>simp_all add: contents_def\<close>)
  have "db_open s0 = (Inr (), s'\<lparr>db_is_opened := True\<rparr>)"
    using t(1) w s'(1) by (simp add: db_open_def on_error_def bind_op_def [of "on_error _ _"])
  moreover have "headroom (2 ^ 50) N (s'\<lparr>db_is_opened := True\<rparr>)"
    using s'(5,6) rep t(3) conf by (simp add: headroom_def config_ok_def)
  ultimately show thesis using that s'(2-4) p(2) by simp
qed


section \<open>What is durable recovers\<close>

lemma db_holds_recoverable:
  assumes "db_holds N m s" and "headroom n N s"
  obtains b rs where "pg_durable (db_tree s) = Some b" "wl_durable (db_wal s) = Some (log_bytes rs)"
    "wl_current_lsn (db_wal s) = last_lsn_of rs" "recoverable (page_limit (db_tree s)) N (pg_page_size (db_tree s)) b rs m"
    "length rs \<le> 2 ^ 50" "\<exists>x. file_bytes (db_tree s) = b @ x"
proof -
  from assms(1) obtain E h rs b x where ok: "db_ok N E h m rs s" "env_durable E = Some b" "recovers (page_limit (db_tree s)) (env_page_size E) b rs m"
    "file_bytes (db_tree s) = b @ x" by (auto simp: db_holds_def db_ok_def)
  have th: "tree_holds E h m 0 (db_tree s)" and ws: "wal_state rs (db_wal s)" using ok(1) by (simp_all add: db_ok_def db_live_def)
  note meta = tree_holds_meta [OF th]
  have "recoverable (page_limit (db_tree s)) N (pg_page_size (db_tree s)) b rs m"
    using ok(1,3) meta(3) wal_stateD(4,5) [OF ws] assms(2) by (simp add: recoverable_def db_ok_def headroom_def)
  moreover have "length rs \<le> 2 ^ 50" using ok(1) by (simp add: db_ok_def)
  ultimately show thesis using that [of b rs] ok(2,4) meta(4) wal_stateD [OF ws] by simp
qed

lemma recoverable_extend: "recoverable L N ps b rs m \<Longrightarrow> recoverable L N ps (b @ x) rs m"
  by (simp add: recoverable_def recovers_extend)

lemma recoverable_append:
  assumes "recoverable L N ps b rs m" and "lsn r = last_lsn_of rs + 1" and "\<not> is_WALCheckpointRecord r"
    and "wal_ok r" and "record_good ps r" and "length rs \<le> 2 ^ 50" and "lsn r + 1 < 2 ^ 64" and "card (dom (apply_record r m)) < 2 ^ Suc N"
  shows "recoverable L N ps b (rs @ [r]) (apply_record r m)"
  using assms recovers_append [of L ps b rs m r] by (auto simp: recoverable_def chained_append)

end
