(* ===== verification/Store.thy ===== *)
theory Store
  imports Recovery
begin

text \<open>
  The database as a key/value store: scans at the level of the facade, the contract of a store as a locale
  (\<open>key_value_store\<close>), a client that performs a sequence of requests and its refinement by the same sequence on
  a map (\<open>run_refines\<close>), and the database as an instance (\<open>db_store\<close>).
\<close>

section \<open>Scans\<close>

text \<open>A consumer that takes at most \<open>k\<close> pairs from the iterator.\<close>

fun db_scan_take :: "nat \<Rightarrow> scan_iter \<Rightarrow> (db, (bytes \<times> bytes) list) op" where
  "db_scan_take 0 it = ret []"
| "db_scan_take (Suc k) it =
     bind_op (db_scan_next it) (\<lambda>(item, it').
     case item of None \<Rightarrow> ret [] | Some pair \<Rightarrow> bind_op (db_scan_take k it') (\<lambda>pairs. ret (pair # pairs)))"

lemma db_scan_take_tree:
  "db_scan_take k (ScanIter a b v c) s =
     (case scan_take k a b (check_version v (db_version_counter s)) c (db_tree s) of (r, t) \<Rightarrow> (r, s\<lparr>db_tree := t\<rparr>))"
proof (induction k arbitrary: c s)
  case (Suc k)
  let ?chk = "check_version v (db_version_counter s)"
  obtain r t where n: "scan_next a b ?chk c (db_tree s) = (r, t)" by fastforce
  show ?case
  proof (cases r)
    case (Inr x)
    obtain item c' where x: "x = (item, c')" by fastforce
    have "db_scan_next (ScanIter a b v c) s = (Inr (item, ScanIter a b v c'), s\<lparr>db_tree := t\<rparr>)"
      using n Inr x by (simp add: db_scan_next_def)
    then show ?thesis using n Inr x Suc [of c' "s\<lparr>db_tree := t\<rparr>"]
      by (cases item) (simp_all add: bind_op_def split: prod.split sum.split)
  qed (use n in \<open>simp add: db_scan_next_def bind_op_def [of "scan_next _ _ _ _"]  bind_op_def [of "bind_op _ _"] \<close>)
qed simp

lemma check_version_same: "check_version v v = ret ()"
  by (simp add: check_version_def)


lemma grows_scan_take: "grows 0 (scan_take n a b (ret ()) cursor)"
proof -
  have scan: "grows 0 (scan_from fuel b (ret ()) page i)" for fuel page i
    by (induction fuel arbitrary: page i) (case_tac page; simp; intro grows_rules conjI impI grows_bind0; assumption?)+
  have scan_step: "grows 0 (scan_next a b (ret ()) cursor)" for cursor unfolding scan_next_def
    by (cases cursor) (simp_all, (intro grows_rules grows_bind0 scan)+)
  show ?thesis
    by (induction n arbitrary: cursor) (simp_all, (intro grows_rules grows_bind0 scan_step; assumption?)+)
qed

lemma db_scan_ok:
  assumes holds: "db_holds N m s"
  shows "db_scan (map_option PyBytes a) (map_option PyBytes b) s = (Inr (ScanIter a b (db_version_counter s) ScanStart), s)"
    and "\<exists>s'. db_scan_take k (ScanIter a b (db_version_counter s) ScanStart) s = (Inr (take k (map_range m a b)), s') \<and>
      db_holds N m s' \<and> step_bound N s s' \<and> db_version_counter s' = db_version_counter s"
proof -
  obtain E h rs where ok: "db_ok N E h m rs s" "settled E s" "db_is_opened s" "tree_holds E h m (Suc h) (db_tree s)"
    by (rule db_holds_descend [OF holds])
  show "db_scan (map_option PyBytes a) (map_option PyBytes b) s = (Inr (ScanIter a b (db_version_counter s) ScanStart), s)"
    using ok(3) by (cases a; cases b) (simp_all add: db_scan_def ensure_bound_def bind_op_assoc)
  from scan_take_holds [OF ok(4), of k a b] obtain t where
    t: "scan_take k a b (ret ()) ScanStart (db_tree s) = (Inr (take k (map_range m a b)), t)" "tree_holds E h m (Suc h) t" by auto
  note r = db_read [OF ok(1-3) t lsns_keep_search(3) dirty_keep_search(3) grows_scan_take]
  show "\<exists>s'. db_scan_take k (ScanIter a b (db_version_counter s) ScanStart) s = (Inr (take k (map_range m a b)), s') \<and>
      db_holds N m s' \<and> step_bound N s s' \<and> db_version_counter s' = db_version_counter s"
    using t(1) r by (simp add: db_scan_take_tree check_version_same step_bound_def)
qed

section \<open>The contract of a key/value store\<close>

text \<open>Requests of a client, their replies, and what they mean on a map. A scan takes at most \<open>k\<close> pairs.\<close>

datatype request = Put bytes bytes | Get bytes | Delete bytes | Scan "bytes option" "bytes option" nat

datatype reply = Stored | Found "bytes option" | Removed bool | Pairs "(bytes \<times> bytes) list"

fun spec_step :: "request \<Rightarrow> (bytes \<rightharpoonup> bytes) \<Rightarrow> reply \<times> (bytes \<rightharpoonup> bytes)" where
  "spec_step (Put key val) m = (Stored, m(key \<mapsto> val))"
| "spec_step (Get key) m = (Found (m key), m)"
| "spec_step (Delete key) m = (Removed (m key \<noteq> None), m(key := None))"
| "spec_step (Scan a b k) m = (Pairs (take k (map_range m a b)), m)"

fun spec_run :: "request list \<Rightarrow> (bytes \<rightharpoonup> bytes) \<Rightarrow> reply list \<times> (bytes \<rightharpoonup> bytes)" where
  "spec_run [] m = ([], m)"
| "spec_run (q # qs) m = (case spec_step q m of (a, m1) \<Rightarrow> case spec_run qs m1 of (as, m2) \<Rightarrow> (a # as, m2))"

text \<open>A client that performs its requests one after the other on the operations of a store.\<close>

fun perform ::
  "(bytes \<Rightarrow> bytes \<Rightarrow> ('s, unit) op) \<Rightarrow> (bytes \<Rightarrow> ('s, bytes option) op) \<Rightarrow> (bytes \<Rightarrow> ('s, bool) op) \<Rightarrow>
   (bytes option \<Rightarrow> bytes option \<Rightarrow> nat \<Rightarrow> ('s, (bytes \<times> bytes) list) op) \<Rightarrow> request \<Rightarrow> ('s, reply) op" where
  "perform put get del scan (Put key val) = bind_op (put key val) (\<lambda>_. ret Stored)"
| "perform put get del scan (Get key) = bind_op (get key) (\<lambda>v. ret (Found v))"
| "perform put get del scan (Delete key) = bind_op (del key) (\<lambda>d. ret (Removed d))"
| "perform put get del scan (Scan a b k) = bind_op (scan a b k) (\<lambda>ps. ret (Pairs ps))"

fun run_all :: "('q \<Rightarrow> ('s, 'r) op) \<Rightarrow> 'q list \<Rightarrow> ('s, 'r list) op" where
  "run_all f [] = ret []"
| "run_all f (q # qs) = bind_op (f q) (\<lambda>a. bind_op (run_all f qs) (\<lambda>as. ret (a # as)))"

text \<open>Every \<^verbatim>\<open>put\<close> of the sequence is allowed in the state it meets.\<close>

fun puts_allowed :: "(bytes \<Rightarrow> bytes \<Rightarrow> (bytes \<rightharpoonup> bytes) \<Rightarrow> bool) \<Rightarrow> request list \<Rightarrow> (bytes \<rightharpoonup> bytes) \<Rightarrow> bool" where
  "puts_allowed ok [] m \<longleftrightarrow> True"
| "puts_allowed ok (q # qs) m \<longleftrightarrow>
     (case q of Put key val \<Rightarrow> ok key val m | _ \<Rightarrow> True) \<and> puts_allowed ok qs (snd (spec_step q m))"

text \<open>
  The contract: \<open>holds n m s\<close> says that the state \<open>s\<close> stores the map \<open>m\<close> and has room for \<open>n\<close> operations
  more.
\<close>

locale key_value_store =
  fixes holds :: "nat \<Rightarrow> (bytes \<rightharpoonup> bytes) \<Rightarrow> 's \<Rightarrow> bool"
    and allowed :: "bytes \<Rightarrow> bytes \<Rightarrow> (bytes \<rightharpoonup> bytes) \<Rightarrow> bool"
    and put :: "bytes \<Rightarrow> bytes \<Rightarrow> ('s, unit) op" and get :: "bytes \<Rightarrow> ('s, bytes option) op" and del :: "bytes \<Rightarrow> ('s, bool) op"
    and scan :: "bytes option \<Rightarrow> bytes option \<Rightarrow> nat \<Rightarrow> ('s, (bytes \<times> bytes) list) op"
  assumes put: "holds (Suc n) m s \<Longrightarrow> allowed key val m \<Longrightarrow> \<exists>s'. put key val s = (Inr (), s') \<and> holds n (m(key \<mapsto> val)) s'"
    and get: "holds (Suc n) m s \<Longrightarrow> \<exists>s'. get key s = (Inr (m key), s') \<and> holds n m s'"
    and del: "holds (Suc n) m s \<Longrightarrow> \<exists>s'. del key s = (Inr (m key \<noteq> None), s') \<and> holds n (m(key := None)) s'"
    and scan: "holds (Suc n) m s \<Longrightarrow> \<exists>s'. scan a b k s = (Inr (take k (map_range m a b)), s') \<and> holds n m s'"
begin

lemma perform_refines:
  assumes "holds (Suc n) m s" and "case q of Put key val \<Rightarrow> allowed key val m | _ \<Rightarrow> True"
  shows "\<exists>s'. perform put get del scan q s = (Inr (fst (spec_step q m)), s') \<and> holds n (snd (spec_step q m)) s'"
proof (cases q)
  case (Put key val)
  then show ?thesis using put [OF assms(1), of key val] assms(2) by (auto simp: bind_op_Inr)
next
  case (Get key)
  then show ?thesis using get [OF assms(1), of key] by (auto simp: bind_op_Inr)
next
  case (Delete key)
  then show ?thesis using del [OF assms(1), of key] by (auto simp: bind_op_Inr)
next
  case (Scan a b k)
  then show ?thesis using scan [OF assms(1), of a b k] by (auto simp: bind_op_Inr)
qed

lemma run_refines:
  assumes "holds (length qs + n) m s" and "puts_allowed allowed qs m"
  shows "\<exists>s'. run_all (perform put get del scan) qs s = (Inr (fst (spec_run qs m)), s') \<and> holds n (snd (spec_run qs m)) s'"
  using assms
proof (induction qs arbitrary: m s)
  case (Cons q qs)
  obtain a m1 where q: "spec_step q m = (a, m1)" by fastforce
  from perform_refines [of "length qs + n" m s q] Cons.prems q obtain s1 where
    s1: "perform put get del scan q s = (Inr a, s1)" "holds (length qs + n) m1 s1" by auto
  from Cons.IH [OF s1(2)] Cons.prems(2) q obtain s2 where
    "run_all (perform put get del scan) qs s1 = (Inr (fst (spec_run qs m1)), s2)" "holds n (snd (spec_run qs m1)) s2" by auto
  with s1(1) q show ?case by (auto simp: bind_op_Inr split: prod.split)
qed auto

end

section \<open>The database as a key/value store\<close>

text \<open>No request changes the configuration.\<close>

definition config_is :: "nat \<times> nat \<times> nat \<Rightarrow> db \<Rightarrow> bool" where
  "config_is c s \<longleftrightarrow> (db_checkpoint_wal_size_bytes s, db_checkpoint_dirty_page_ratio s) = c"

lemma config_kept_parts [keeps_rules]:
  "keeps (config_is c) (on_tree f)" "keeps (config_is c) (on_wal g)" "keeps (config_is c) bump_version"
  "keeps (config_is c) check_if_opened" "keeps (config_is c) (ensure_bytes_type v)"
  by (auto simp: keeps_def config_is_def on_tree_def on_wal_def bump_version_def check_if_opened_def ensure_bytes_type_def bind_op_def
      split: prod.split py_object.split)

lemma config_kept_calls [keeps_rules]:
  "keeps (config_is c) db_maybe_checkpoint" "keeps (config_is c) (db_scan_next it)"
  "keeps (config_is c) (ensure_bound b)"
  unfolding db_maybe_checkpoint_def db_checkpoint_def db_scan_next_def ensure_bound_def by (intro keeps_rules)+

lemma config_kept_take [keeps_rules]: "keeps (config_is c) (db_scan_take k it)"
proof (induction k arbitrary: it)
  case (Suc k)
  then show ?case unfolding db_scan_take.simps by (intro keeps_rules)
qed (simp add: keeps_rules)

definition db_request :: "request \<Rightarrow> (db, reply) op" where
  "db_request = perform (\<lambda>key val. db_put (PyBytes key) (PyBytes val)) (\<lambda>key. db_get (PyBytes key)) (\<lambda>key. db_delete (PyBytes key))
     (\<lambda>a b k. bind_op (db_scan (map_option PyBytes a) (map_option PyBytes b)) (db_scan_take k))"

lemma config_kept: "keeps (config_is c) (db_request q)"
  unfolding db_request_def db_put_def db_get_def db_delete_def db_scan_def by (cases q) (simp_all, (intro keeps_rules)+)

lemma config_kept_run: "keeps (config_is c) (run_all db_request qs)"
proof (induction qs)
  case (Cons q qs)
  then show ?case unfolding run_all.simps by (intro keeps_rules config_kept)
qed (simp add: keeps_def)

text \<open>The database of page size \<open>ps\<close> that has room for \<open>n\<close> operations and for fewer than \<open>2 ^ (N + 1)\<close> keys.\<close>

definition db_serves :: "nat \<Rightarrow> nat \<Rightarrow> nat \<Rightarrow> (bytes \<rightharpoonup> bytes) \<Rightarrow> db \<Rightarrow> bool" where
  "db_serves N ps n m s \<longleftrightarrow> db_holds N m s \<and> headroom n N s \<and> pg_page_size (db_tree s) = ps"

definition put_allowed :: "nat \<Rightarrow> nat \<Rightarrow> bytes \<Rightarrow> bytes \<Rightarrow> (bytes \<rightharpoonup> bytes) \<Rightarrow> bool" where
  "put_allowed N ps key val m \<longleftrightarrow> acceptable ps key val \<and> card (dom (m(key \<mapsto> val))) < 2 ^ Suc N"

lemma db_serves_step:
  "db_serves N ps (Suc n) m s \<Longrightarrow> db_holds N m' s' \<Longrightarrow> step_bound N s s' \<Longrightarrow> db_serves N ps n m' s'"
  using headroom_step [of n N s s'] by (simp add: db_serves_def step_bound_def)

interpretation db_store: key_value_store "db_serves N ps" "put_allowed N ps"
  "\<lambda>key val. db_put (PyBytes key) (PyBytes val)" "\<lambda>key. db_get (PyBytes key)" "\<lambda>key. db_delete (PyBytes key)"
  "\<lambda>a b k. bind_op (db_scan (map_option PyBytes a) (map_option PyBytes b)) (db_scan_take k)" for N ps
proof
  fix n m s
  assume s: "db_serves N ps (Suc n) m s"
  then have holds: "db_holds N m s" and room: "headroom 1 N s" and ps: "pg_page_size (db_tree s) = ps"
    by (simp_all add: db_serves_def headroom_def)
  note next_state = db_serves_step [OF s]
  show "\<exists>s'. db_put (PyBytes key) (PyBytes val) s = (Inr (), s') \<and> db_serves N ps n (m(key \<mapsto> val)) s'" if "put_allowed N ps key val m" for key val
    using db_put_ok [OF holds room, of key val] that ps next_state by (auto simp: put_allowed_def)
  show "\<exists>s'. db_get (PyBytes key) s = (Inr (m key), s') \<and> db_serves N ps n m s'" for key
    using db_get_ok [OF holds, of key] next_state by blast
  show "\<exists>s'. db_delete (PyBytes key) s = (Inr (m key \<noteq> None), s') \<and> db_serves N ps n (m(key := None)) s'" for key
    using db_delete_ok [OF holds room, of key] next_state by blast
  show "\<exists>s'. bind_op (db_scan (map_option PyBytes a) (map_option PyBytes b)) (db_scan_take k) s = (Inr (take k (map_range m a b)), s') \<and> db_serves N ps n m s'" for a b k
    using db_scan_ok(1) [OF holds, of a b] db_scan_ok(2) [OF holds, of k a b] next_state by (auto simp: bind_op_Inr)
qed

end
