(* ===== verification/Crash.thy ===== *)
theory Crash
  imports Store
begin

text \<open>
  What a crash leaves and what a new process makes of it (\<open>restart\<close>): a crash between two operations, in the
  middle of an append to the log, and in a checkpoint after its record; closing and opening again; and an
  example database for the witnesses.
\<close>

section \<open>Crashes\<close>

text \<open>
  A new process after a crash: of the data file, what the last \<^verbatim>\<open>fsync\<close> made durable is there, and possibly bytes
  that were appended since (\<open>x\<close>); of the log, what is durable and possibly part of an append (\<open>z\<close>). Any
  rotation file (\<open>temp\<close>) may be left over. The new object has the old configuration but for the page size.
\<close>

definition restart :: "nat \<Rightarrow> bytes \<Rightarrow> bytes \<Rightarrow> bytes option \<Rightarrow> db \<Rightarrow> db result" where
  "restart ps0 x z temp s = DB_init (map_option (\<lambda>b. b @ x) (pg_durable (db_tree s))) (map_option (\<lambda>l. l @ z) (wl_durable (db_wal s)))
     temp ps0 (bp_capacity_pages (db_tree s)) (db_checkpoint_wal_size_bytes s) (db_checkpoint_dirty_page_ratio s)"

lemma db_holds_config:
  assumes "db_holds N m s"
  shows "config_ok N (bp_capacity_pages (db_tree s)) (db_checkpoint_wal_size_bytes s) (db_checkpoint_dirty_page_ratio s)"
proof -
  from assms obtain E h rs where "db_config N E s" "tree_holds E h m 0 (db_tree s)" by (auto simp: db_holds_def db_ok_def db_live_def)
  then show ?thesis using tree_holds_meta(1) [of E h m 0 "db_tree s"] by (simp add: db_config_def)
qed

lemma restart_ok:
  assumes rec: "recoverable L N ps b rs m" and ps0: "MIN_PAGE_SIZE \<le> ps0"
    and s: "pg_durable (db_tree s) = Some b" "wl_durable (db_wal s) = Some l" "l @ z = log_bytes rs @ z'" "ignored_tail z'"
    and conf: "config_ok N (bp_capacity_pages (db_tree s)) (db_checkpoint_wal_size_bytes s) (db_checkpoint_dirty_page_ratio s)"
  shows "\<exists>s0 s'. restart ps0 x z temp s = Inr s0 \<and> db_open s0 = (Inr (), s') \<and> db_holds N m s'"
proof -
  obtain s0 where s0: "restart ps0 x z temp s = Inr s0" using ps0 by (simp add: restart_def DB_init_def Pager_init_def)
  then have init: "DB_init (Some (b @ x)) (Some (log_bytes rs @ z')) temp ps0 (bp_capacity_pages (db_tree s))
     (db_checkpoint_wal_size_bytes s) (db_checkpoint_dirty_page_ratio s) = Inr s0" using s by (simp add: restart_def)
  from db_open_ok [OF recoverable_extend [OF rec] s(4) init conf] s0 show ?thesis by metis
qed

lemma crash_ok:
  assumes holds: "db_holds N m s" and room: "headroom n N s" and z: "ignored_tail z" and ps0: "MIN_PAGE_SIZE \<le> ps0"
  shows "\<exists>s0 s'. restart ps0 x z temp s = Inr s0 \<and> db_open s0 = (Inr (), s') \<and> db_holds N m s'"
proof -
  obtain b rs where b: "pg_durable (db_tree s) = Some b" "wl_durable (db_wal s) = Some (log_bytes rs)"
    "recoverable (page_limit (db_tree s)) N (pg_page_size (db_tree s)) b rs m"
    by (rule db_holds_recoverable [OF holds room]) blast
  show ?thesis by (rule restart_ok [OF b(3) ps0 b(1,2) refl z db_holds_config [OF holds]])
qed

text \<open>A record whose append was cut short at any byte: it counts when all of it is there, and not otherwise.\<close>

lemma crash_in_append_ok:
  assumes holds: "db_holds N m s" and room: "headroom 1 N s" and ps0: "MIN_PAGE_SIZE \<le> ps0"
    and r: "lsn r = wl_current_lsn (db_wal s) + 1" "\<not> is_WALCheckpointRecord r" "wal_ok r" "record_good (pg_page_size (db_tree s)) r"
      "card (dom (apply_record r m)) < 2 ^ Suc N"
    and part: "wal_bytes r = part @ lost"
  shows "\<exists>s0 s'. restart ps0 x part temp s = Inr s0 \<and> db_open s0 = (Inr (), s') \<and>
     db_holds N (if lost = [] then apply_record r m else m) s'"
proof (cases "lost = []")
  case True
  obtain b rs where b: "pg_durable (db_tree s) = Some b" "wl_durable (db_wal s) = Some (log_bytes rs)"
    "wl_current_lsn (db_wal s) = last_lsn_of rs" "recoverable (page_limit (db_tree s)) N (pg_page_size (db_tree s)) b rs m" "length rs \<le> 2 ^ 50"
    by (rule db_holds_recoverable [OF holds room]) blast
  have "recoverable (page_limit (db_tree s)) N (pg_page_size (db_tree s)) b (rs @ [r]) (apply_record r m)"
    by (rule recoverable_append [OF b(4)]) (use r b(3,5) room in \<open>simp_all add: headroom_def\<close>)
  from restart_ok [OF this ps0 b(1,2), where z' = "[]"] True part db_holds_config [OF holds] show ?thesis by simp
next
  case False
  from crash_ok [OF holds room ignored_torn [OF r(3) part False] ps0] False show ?thesis by simp
qed

section \<open>Crashes inside a checkpoint\<close>

lemma newest_in: "newest_checkpoint rs = Some c \<Longrightarrow> c \<in> set rs"
  by (induction rs rule: rev_induct) (auto simp: newest_checkpoint_def newer_def split: if_splits)

lemma newest_append:
  assumes "\<forall>r \<in> set rs. lsn r < l"
  shows "newest_checkpoint (rs @ [checkpoint_of l m0]) = Some (checkpoint_of l m0)"
proof (cases "newest_checkpoint rs")
  case (Some c)
  with newest_in [OF Some] assms show ?thesis by (simp add: newest_checkpoint_def newer_def)
qed (simp add: newest_checkpoint_def newer_def)

lemma repaired_lsn: "last_checkpoint_lsn m \<le> last_checkpoint_lsn (repaired rs m)"
  by (simp add: repaired_def split: option.split)

lemma repaired_size [simp]: "page_size_bytes (repaired rs m) = page_size_bytes m"
  by (simp add: repaired_def split: option.split)

text \<open>
  Pages and freelist are on disk and so is the checkpoint record, but the meta page is the one of an earlier
  checkpoint: repaired from the record it leads to the new tree. Without a repair it is the new one already.
\<close>

lemma recovers_record:
  assumes T: "129 \<le> ps" "tree_fine ps h T" "root_page_id m0 = pid T" "image_ok ps (map_of (pages T)) m0 b"
      "card (dom (contents T)) \<le> 2 ^ 50" "page_size_bytes m0 = ps"
    and m1: "disk_page ps b META_PAGE_ID = Some (meta_bytes m1)" "meta_ok m1" "page_size_bytes m1 = ps"
      "last_checkpoint_lsn m1 < l \<or> m1 = m0\<lparr>last_checkpoint_lsn := l\<rparr>" and rs: "\<forall>r \<in> set rs. lsn r < l"
  shows "recovers (next_page_id m0) ps b (rs @ [checkpoint_of l m0]) (contents T)"
proof -
  have rep: "repaired (rs @ [checkpoint_of l m0]) m1 = m0\<lparr>last_checkpoint_lsn := l\<rparr>"
    using m1(3,4) T(6) by (cases m0; cases m1) (auto simp: repaired_def newest_append [OF rs], simp_all add: checkpoint_of_def)
  have "filter (\<lambda>r. l < lsn r) (rs @ [checkpoint_of l m0]) = []" using rs by (auto simp: filter_empty_conv)
  with T m1(1,2) image_ok_lsn [OF T(4), of l] rep show ?thesis
    unfolding recovers_def by (intro exI [of _ T] exI [of _ h] exI [of _ m1]) (simp add: replayed_def)
qed


lemma pool_state_durable:
  assumes "pool_state E V R H U n r s"
  shows "pg_durable s = env_durable E" "bp_capacity_pages s = env_capacity E"
  using assms by (simp_all add: pool_state_def pool_ok_def)

lemma recovers_meta:
  assumes "recovers L ps b rs m"
  obtains m1 where "disk_page ps b META_PAGE_ID = Some (meta_bytes m1)" "meta_ok m1" "page_size_bytes m1 = ps" "last_checkpoint_lsn m1 \<le> last_lsn_of rs"
proof -
  from assms obtain T h m1 where *: "disk_page ps b META_PAGE_ID = Some (meta_bytes m1)" "meta_ok m1"
     "image_ok ps (map_of (pages T)) (repaired rs m1) b" "last_checkpoint_lsn (repaired rs m1) \<le> last_lsn_of rs" by (auto simp: recovers_def)
  have "page_size_bytes (repaired rs m1) = ps" using *(3) by (auto simp: image_ok_def pager_inv_def image_state_def)
  then show thesis using that [OF *(1,2)] *(4) order_trans [OF repaired_lsn] by auto
qed

lemma recoverable_record:
  assumes "recovers (next_page_id m0) ps b (rs @ [checkpoint_of l m0]) m" and "wal_state (rs @ [checkpoint_of l m0]) w"
    and "\<forall>r \<in> set rs. record_good ps r" and "length rs \<le> 2 ^ 50" and "next_page_id m0 \<le> 2 ^ 61" and "l + 1 < 2 ^ 64" and "card (dom m) < 2 ^ Suc N"
  shows "recoverable (next_page_id m0) N ps b (rs @ [checkpoint_of l m0]) m"
  using assms wal_stateD(5) [OF assms(2)] by (simp add: recoverable_def)

text \<open>
  A checkpoint in three stages: pages and record, meta page, truncation of the log.
\<close>

definition checkpoint_pages_and_record :: "(db, nat) op" where
  "checkpoint_pages_and_record =
     bind_op (gets_op (\<lambda>s. wl_current_lsn (db_wal s) + 1)) (\<lambda>checkpoint_lsn.
     bind_op (on_tree flush_all) (\<lambda>_.
     bind_op (on_tree flush_dirty_freelist_pages) (\<lambda>_.
     bind_op (on_tree fsync) (\<lambda>_.
     bind_op (on_tree get_meta) (\<lambda>m.
     bind_op (on_wal (append_checkpoint (root_page_id m) (freelist_head_page_id m) (next_page_id m))) (\<lambda>_.
     ret checkpoint_lsn))))))"

definition checkpoint_meta_page :: "nat \<Rightarrow> (db, unit) op" where
  "checkpoint_meta_page checkpoint_lsn =
     bind_op (on_tree (update_meta (last_checkpoint_lsn_update (\<lambda>_. checkpoint_lsn)))) (\<lambda>_.
     bind_op (on_tree flush_meta) (\<lambda>_.
     on_tree fsync))"

lemma db_checkpoint_stages:
  "db_checkpoint = bind_op checkpoint_pages_and_record (\<lambda>l. bind_op (checkpoint_meta_page l) (\<lambda>_. on_wal (truncate_before l)))"
proof -
  have ret: "bind_op (ret a) f = f a" for a f by (rule ext) simp
  show ?thesis by (simp only: db_checkpoint_def checkpoint_pages_and_record_def checkpoint_meta_page_def bind_op_assoc ret)
qed

text \<open>A crash after the first stage or after the second loses nothing.\<close>

lemma crash_in_checkpoint_ok:
  assumes holds: "db_holds N m s" and room: "headroom 1 N s" and ps0: "MIN_PAGE_SIZE \<le> ps0"
  shows "\<exists>l s1 s2. checkpoint_pages_and_record s = (Inr l, s1) \<and> checkpoint_meta_page l s1 = (Inr (), s2) \<and>
     (\<forall>s' \<in> {s1, s2}. \<exists>s0 s3. restart ps0 x [] temp s' = Inr s0 \<and> db_open s0 = (Inr (), s3) \<and> db_holds N m s3)"
proof -
  from holds obtain E h rs where ok: "db_ok N E h m rs s" by (auto simp: db_holds_def)
  then obtain b x where live: "db_live E h m rs s" and b: "env_durable E = Some b" "recovers (page_limit (db_tree s)) (env_page_size E) b rs m"
    "file_bytes (db_tree s) = b @ x" and card: "card (dom m) < 2 ^ Suc N" and conf: "db_config N E s" by (auto simp: db_ok_def)
  have th: "tree_holds E h m 0 (db_tree s)" and ws: "wal_state rs (db_wal s)" using live by (simp_all add: db_live_def)
  define ps l where "ps = env_page_size E" and "l = last_lsn_of rs + 1"
  have lim: "page_limit (db_tree s) \<le> 2 ^ 61" "l + 3 < 2 ^ 64" using room wal_stateD(4) [OF ws] by (simp_all add: headroom_def l_def)
  obtain T t1 t2 t3 m0 b0 w1 w2 where c: "129 \<le> ps" "tree_fine ps h T" "contents T = m" "root_page_id m0 = pid T"
    "flush_all (db_tree s) = (Inr (), t1)" "flush_dirty_freelist_pages t1 = (Inr (), t2)" "fsync t2 = (Inr (), t3)"
    "get_meta t3 = (Inr m0, t3)" "pg_meta t3 = Some m0" "page_limit (db_tree s) = next_page_id m0" "page_limit t3 = next_page_id m0"
    "pool_state (E\<lparr>env_durable := Some b0\<rparr>) (map_of (pages T)) {} {} {} 0 (pid T) t3" "pg_dirty_freelist_page_ids t3 = {}" "dirty_count t3 = 0"
    "image_ok ps (map_of (pages T)) m0 b0" "meta_ok (m0\<lparr>last_checkpoint_lsn := l\<rparr>)" "page_size_bytes m0 = ps"
    "append_checkpoint (root_page_id m0) (freelist_head_page_id m0) (next_page_id m0) (db_wal s) = (Inr l, w1)"
    "wal_state (rs @ [checkpoint_of l m0]) w1" "truncate_before l w1 = (Inr (), w2)" "wal_state [checkpoint_of l m0] w2"
    "\<forall>d. disk_page ps (file_bytes (db_tree s)) 0 = Some d \<longrightarrow> disk_page ps b0 0 = Some d"
    by (rule checkpoint_record [OF live _ _ ps_def l_def]) (use lim l_def in simp_all)
  have below: "\<forall>r \<in> set rs. lsn r < l" using wal_log.last_lsn_bound [OF ws] by (auto simp: l_def less_Suc_eq_le)
  have card50: "card (dom (contents T)) \<le> 2 ^ 50" using card_le_pow [of N] conf card c(3) by (simp add: db_config_def config_ok_def)
  let ?m = "m0\<lparr>last_checkpoint_lsn := l\<rparr>" and ?E = "E\<lparr>env_durable := Some b0\<rparr>"
  obtain t4 t5 t6 b6 where t6: "update_meta (last_checkpoint_lsn_update (\<lambda>_. l)) t3 = (Inr (), t4)" "flush_meta t4 = (Inr (), t5)"
    "fsync t5 = (Inr (), t6)" "pool_state (?E\<lparr>env_durable := Some b6, env_checkpoint_lsn := l\<rparr>) (map_of (pages T)) {} {} {} 0 (pid T) t6"
    "image_ok (env_page_size ?E) (map_of (pages T)) ?m b6" "disk_page (env_page_size ?E) b6 META_PAGE_ID = Some (meta_bytes ?m)"
    by (rule checkpoint_meta [OF c(12,14,13,9,16)]) blast
  obtain m1 where m1: "disk_page ps b META_PAGE_ID = Some (meta_bytes m1)" "meta_ok m1" "page_size_bytes m1 = ps" "last_checkpoint_lsn m1 \<le> last_lsn_of rs"
    by (rule recovers_meta [OF b(2) [folded ps_def]])
  have "disk_page ps (file_bytes (db_tree s)) META_PAGE_ID = Some (meta_bytes m1)" using disk_page_extend [OF m1(1)] c(1) b(3) by simp
  then have d0: "disk_page ps b0 META_PAGE_ID = Some (meta_bytes m1)" using c(22) by (simp add: META_PAGE_ID_def)
  have r3: "recovers (next_page_id m0) ps b0 (rs @ [checkpoint_of l m0]) m"
    unfolding c(3) [symmetric] by (rule recovers_record [OF c(1,2,4,15) card50 c(17) d0 m1(2,3) _ below]) (use m1(4) l_def in simp)
  have "recovers (next_page_id ?m) ps b6 (rs @ [checkpoint_of l ?m]) m"
    unfolding c(3) [symmetric]
    by (rule recovers_record [OF c(1,2) _ _ card50 _ _ c(16) _ _ below]) (use t6(5,6) c(4,17) in \<open>simp_all add: ps_def\<close>)
  then have r6: "recovers (next_page_id m0) ps b6 (rs @ [checkpoint_of l m0]) m" by (simp add: checkpoint_of_def)
  have good: "\<forall>r \<in> set rs. record_good ps r" "length rs \<le> 2 ^ 50" "next_page_id m0 \<le> 2 ^ 61" "l + 1 < 2 ^ 64"
    using ok lim c(10) by (simp_all add: db_ok_def ps_def)
  note rec = recoverable_record [OF _ c(19) good card]
  have start: "\<exists>s0 s3. restart ps0 x [] temp (s\<lparr>db_tree := t, db_wal := w1\<rparr>) = Inr s0 \<and> db_open s0 = (Inr (), s3) \<and> db_holds N m s3"
    if "recovers (next_page_id m0) ps b' (rs @ [checkpoint_of l m0]) m" "pg_durable t = Some b'" "bp_capacity_pages t = env_capacity E" for t b' x
    by (rule restart_ok [OF rec [OF that(1)] ps0, where z' = "[]"]) (use that(2,3) wal_stateD(3) [OF c(19)] conf in \<open>simp_all add: db_config_def\<close>)
  have lsn: "wl_current_lsn (db_wal s) + 1 = l" using wal_stateD(4) [OF ws] by (simp add: l_def)
  let ?s1 = "s\<lparr>db_tree := t3, db_wal := w1\<rparr>" and ?s2 = "s\<lparr>db_tree := t6, db_wal := w1\<rparr>"
  have "checkpoint_pages_and_record s = (Inr l, ?s1)" "checkpoint_meta_page l ?s1 = (Inr (), ?s2)"
    using c(5-8,18) t6(1-3) lsn by (simp_all add: checkpoint_pages_and_record_def checkpoint_meta_page_def)
  then show ?thesis
    using start [OF r3] start [OF r6] pool_state_durable [OF c(12)] pool_state_durable [OF t6(4)] by (intro exI conjI) auto
qed

section \<open>Closing\<close>

text \<open>A database that \<^verbatim>\<open>close\<close> succeeds on: whether its pages are flushed does not matter.\<close>

definition closable :: "nat \<Rightarrow> (bytes \<rightharpoonup> bytes) \<Rightarrow> db \<Rightarrow> bool" where
  "closable N m s \<longleftrightarrow> db_is_opened s \<and> page_limit (db_tree s) \<le> 2 ^ 61 \<and> card (dom m) < 2 ^ Suc N \<and>
     (\<exists>E h rs. db_live E h m rs s \<and> db_config N E s \<and> last_lsn_of rs + 4 < 2 ^ 64)"

lemma db_holds_closable:
  assumes "db_holds N m s" and "headroom 1 N s"
  shows "closable N m s"
proof -
  from assms(1) obtain E h rs where ok: "db_ok N E h m rs s" and opn: "db_is_opened s" by (auto simp: db_holds_def)
  then have "wal_state rs (db_wal s)" by (simp add: db_ok_def db_live_def)
  with ok opn assms(2) wal_stateD(4) [of rs "db_wal s"] show ?thesis unfolding closable_def by (auto simp: db_ok_def headroom_def)
qed

lemma db_close_closable:
  assumes "closable N m s" and ps0: "MIN_PAGE_SIZE \<le> ps0"
  shows "\<exists>s1 s0 s2. db_close s = (Inr (), s1) \<and> \<not> db_is_opened s1 \<and> size_bytes (db_wal s1) = 41 \<and> restart ps0 [] [] temp s1 = Inr s0 \<and>
     db_open s0 = (Inr (), s2) \<and> db_holds N m s2"
proof -
  from assms(1) obtain E h rs where live: "db_live E h m rs s" and conf: "db_config N E s" and card: "card (dom m) < 2 ^ Suc N" and opn: "db_is_opened s"
    and lim: "page_limit (db_tree s) \<le> 2 ^ 61" "last_lsn_of rs + 4 < 2 ^ 64" by (auto simp: closable_def)
  have card50: "card (dom m) \<le> 2 ^ 50" using card_le_pow [of N] conf card by (simp add: db_config_def config_ok_def)
  obtain t w b r where c: "db_checkpoint s = (Inr (), s\<lparr>db_tree := t, db_wal := w\<rparr>)"
    "db_live (E\<lparr>env_durable := Some b, env_checkpoint_lsn := last_lsn_of rs + 1\<rparr>) h m [r] (s\<lparr>db_tree := t, db_wal := w\<rparr>)"
    "recovers (page_limit t) (env_page_size E) b [r] m" "dirty_count t = 0" "page_limit t = page_limit (db_tree s)"
    "lsn r = last_lsn_of rs + 1" "is_WALCheckpointRecord r"
    "pg_disk t = Some b" "pg_dirty_freelist_page_ids t = {}" "\<not> pg_is_meta_dirty t"
    by (rule db_checkpoint_ok [OF live _ _ card50]) (use lim in simp_all)
  have th: "tree_holds (E\<lparr>env_durable := Some b, env_checkpoint_lsn := last_lsn_of rs + 1\<rparr>) h m 0 t" and wr: "wal_state [r] w"
    using c(2) by (simp_all add: db_live_def)
  from wal_close_ok [OF wal_stateD(1) [OF wr]] wal_stateD(2) [OF wr] obtain w' where
    w': "wal_close w = (Inr (), w')" "wl_durable w' = Some (log_bytes [r])" "wl_file w' = Some (log_bytes [r])" by auto
  have "pg_open t" using th by (auto simp: tree_holds_def pool_state_def dest!: pool_okD(7) simp: pager_inv_def)
  from pager_close_clean [OF this c(9,10)] c(8) obtain t' where
    t': "pager_close t = (Inr (), t')" "pg_durable t' = Some b" "pager.more t' = pager.more t" by auto
  let ?s1 = "s\<lparr>db_wal := w', db_tree := t', db_is_opened := False, db_version_counter := 0\<rparr>"
  have run: "db_close s = (Inr (), ?s1)" using opn c(1) w'(1) t'(1) by (simp add: db_close_def finally_op_def bind_op_Inr)
  have "record_good (env_page_size E) r" using c(7) by (cases r) simp_all
  then have rec: "recoverable (page_limit t) N (env_page_size E) b [r] m"
    using c(3,5,6) wal_stateD(5) [OF wr] lim card by (simp add: recoverable_def last_lsn_of_def)
  have "bp_capacity_pages t' = env_capacity E" using tree_holds_meta(1) [OF th] more_pool(2) [OF t'(3)] by simp
  moreover have "size_bytes w' = 41" using w'(3) c(7) by (cases r) (simp_all add: size_bytes_def wal_bytes_of_def length_wal_bytes)
  ultimately show ?thesis using restart_ok [OF rec ps0, of ?s1 "log_bytes [r]" "[]" "[]" "[]" temp] w'(2) t'(2) conf run
    by (auto simp: db_config_def)
qed

lemma db_close_ok:
  assumes "db_holds N m s" and "headroom 1 N s" and "MIN_PAGE_SIZE \<le> ps0"
  shows "\<exists>s1 s0 s2. db_close s = (Inr (), s1) \<and> \<not> db_is_opened s1 \<and> restart ps0 [] [] temp s1 = Inr s0 \<and>
     db_open s0 = (Inr (), s2) \<and> db_holds N m s2"
  using db_close_closable [OF db_holds_closable [OF assms(1,2)] assms(3), of temp] by blast

section \<open>A new database as an example\<close>

lemma sample_db:
  obtains s where "db_holds 3 Map.empty s" "headroom (2 ^ 50) 3 s" "pg_page_size (db_tree s) = 200" "db_version_counter s = 0"
proof -
  obtain s0 where s0: "DB_init None None None 200 100 1000 (1, 2) = Inr s0" by (simp add: DB_init_def Pager_init_def bind_r_def MIN_PAGE_SIZE_def)
  show thesis by (rule db_create_ok [OF s0, of 3]) (use that in \<open>simp_all add: config_ok_def\<close>)
qed

lemma headroom_less: "headroom n N s \<Longrightarrow> k \<le> n \<Longrightarrow> headroom k N s"
proof -
  assume h: "headroom n N s" and k: "k \<le> n"
  have "k * (2 * (N + 2)) \<le> n * (2 * (N + 2))" using k by (rule mult_le_mono1)
  with h k show "headroom k N s" unfolding headroom_def by linarith
qed

end
