(* ===== verification/Debug.thy ===== *)
theory Debug
  imports TreeOps
begin

text \<open>
  The invariant checker of \<^verbatim>\<open>src/bptreedb/debug.py\<close>: the breadth-first walk that materialises a tree
  level by level, and the checks on page IDs, key order, levels, fill, separators and the leaf chain.
  The walk of a stored tree ends and returns its levels; on a tree of the right shape and order the checker
  decides whether the pages are filled, and it accepts every well-formed tree.
\<close>

section \<open>Nodes and the walk\<close>

datatype bptree_node = BPlusTreeNode (node_page_id: nat) (node_page: node) (children: "nat list")

text \<open>
  The nodes of a walk are objects that are linked before they are complete, so they live in a list, an
  address being a position in it. The other fields are the local variables \<^verbatim>\<open>queue\<close> and \<^verbatim>\<open>result\<close>.
\<close>

record walk =
  wk_nodes :: "bptree_node list"
  wk_queue :: "(nat \<times> nat) list"
  wk_result :: "nat list list"

definition page_id_to_node :: "nat \<Rightarrow> ('z tree_scheme, bptree_node) op" where
  "page_id_to_node page_id = bind_op (pool_get page_id) (\<lambda>page. ret (BPlusTreeNode page_id page []))"

definition add_child :: "nat \<Rightarrow> nat \<Rightarrow> nat \<Rightarrow> walk \<Rightarrow> ('z tree_scheme, walk) op" where
  "add_child node level c w =
     bind_op (page_id_to_node c) (\<lambda>child_node.
     let child = length (wk_nodes w);
         parent = wk_nodes w ! node
     in ret (w\<lparr>wk_nodes := (wk_nodes w)[node := BPlusTreeNode (node_page_id parent) (node_page parent) (children parent @ [child])] @ [child_node],
               wk_queue := wk_queue w @ [(child, level + 1)]\<rparr>))"

fun add_children :: "nat \<Rightarrow> nat \<Rightarrow> nat list \<Rightarrow> walk \<Rightarrow> ('z tree_scheme, walk) op" where
  "add_children node level [] w = ret w"
| "add_children node level (c # cs) w = bind_op (add_child node level c w) (add_children node level cs)"

fun bfs_loop :: "nat \<Rightarrow> walk \<Rightarrow> ('z tree_scheme, walk) op" where
  "bfs_loop fuel w =
     (case wk_queue w of
        [] \<Rightarrow> ret w
      | (node, level) # queue \<Rightarrow>
          (case fuel of
             0 \<Rightarrow> raise OutOfFuel
           | Suc fuel' \<Rightarrow>
               (let result = (if length (wk_result w) < level + 1 then wk_result w @ [[]] else wk_result w)
                in if level < length result then
                     let w' = w\<lparr>wk_queue := queue, wk_result := result[level := result ! level @ [node]]\<rparr>
                     in case node_page (wk_nodes w ! node) of
                          LeafPage _ _ _ \<Rightarrow> bfs_loop fuel' w'
                        | InternalPage _ leftmost slots \<Rightarrow>
                            bind_op (add_children node level (leftmost # map child_page_id slots) w') (bfs_loop fuel')
                   else raise IndexError)))"

declare bfs_loop.simps [simp del]

text \<open>The fuel is the number of pages of the file.\<close>

definition bfs_walk_tree :: "('z tree_scheme, walk) op" where
  "bfs_walk_tree =
     bind_op tree_root (\<lambda>root.
     bind_op (page_id_to_node root) (\<lambda>root_node.
     bind_op (gets_op page_limit) (\<lambda>fuel.
     bfs_loop fuel \<lparr>wk_nodes = [root_node], wk_queue = [(0, 0)], wk_result = []\<rparr>)))"

section \<open>The invariants\<close>

definition raise_invariant_error :: "('s, 'a) op" where
  "raise_invariant_error = raise AssertionError"

fun smallest_leaf_key :: "nat \<Rightarrow> bptree_node list \<Rightarrow> nat \<Rightarrow> bytes result" where
  "smallest_leaf_key fuel nodes node =
     (case node_page (nodes ! node) of
        InternalPage _ _ _ \<Rightarrow>
          (case fuel of
             0 \<Rightarrow> Inl OutOfFuel
           | Suc fuel' \<Rightarrow> if children (nodes ! node) = [] then Inl IndexError
                         else smallest_leaf_key fuel' nodes (hd (children (nodes ! node))))
      | LeafPage _ _ slots \<Rightarrow> if slots = [] then Inl IndexError else Inr (lkey (hd slots)))"

fun largest_leaf_key :: "nat \<Rightarrow> bptree_node list \<Rightarrow> nat \<Rightarrow> bytes result" where
  "largest_leaf_key fuel nodes node =
     (case node_page (nodes ! node) of
        InternalPage _ _ _ \<Rightarrow>
          (case fuel of
             0 \<Rightarrow> Inl OutOfFuel
           | Suc fuel' \<Rightarrow> if children (nodes ! node) = [] then Inl IndexError
                         else largest_leaf_key fuel' nodes (last (children (nodes ! node))))
      | LeafPage _ _ slots \<Rightarrow> if slots = [] then Inl IndexError else Inr (lkey (last slots)))"

declare smallest_leaf_key.simps [simp del] largest_leaf_key.simps [simp del]

fun slot_keys :: "node \<Rightarrow> bytes list" where
  "slot_keys (InternalPage _ _ slots) = map ikey slots"
| "slot_keys (LeafPage _ _ slots) = map lkey slots"

text \<open>The loop over the separators of an internal node; its fuel bounds the two descents.\<close>

fun check_separators :: "nat \<Rightarrow> bptree_node list \<Rightarrow> nat list \<Rightarrow> bytes list \<Rightarrow> ('s, unit) op" where
  "check_separators fuel nodes kids [] = ret ()"
| "check_separators fuel nodes (left # right # kids) (key # keys) =
     bind_op (lift_r (largest_leaf_key fuel nodes left)) (\<lambda>left_child_max.
     bind_op (lift_r (smallest_leaf_key fuel nodes right)) (\<lambda>right_child_min.
     bind_op (if \<not> (left_child_max < key \<and> key \<le> right_child_min) then raise_invariant_error else ret ()) (\<lambda>_.
     check_separators fuel nodes (right # kids) keys)))"
| "check_separators fuel nodes kids (key # keys) = raise IndexError"

definition check_node :: "bptree_node list \<Rightarrow> nat \<Rightarrow> nat \<Rightarrow> nat \<Rightarrow> nat \<Rightarrow> ('z tree_scheme, unit) op" where
  "check_node nodes next_id level_count level_idx node =
     (let n = nodes ! node;
          page = node_page n;
          keys = slot_keys page
      in bind_op (if \<not> node_page_id n < next_id then raise_invariant_error else ret ()) (\<lambda>_.
         bind_op (if list_ex (\<lambda>i. \<not> keys ! i \<le> keys ! (i + 1)) [0..<length keys - 1] then raise_invariant_error else ret ()) (\<lambda>_.
         bind_op (if level_idx + 1 < level_count \<and> is_LeafPage page then raise_invariant_error else ret ()) (\<lambda>_.
         bind_op (if level_idx + 1 = level_count \<and> is_InternalPage page then raise_invariant_error else ret ()) (\<lambda>_.
         bind_op (if 0 < level_idx
                  then bind_op tree_page_size (\<lambda>ps. if is_page_underpopulated ps page then raise_invariant_error else ret ())
                  else ret ()) (\<lambda>_.
         if level_idx + 1 < level_count
         then bind_op (assert_op (is_InternalPage page)) (\<lambda>_. check_separators (length nodes) nodes (children n) keys)
         else ret ()))))))"

fun check_level :: "bptree_node list \<Rightarrow> nat \<Rightarrow> nat \<Rightarrow> nat \<Rightarrow> nat list \<Rightarrow> ('z tree_scheme, unit) op" where
  "check_level nodes next_id level_count level_idx [] = ret ()"
| "check_level nodes next_id level_count level_idx (node # level) =
     bind_op (check_node nodes next_id level_count level_idx node) (\<lambda>_. check_level nodes next_id level_count level_idx level)"

fun check_levels :: "bptree_node list \<Rightarrow> nat \<Rightarrow> nat \<Rightarrow> nat \<Rightarrow> nat list list \<Rightarrow> ('z tree_scheme, unit) op" where
  "check_levels nodes next_id level_count level_idx [] = ret ()"
| "check_levels nodes next_id level_count level_idx (level # levels) =
     bind_op (check_level nodes next_id level_count level_idx level) (\<lambda>_.
     check_levels nodes next_id level_count (level_idx + 1) levels)"

text \<open>The loop over the leaves; \<open>seen\<close> holds the page IDs met so far, and the result is the final set.\<close>

fun check_leaves :: "bptree_node list \<Rightarrow> nat set \<Rightarrow> nat list \<Rightarrow> ('s, nat set) op" where
  "check_leaves nodes seen [] = ret seen"
| "check_leaves nodes seen (node # rest) =
     (let n = nodes ! node in
      bind_op (assert_op (is_LeafPage (node_page n))) (\<lambda>_.
      bind_op (if node_page_id n \<in> seen then raise_invariant_error else ret ()) (\<lambda>_.
      bind_op (case rest of
                 [] \<Rightarrow> ret ()
               | node' # _ \<Rightarrow>
                   (let n' = nodes ! node' in
                    bind_op (if right_sibling_page_id (node_page n) \<noteq> node_page_id n' then raise_invariant_error else ret ()) (\<lambda>_.
                    if slot_keys (node_page n) = [] \<or> slot_keys (node_page n') = [] then raise IndexError
                    else if hd (slot_keys (node_page n')) < last (slot_keys (node_page n)) then raise_invariant_error else ret ()))) (\<lambda>_.
      check_leaves nodes (insert (node_page_id n) seen) rest))))"

definition assert_tree_invariants :: "('z tree_scheme, unit) op" where
  "assert_tree_invariants =
     bind_op get_meta (\<lambda>m.
     bind_op bfs_walk_tree (\<lambda>w.
     let bfs_walk = wk_result w; level_count = length bfs_walk in
     bind_op (check_levels (wk_nodes w) (next_page_id m) level_count 0 bfs_walk) (\<lambda>_.
     if bfs_walk = [] then raise IndexError
     else bind_op (check_leaves (wk_nodes w) {} (last bfs_walk)) (\<lambda>seen_leaf_pages.
          assert_op (card seen_leaf_pages = length (last bfs_walk))))))"

section \<open>The levels of a tree\<close>

fun kids :: "btree \<Rightarrow> btree list" where
  "kids (Lf p q ss) = []"
| "kids (Nd p t kts) = t # map snd kts"

fun tree_levels :: "nat \<Rightarrow> btree list \<Rightarrow> btree list list" where
  "tree_levels 0 ts = [ts]"
| "tree_levels (Suc h) ts = ts # tree_levels h (concat (map kids ts))"

lemma kid_ids: "tnode t = InternalPage l c slots \<Longrightarrow> map pid (kids t) = c # map child_page_id slots"
  by (cases t) (auto simp: child_slots_def)

lemma kids_leaf: "tnode t = LeafPage l q ss \<Longrightarrow> kids t = []"
  by (cases t) auto

lemma pages_kids: "pages t = (pid t, tnode t) # concat (map pages (kids t))"
  by (cases t) (simp_all add: row_pages_def comp_def case_prod_unfold)

lemma stored_kids: "stored V t \<Longrightarrow> u \<in> set (kids t) \<Longrightarrow> stored V u"
  unfolding stored_def pages_kids [of t] by fastforce

lemma stored_root: "stored V t \<Longrightarrow> V (pid t) = Some (tnode t)"
  using stored_focus [of V "[]" t] by simp

lemma depth_kids: "depth_ok (Suc h) t \<Longrightarrow> u \<in> set (kids t) \<Longrightarrow> depth_ok h u"
  by (cases t) auto

lemma length_pages_kids: "length (pages t) = Suc (sum_list (map (\<lambda>u. length (pages u)) (kids t)))"
  by (simp add: pages_kids [of t] length_concat comp_def)

section \<open>The walk\<close>

text \<open>A fetch that leaves the room for the next one.\<close>

lemma fetch_again:
  assumes st: "pool_state E V {} {} {} (Suc n) r s" and x: "V p = Some x"
  obtains y s' where "pool_get p s = (Inr y, s')" "strip y = x" "pool_state E V {} {} {} (Suc n) r s'"
proof -
  from pool.fetch_law [OF st x] obtain y s' where
    y: "pool_get p s = (Inr y, s')" "strip y = x" "pool_state E V {} (insert p {}) {} n r s'" by blast
  have "pool_state E V {} {} {} 0 r s'" by (rule pool.weaken [OF y(3)]) simp_all
  moreover have "dirty_count s' \<le> dirty_count s" by (rule keepsD [OF dirty_keep_get y(1)]) simp
  ultimately have "pool_state E V {} {} {} (Suc n) r s'"
    using pool_state_room [of E V "{}" "Suc n" r s] pool_state_room [of E V "{}" "Suc n" r s'] st by linarith
  with y(1,2) show thesis by (rule that)
qed

text \<open>The node at an address stands for the root of a subtree.\<close>

definition stands_for :: "bptree_node list \<Rightarrow> nat \<Rightarrow> btree \<Rightarrow> bool" where
  "stands_for ns a t \<longleftrightarrow> a < length ns \<and> node_page_id (ns ! a) = pid t \<and> strip (node_page (ns ! a)) = tnode t"

definition fresh_for :: "bptree_node list \<Rightarrow> nat \<Rightarrow> btree \<Rightarrow> bool" where
  "fresh_for ns a t \<longleftrightarrow> stands_for ns a t \<and> children (ns ! a) = []"

lemma stands_for_append: "stands_for ns a t \<Longrightarrow> stands_for (ns @ ms) a t" "fresh_for ns a t \<Longrightarrow> fresh_for (ns @ ms) a t"
  by (auto simp: stands_for_def fresh_for_def nth_append)

lemma add_children_ok:
  fixes s :: "'z tree_scheme"
  assumes "pool_state E V {} {} {} (Suc n) r s" and "\<forall>u \<in> set us. V (pid u) = Some (tnode u)" and "a < length (wk_nodes w)"
    and "ns = wk_nodes w"
  shows "\<exists>new s'. add_children a l (map pid us) w s = (Inr (w\<lparr>wk_nodes :=
        ns[a := BPlusTreeNode (node_page_id (ns ! a)) (node_page (ns ! a)) (children (ns ! a) @ [length ns..<length ns + length us])] @ new,
        wk_queue := wk_queue w @ map (\<lambda>b. (b, Suc l)) [length ns..<length ns + length us]\<rparr>), s') \<and>
      list_all2 (\<lambda>x u. node_page_id x = pid u \<and> strip (node_page x) = tnode u \<and> children x = []) new us \<and>
      pool_state E V {} {} {} (Suc n) r s'"
  using assms
proof (induction us arbitrary: w s ns)
  case Nil
  have "BPlusTreeNode (node_page_id (ns ! a)) (node_page (ns ! a)) (children (ns ! a)) = ns ! a" by simp
  with Nil show ?case by (intro exI [of _ "[]"] exI [of _ s]) simp
next
  case (Cons u us)
  from Cons.prems(2) have "V (pid u) = Some (tnode u)" by simp
  from fetch_again [OF Cons.prems(1) this] obtain y s1 where
    y: "pool_get (pid u) s = (Inr y, s1)" "strip y = tnode u" "pool_state E V {} {} {} (Suc n) r s1" by blast
  let ?nd = "\<lambda>cs. BPlusTreeNode (node_page_id (ns ! a)) (node_page (ns ! a)) (children (ns ! a) @ cs)"
  let ?ns1 = "ns[a := ?nd [length ns]] @ [BPlusTreeNode (pid u) y []]"
  let ?w1 = "w\<lparr>wk_nodes := ?ns1, wk_queue := wk_queue w @ [(length ns, Suc l)]\<rparr>"
  have step: "add_child a l (pid u) w s = (Inr ?w1, s1)"
    using y(1) Cons.prems(4) by (simp add: add_child_def page_id_to_node_def bind_op_assoc bind_op_Inr Let_def)
  from Cons.IH [OF y(3), of ?w1 ?ns1] Cons.prems(2-4) obtain new s' where
    new: "add_children a l (map pid us) ?w1 s1 = (Inr (?w1\<lparr>wk_nodes :=
        ?ns1[a := BPlusTreeNode (node_page_id (?ns1 ! a)) (node_page (?ns1 ! a)) (children (?ns1 ! a) @ [length ?ns1..<length ?ns1 + length us])] @ new,
        wk_queue := wk_queue ?w1 @ map (\<lambda>b. (b, Suc l)) [length ?ns1..<length ?ns1 + length us]\<rparr>), s')"
      "list_all2 (\<lambda>x u. node_page_id x = pid u \<and> strip (node_page x) = tnode u \<and> children x = []) new us"
      "pool_state E V {} {} {} (Suc n) r s'" by auto
  have upt: "length ns # [Suc (length ns)..<Suc (length ns) + length us] = [length ns..<length ns + length (u # us)]"
    by (simp add: upt_conv_Cons del: upt_Suc)
  have "add_children a l (map pid (u # us)) w s = (Inr (w\<lparr>wk_nodes := ns[a := ?nd [length ns..<length ns + length (u # us)]] @ BPlusTreeNode (pid u) y [] # new,
        wk_queue := wk_queue w @ map (\<lambda>b. (b, Suc l)) [length ns..<length ns + length (u # us)]\<rparr>), s')"
    using new(1) step Cons.prems(3,4) unfolding upt [symmetric] by (simp add: bind_op_Inr nth_append list_update_append)
  with new(2,3) y(2) show ?case by (intro exI [of _ "BPlusTreeNode (pid u) y [] # new"] exI [of _ s']) simp
qed

lemma bfs_step:
  fixes s :: "'z tree_scheme"
  assumes st: "pool_state E V {} {} {} (Suc n) r s" and q: "wk_queue w = (a, l) # queue"
    and res: "wk_result w = R @ (if dn = [] then [] else [dn])" "length R = l"
    and a: "fresh_for (wk_nodes w) a t" and t: "stored V t" and ns: "ns = wk_nodes w" and us: "us = kids t"
  shows "\<exists>w1 s1 new. (\<forall>fuel. bfs_loop (Suc fuel) w s = bfs_loop fuel w1 s1) \<and> pool_state E V {} {} {} (Suc n) r s1 \<and>
     wk_nodes w1 = ns[a := BPlusTreeNode (node_page_id (ns ! a)) (node_page (ns ! a)) [length ns..<length ns + length us]] @ new \<and>
     wk_queue w1 = queue @ map (\<lambda>b. (b, Suc l)) [length ns..<length ns + length us] \<and> wk_result w1 = R @ [dn @ [a]] \<and>
     list_all2 (\<lambda>x u. node_page_id x = pid u \<and> strip (node_page x) = tnode u \<and> children x = []) new us"
proof -
  let ?res = "if length (wk_result w) < l + 1 then wk_result w @ [[]] else wk_result w"
  have r: "l < length ?res" "?res[l := ?res ! l @ [a]] = R @ [dn @ [a]]" using res by (auto simp: nth_append list_update_append)
  let ?w = "w\<lparr>wk_queue := queue, wk_result := R @ [dn @ [a]]\<rparr>"
  have la: "a < length ns" "strip (node_page (ns ! a)) = tnode t" "children (ns ! a) = []" using a ns by (auto simp: fresh_for_def stands_for_def)
  show ?thesis
  proof (cases "node_page (ns ! a)")
    case (LeafPage x y ss)
    then have "tnode t = LeafPage 0 y ss" using la(2) by simp
    then have "us = []" using kids_leaf us by blast
    moreover have "bfs_loop (Suc fuel) w s = bfs_loop fuel ?w s" for fuel
      using q r LeafPage ns by (subst bfs_loop.simps) (simp add: Let_def)
    moreover have "ns[a := BPlusTreeNode (node_page_id (ns ! a)) (node_page (ns ! a)) []] = ns"
      using la(3) by (metis bptree_node.collapse list_update_id)
    ultimately show ?thesis using st ns by (intro exI [of _ ?w] exI [of _ s] exI [of _ "[]"]) simp
  next
    case (InternalPage x c slots)
    then have "tnode t = InternalPage 0 c slots" using la(2) by simp
    then have ids: "map pid us = c # map child_page_id slots" using kid_ids us by blast
    have "\<forall>u \<in> set us. V (pid u) = Some (tnode u)" using stored_kids [OF t] stored_root us by blast
    from add_children_ok [OF st this, of a ?w ns l] la ns obtain new s1 where
      add: "add_children a l (map pid us) ?w s = (Inr (?w\<lparr>wk_nodes :=
        ns[a := BPlusTreeNode (node_page_id (ns ! a)) (node_page (ns ! a)) [length ns..<length ns + length us]] @ new,
        wk_queue := queue @ map (\<lambda>b. (b, Suc l)) [length ns..<length ns + length us]\<rparr>), s1)"
      "list_all2 (\<lambda>x u. node_page_id x = pid u \<and> strip (node_page x) = tnode u \<and> children x = []) new us"
      "pool_state E V {} {} {} (Suc n) r s1" by auto
    have "bfs_loop (Suc fuel) w s = bind_op (add_children a l (map pid us) ?w) (bfs_loop fuel) s" for fuel
      using q r InternalPage ns ids by (subst bfs_loop.simps) (simp add: Let_def)
    with add show ?thesis by (intro exI conjI) (auto simp: bind_op_Inr)
  qed
qed

definition expanded :: "bptree_node list \<Rightarrow> nat \<Rightarrow> btree \<Rightarrow> bool" where
  "expanded ns a t \<longleftrightarrow> stands_for ns a t \<and> length (children (ns ! a)) = length (kids t)"

lemma fresh_new:
  assumes "list_all2 (\<lambda>x u. node_page_id x = pid u \<and> strip (node_page x) = tnode u \<and> children x = []) new us" and "length ns = k"
  shows "list_all2 (fresh_for (ns @ new)) [k..<k + length us] us"
  using assms by (auto simp: list_all2_conv_all_nth fresh_for_def stands_for_def nth_append)

lemma fresh_mono:
  assumes "list_all2 (fresh_for ns) as ts" and "length ns \<le> length ns'" and "\<forall>a \<in> set as. ns' ! a = ns ! a"
  shows "list_all2 (fresh_for ns') as ts"
  using assms by (auto simp: list_all2_conv_all_nth fresh_for_def stands_for_def)

text \<open>One level: its nodes leave the queue, get their children, and the children of all of them follow in order.\<close>

lemma bfs_level:
  fixes s :: "'z tree_scheme"
  assumes "pool_state E V {} {} {} (Suc n) r s" and "wk_queue w = map (\<lambda>a. (a, l)) as @ map (\<lambda>b. (b, Suc l)) bs"
    and "wk_result w = R @ (if dn = [] then [] else [dn])" and "length R = l" and "list_all2 (fresh_for (wk_nodes w)) as ts" and "distinct as"
    and "\<forall>t \<in> set ts. stored V t" and "ns = wk_nodes w"
  shows "\<exists>w' s'. (\<forall>fuel. bfs_loop (length as + fuel) w s = bfs_loop fuel w' s') \<and> pool_state E V {} {} {} (Suc n) r s' \<and>
    wk_queue w' = map (\<lambda>b. (b, Suc l)) (bs @ [length ns..<length (wk_nodes w')]) \<and>
    wk_result w' = R @ (if dn @ as = [] then [] else [dn @ as]) \<and> length ns \<le> length (wk_nodes w') \<and>
    list_all2 (expanded (wk_nodes w')) as ts \<and> concat (map (\<lambda>a. children (wk_nodes w' ! a)) as) = [length ns..<length (wk_nodes w')] \<and>
    list_all2 (fresh_for (wk_nodes w')) [length ns..<length (wk_nodes w')] (concat (map kids ts)) \<and>
    (\<forall>a < length ns. a \<notin> set as \<longrightarrow> wk_nodes w' ! a = ns ! a)"
  using assms
proof (induction as arbitrary: ts w s bs dn ns)
  case Nil
  then show ?case by (intro exI [of _ w] exI [of _ s]) auto
next
  case (Cons a as)
  from Cons.prems(5) obtain t ts' where ts: "ts = t # ts'" "fresh_for (wk_nodes w) a t" "list_all2 (fresh_for (wk_nodes w)) as ts'"
    by (auto simp: list_all2_Cons1)
  have "\<exists>w1 s1 new. (\<forall>fuel. bfs_loop (Suc fuel) w s = bfs_loop fuel w1 s1) \<and> pool_state E V {} {} {} (Suc n) r s1 \<and>
     wk_nodes w1 = ns[a := BPlusTreeNode (node_page_id (ns ! a)) (node_page (ns ! a)) [length ns..<length ns + length (kids t)]] @ new \<and>
     wk_queue w1 = (map (\<lambda>a. (a, l)) as @ map (\<lambda>b. (b, Suc l)) bs) @ map (\<lambda>b. (b, Suc l)) [length ns..<length ns + length (kids t)] \<and>
     wk_result w1 = R @ [dn @ [a]] \<and>
     list_all2 (\<lambda>x u. node_page_id x = pid u \<and> strip (node_page x) = tnode u \<and> children x = []) new (kids t)"
    by (rule bfs_step [OF Cons.prems(1) _ Cons.prems(3,4) ts(2) _ Cons.prems(8) refl]) (use Cons.prems(2,7) ts in auto)
  then obtain w1 s1 new where w1: "\<forall>fuel. bfs_loop (Suc fuel) w s = bfs_loop fuel w1 s1" "pool_state E V {} {} {} (Suc n) r s1"
     "wk_nodes w1 = ns[a := BPlusTreeNode (node_page_id (ns ! a)) (node_page (ns ! a)) [length ns..<length ns + length (kids t)]] @ new"
     "wk_queue w1 = map (\<lambda>a. (a, l)) as @ map (\<lambda>b. (b, Suc l)) (bs @ [length ns..<length ns + length (kids t)])"
     "wk_result w1 = R @ [dn @ [a]]"
     "list_all2 (\<lambda>x u. node_page_id x = pid u \<and> strip (node_page x) = tnode u \<and> children x = []) new (kids t)" by auto
  have la: "a < length ns" "stands_for ns a t" using ts(2) Cons.prems(8) by (auto simp: fresh_for_def stands_for_def)
  have len1: "length (wk_nodes w1) = length ns + length (kids t)" using w1(3,6) by (auto dest: list_all2_lengthD)
  have less: "b < length ns" if "b \<in> set as" for b using ts(3) Cons.prems(8) that by (fastforce simp: list_all2_conv_all_nth in_set_conv_nth fresh_for_def stands_for_def)
  have same1: "wk_nodes w1 ! b = ns ! b" if "b < length ns" "b \<noteq> a" for b using that w1(3) by (simp add: nth_append)
  have "list_all2 (fresh_for (wk_nodes w1)) as ts'"
    by (rule fresh_mono [OF ts(3)]) (use len1 Cons.prems(6,8) less same1 in auto)
  from Cons.IH [OF w1(2,4) _ Cons.prems(4) this, of "dn @ [a]" "wk_nodes w1"] Cons.prems(6,7) ts(1) w1(5) obtain w' s' where
    w': "\<forall>fuel. bfs_loop (length as + fuel) w1 s1 = bfs_loop fuel w' s'" "pool_state E V {} {} {} (Suc n) r s'"
    "wk_queue w' = map (\<lambda>b. (b, Suc l)) ((bs @ [length ns..<length ns + length (kids t)]) @ [length (wk_nodes w1)..<length (wk_nodes w')])"
    "wk_result w' = R @ [(dn @ [a]) @ as]" "length (wk_nodes w1) \<le> length (wk_nodes w')"
    "list_all2 (expanded (wk_nodes w')) as ts'" "concat (map (\<lambda>a. children (wk_nodes w' ! a)) as) = [length (wk_nodes w1)..<length (wk_nodes w')]"
    "list_all2 (fresh_for (wk_nodes w')) [length (wk_nodes w1)..<length (wk_nodes w')] (concat (map kids ts'))"
    "\<forall>b < length (wk_nodes w1). b \<notin> set as \<longrightarrow> wk_nodes w' ! b = wk_nodes w1 ! b" by auto
  have upt: "[length ns..<length ns + length (kids t)] @ [length (wk_nodes w1)..<length (wk_nodes w')] = [length ns..<length (wk_nodes w')]"
    using w'(5) len1 by (metis le_add1 upt_add_eq_append le_Suc_ex)
  have at_a: "wk_nodes w' ! a = BPlusTreeNode (node_page_id (ns ! a)) (node_page (ns ! a)) [length ns..<length ns + length (kids t)]"
    using w'(9) la(1) len1 Cons.prems(6) w1(3) by (simp add: nth_append)
  have out: "b \<notin> set as" if "length ns \<le> b" for b using less [of b] that by auto
  have "list_all2 (fresh_for (wk_nodes w1)) [length ns..<length ns + length (kids t)] (kids t)"
    unfolding w1(3) by (rule fresh_new [OF w1(6)]) simp
  then have new: "list_all2 (fresh_for (wk_nodes w')) [length ns..<length ns + length (kids t)] (kids t)"
    by (rule fresh_mono) (use w'(5,9) len1 out in simp_all)
  have "list_all2 (expanded (wk_nodes w')) (a # as) ts"
    using w'(5,6) at_a la len1 ts(1) by (simp add: expanded_def stands_for_def)
  moreover have "concat (map (\<lambda>a. children (wk_nodes w' ! a)) (a # as)) = [length ns..<length (wk_nodes w')]"
    using at_a w'(7) upt by simp
  moreover have "list_all2 (fresh_for (wk_nodes w')) [length ns..<length (wk_nodes w')] (concat (map kids ts))"
    unfolding upt [symmetric] ts(1) by (simp add: list_all2_appendI [OF new w'(8)])
  moreover have "\<forall>b < length ns. b \<notin> set (a # as) \<longrightarrow> wk_nodes w' ! b = ns ! b"
    using w'(9) same1 len1 by simp
  moreover have "bfs_loop (length (a # as) + fuel) w s = bfs_loop fuel w' s'" for fuel
    using w1(1) w'(1) by simp
  moreover have "wk_queue w' = map (\<lambda>b. (b, Suc l)) (bs @ [length ns..<length (wk_nodes w')])"
    using w'(3) unfolding upt [symmetric] by simp
  ultimately show ?case using w'(2,4,5) len1 by (intro exI [of _ w'] exI [of _ s']) simp
qed

inductive mirrors :: "bptree_node list \<Rightarrow> nat \<Rightarrow> btree \<Rightarrow> bool" for ns where
  mirrors: "stands_for ns a t \<Longrightarrow> list_all2 (mirrors ns) (children (ns ! a)) (kids t) \<Longrightarrow> mirrors ns a t"

inductive_simps mirrors_iff: "mirrors ns a t"

lemma mirrors_level:
  assumes e: "list_all2 (expanded ns) as ts" and kids: "list_all2 (mirrors ns') (concat (map (\<lambda>a. children (ns ! a)) as)) (concat (map kids ts))"
    and ns: "length ns \<le> length ns'" "\<forall>a \<in> set as. ns' ! a = ns ! a"
  shows "list_all2 (mirrors ns') as ts"
proof -
  have "list_all2 (\<lambda>xs ys. length xs = length ys) (map (\<lambda>a. children (ns ! a)) as) (map kids ts)"
    using e by (auto simp: list_all2_conv_all_nth expanded_def)
  from list_all2_concat_split [OF this kids] e show ?thesis
    using ns by (auto simp: list_all2_conv_all_nth expanded_def stands_for_def intro!: mirrors)
qed

lemma kids_nonempty: "depth_ok (Suc h) t \<Longrightarrow> kids t \<noteq> []"
  by (cases t) auto

lemma depth_zero: "depth_ok 0 t \<Longrightarrow> kids t = []"
  by (cases t) auto

lemma bfs_whole_level:
  fixes s :: "'z tree_scheme"
  assumes "pool_state E V {} {} {} (Suc n) r s" and "wk_queue w = map (\<lambda>a. (a, length (wk_result w))) as" and "as \<noteq> []"
    and "list_all2 (fresh_for (wk_nodes w)) as ts" and "distinct as" and "\<forall>t \<in> set ts. stored V t \<and> depth_ok h t"
  obtains w1 s1 where "\<forall>fuel. bfs_loop (length as + fuel) w s = bfs_loop fuel w1 s1" "pool_state E V {} {} {} (Suc n) r s1"
    "wk_queue w1 = map (\<lambda>b. (b, Suc (length (wk_result w)))) [length (wk_nodes w)..<length (wk_nodes w1)]"
    "wk_result w1 = wk_result w @ [as]" "length (wk_nodes w) \<le> length (wk_nodes w1)" "list_all2 (expanded (wk_nodes w1)) as ts"
    "concat (map (\<lambda>a. children (wk_nodes w1 ! a)) as) = [length (wk_nodes w)..<length (wk_nodes w1)]"
    "list_all2 (fresh_for (wk_nodes w1)) [length (wk_nodes w)..<length (wk_nodes w1)] (concat (map kids ts))"
    "\<forall>a < length (wk_nodes w). a \<notin> set as \<longrightarrow> wk_nodes w1 ! a = wk_nodes w ! a"
  using bfs_level [where n = n and E = E and V = V and r = r and s = s and w = w and l = "length (wk_result w)" and as = as and ts = ts and ns = "wk_nodes w" and bs = "[]" and dn = "[]" and R = "wk_result w"] assms by auto

lemma leaf_count: "\<forall>t \<in> set ts. depth_ok 0 t \<Longrightarrow> sum_list (map (\<lambda>t. length (pages t)) ts) = length ts"
proof (induction ts)
  case (Cons t ts)
  then show ?case by (cases t) auto
qed simp

lemma pages_count:
  "sum_list (map (\<lambda>t. length (pages t)) ts) = length ts + sum_list (map (\<lambda>t. length (pages t)) (concat (map kids ts)))"
proof (induction ts)
  case (Cons t ts)
  then show ?case using length_pages_kids [of t] by simp
qed simp

lemma bfs_levels:
  fixes s :: "'z tree_scheme"
  assumes "pool_state E V {} {} {} (Suc n) r s" and "wk_queue w = map (\<lambda>a. (a, length (wk_result w))) as" and "as \<noteq> []"
    and "list_all2 (fresh_for (wk_nodes w)) as ts" and "distinct as" and "\<forall>t \<in> set ts. stored V t \<and> depth_ok h t" 
  shows "\<exists>w' s' lv. (\<forall>fuel. bfs_loop (sum_list (map (\<lambda>t. length (pages t)) ts) + fuel) w s = (Inr w', s')) \<and>
    pool_state E V {} {} {} (Suc n) r s' \<and> wk_result w' = wk_result w @ as # lv \<and>
    list_all2 (list_all2 (mirrors (wk_nodes w'))) (as # lv) (tree_levels h ts) \<and>
    length (wk_nodes w) + h \<le> length (wk_nodes w') \<and> (\<forall>a < length (wk_nodes w). a \<notin> set as \<longrightarrow> wk_nodes w' ! a = wk_nodes w ! a)"
  using assms
proof (induction h arbitrary: w s as ts)
  case 0
  have len: "length as = length ts" using 0(4) by (rule list_all2_lengthD)
  obtain w1 s1 where w1: "\<forall>fuel. bfs_loop (length as + fuel) w s = bfs_loop fuel w1 s1" "pool_state E V {} {} {} (Suc n) r s1"
    "wk_queue w1 = map (\<lambda>b. (b, Suc (length (wk_result w)))) [length (wk_nodes w)..<length (wk_nodes w1)]"
    "wk_result w1 = wk_result w @ [as]" "length (wk_nodes w) \<le> length (wk_nodes w1)" "list_all2 (expanded (wk_nodes w1)) as ts"
    "concat (map (\<lambda>a. children (wk_nodes w1 ! a)) as) = [length (wk_nodes w)..<length (wk_nodes w1)]"
    "list_all2 (fresh_for (wk_nodes w1)) [length (wk_nodes w)..<length (wk_nodes w1)] (concat (map kids ts))"
    "\<forall>a < length (wk_nodes w). a \<notin> set as \<longrightarrow> wk_nodes w1 ! a = wk_nodes w ! a"
    by (rule bfs_whole_level [OF 0])
  have k: "concat (map kids ts) = []" using 0(6) depth_zero by auto
  have cnt: "sum_list (map (\<lambda>t. length (pages t)) ts) = length as" using leaf_count [of ts] 0(6) len by simp
  have e: "length (wk_nodes w1) = length (wk_nodes w)" using w1(5,8) k by auto
  have "bfs_loop fuel w1 s1 = (Inr w1, s1)" for fuel using w1(3) e by (subst bfs_loop.simps) simp
  moreover have "list_all2 (mirrors (wk_nodes w1)) (concat (map (\<lambda>a. children (wk_nodes w1 ! a)) as)) (concat (map kids ts))"
    unfolding w1(7) k e by simp
  then have "list_all2 (mirrors (wk_nodes w1)) as ts" by (rule mirrors_level [OF w1(6)]) simp_all
  ultimately show ?case using w1 cnt by (intro exI [of _ w1] exI [of _ s1] exI [of _ "[]"]) simp
next
  case (Suc h)
  have len: "length as = length ts" using Suc.prems(4) by (rule list_all2_lengthD)
  obtain w1 s1 where w1: "\<forall>fuel. bfs_loop (length as + fuel) w s = bfs_loop fuel w1 s1" "pool_state E V {} {} {} (Suc n) r s1"
    "wk_queue w1 = map (\<lambda>b. (b, Suc (length (wk_result w)))) [length (wk_nodes w)..<length (wk_nodes w1)]"
    "wk_result w1 = wk_result w @ [as]" "length (wk_nodes w) \<le> length (wk_nodes w1)" "list_all2 (expanded (wk_nodes w1)) as ts"
    "concat (map (\<lambda>a. children (wk_nodes w1 ! a)) as) = [length (wk_nodes w)..<length (wk_nodes w1)]"
    "list_all2 (fresh_for (wk_nodes w1)) [length (wk_nodes w)..<length (wk_nodes w1)] (concat (map kids ts))"
    "\<forall>a < length (wk_nodes w). a \<notin> set as \<longrightarrow> wk_nodes w1 ! a = wk_nodes w ! a"
    by (rule bfs_whole_level [OF Suc.prems])
  let ?as = "[length (wk_nodes w)..<length (wk_nodes w1)]" and ?us = "concat (map kids ts)"
  have cnt: "sum_list (map (\<lambda>t. length (pages t)) ts) = length as + sum_list (map (\<lambda>t. length (pages t)) ?us)"
    unfolding len by (rule pages_count)
  obtain t ts' where ts: "ts = t # ts'" using len Suc.prems(3) by (cases ts) auto
  then have "?us \<noteq> []" using kids_nonempty [of h t] Suc.prems(6) by simp
  then have ne: "?as \<noteq> []" using w1(8) by (metis list_all2_Nil)
  have ok: "\<forall>u \<in> set ?us. stored V u \<and> depth_ok h u" using Suc.prems(6) stored_kids depth_kids by auto
  from Suc.IH [OF w1(2) _ ne w1(8) _ ok] w1(3,4) obtain w' s' lv where
    w': "\<forall>fuel. bfs_loop (sum_list (map (\<lambda>t. length (pages t)) ?us) + fuel) w1 s1 = (Inr w', s')" "pool_state E V {} {} {} (Suc n) r s'"
    "wk_result w' = wk_result w1 @ ?as # lv" "list_all2 (list_all2 (mirrors (wk_nodes w'))) (?as # lv) (tree_levels h ?us)"
    "length (wk_nodes w1) + h \<le> length (wk_nodes w')" "\<forall>a < length (wk_nodes w1). a \<notin> set ?as \<longrightarrow> wk_nodes w' ! a = wk_nodes w1 ! a" by auto
  have old: "\<forall>a \<in> set as. a < length (wk_nodes w)"
    using Suc.prems(4) by (fastforce simp: list_all2_conv_all_nth in_set_conv_nth fresh_for_def stands_for_def)
  have "list_all2 (mirrors (wk_nodes w')) ?as ?us" using w'(4) by (cases h) auto
  then have "list_all2 (mirrors (wk_nodes w')) as ts"
    by (intro mirrors_level [OF w1(6)]) (use w1(5,7) w'(5,6) old in auto)
  then have "list_all2 (list_all2 (mirrors (wk_nodes w'))) (as # ?as # lv) (tree_levels (Suc h) ts)" using w'(4) by simp
  moreover have "bfs_loop (sum_list (map (\<lambda>t. length (pages t)) ts) + fuel) w s = (Inr w', s')" for fuel
    using w1(1) w'(1) unfolding cnt by (simp add: add.assoc)
  moreover have "\<forall>a < length (wk_nodes w). a \<notin> set as \<longrightarrow> wk_nodes w' ! a = wk_nodes w ! a" using w1(5,9) w'(6) by auto
  moreover have "length (wk_nodes w) + Suc h \<le> length (wk_nodes w')" using ne w'(5) by simp
  ultimately show ?case using w1(4) w'(2,3) by (intro exI [of _ w'] exI [of _ s'] exI [of _ "?as # lv"]) simp
qed

text \<open>The walk of a stored tree: it ends, and finds the levels of the tree.\<close>

lemma bfs_walk_tree_ok:
  fixes s :: "'z tree_scheme"
  assumes st: "pool_state E (map_of (pages T)) {} {} {} (Suc n) (pid T) s" and d: "distinct (map fst (pages T))" and dep: "depth_ok h T"
  obtains w s' where "bfs_walk_tree s = (Inr w, s')" "pool_state E (map_of (pages T)) {} {} {} (Suc n) (pid T) s'"
    "list_all2 (list_all2 (mirrors (wk_nodes w))) (wk_result w) (tree_levels h [T])" "h \<le> length (wk_nodes w)"
proof -
  let ?V = "map_of (pages T)"
  have sto: "stored ?V T" using d by (auto simp: stored_def)
  from fetch_again [OF st stored_root [OF sto]] obtain y s1 where
    y: "pool_get (pid T) s = (Inr y, s1)" "strip y = tnode T" "pool_state E ?V {} {} {} (Suc n) (pid T) s1" .
  let ?w = "\<lparr>wk_nodes = [BPlusTreeNode (pid T) y []], wk_queue = [(0, 0)], wk_result = []\<rparr>"
  have "list_all2 (fresh_for (wk_nodes ?w)) [0] [T]" using y(2) by (simp add: fresh_for_def stands_for_def)
  from bfs_levels [OF y(3) _ _ this, of h] sto dep obtain w' s' lv where
    w': "\<forall>fuel. bfs_loop (length (pages T) + fuel) ?w s1 = (Inr w', s')" "pool_state E ?V {} {} {} (Suc n) (pid T) s'"
    "wk_result w' = [0] # lv" "list_all2 (list_all2 (mirrors (wk_nodes w'))) ([0] # lv) (tree_levels h [T])"
    "h \<le> length (wk_nodes w')" by auto
  obtain fuel where "page_limit s1 = length (pages T) + fuel" using pool_state_pages(1) [OF y(3) d] le_Suc_ex by blast
  then have "bfs_walk_tree s = (Inr w', s')"
    using tree_meta(1) [OF st] y(1) w'(1) by (simp add: bfs_walk_tree_def page_id_to_node_def bind_op_def)
  moreover have "list_all2 (list_all2 (mirrors (wk_nodes w'))) (wk_result w') (tree_levels h [T])" unfolding w'(3) by (rule w'(4))
  ultimately show thesis using w'(2,5) that by blast
qed

section \<open>The checks on one node\<close>

definition filled :: "btree \<Rightarrow> bool" where
  "filled t \<longleftrightarrow> (\<forall>p q ss. LeafI p q ss \<in> set (leaf_seq t) \<longrightarrow> ss \<noteq> [])"

lemma leaf_seq_kids: "u \<in> set (kids t) \<Longrightarrow> set (leaf_seq u) \<subseteq> set (leaf_seq t)"
  by (cases t) (fastforce simp: row_seq_def)+

lemma filled_kids: "filled t \<Longrightarrow> u \<in> set (kids t) \<Longrightarrow> filled u"
  using leaf_seq_kids unfolding filled_def by blast

lemma marks_row: "(k, u) \<in> set kts \<Longrightarrow> \<exists>A B. marks (row_seq kts) = A @ marks (leaf_seq u) @ B"
proof -
  assume "(k, u) \<in> set kts"
  then obtain X Y where "kts = X @ (k, u) # Y" by (auto dest: split_list)
  then have "marks (row_seq kts) = (marks (row_seq X) @ [(k, False)]) @ marks (leaf_seq u) @ marks (row_seq Y)" by simp
  then show ?thesis by blast
qed

lemma sorted_kids:
  assumes "sorted_wrt (<) (marks (leaf_seq t))" and "u \<in> set (kids t)"
  shows "sorted_wrt (<) (marks (leaf_seq u))"
proof (cases t)
  case (Nd p c kts)
  show ?thesis
  proof (cases "u = c")
    case False
    then obtain k where "(k, u) \<in> set kts" using assms(2) Nd by auto
    from marks_row [OF this] show ?thesis using assms(1) Nd by (auto simp: sorted_wrt_append)
  qed (use assms(1) Nd in \<open>simp add: sorted_wrt_append\<close>)
qed (use assms in simp)

lemma entries_kids: "kids t \<noteq> [] \<Longrightarrow> entries (leaf_seq t) = concat (map (\<lambda>u. entries (leaf_seq u)) (kids t))"
proof (cases t)
  case (Nd p c kts)
  have "entries (row_seq kts) = concat (map (\<lambda>u. entries (leaf_seq u)) (map snd kts))"
    by (induction kts) auto
  with Nd show ?thesis by simp
qed simp

lemma entries_ends:
  assumes "kids t \<noteq> []" and "entries (leaf_seq (last (kids t))) \<noteq> []" and "entries (leaf_seq (hd (kids t))) \<noteq> []"
  shows "entries (leaf_seq t) \<noteq> []" and "last (entries (leaf_seq t)) = last (entries (leaf_seq (last (kids t))))"
    and "hd (entries (leaf_seq t)) = hd (entries (leaf_seq (hd (kids t))))"
proof -
  let ?f = "\<lambda>u. entries (leaf_seq u)"
  have "entries (leaf_seq t) = concat (map ?f (butlast (kids t) @ [last (kids t)]))" using entries_kids assms(1) by simp
  then have "\<exists>X. entries (leaf_seq t) = X @ ?f (last (kids t))" by auto
  with assms(2) show "entries (leaf_seq t) \<noteq> []" "last (entries (leaf_seq t)) = last (?f (last (kids t)))" by auto
  have "entries (leaf_seq t) = concat (map ?f (hd (kids t) # tl (kids t)))" using entries_kids assms(1) by simp
  then have "\<exists>Y. entries (leaf_seq t) = ?f (hd (kids t)) @ Y" by auto
  with assms(3) show "hd (entries (leaf_seq t)) = hd (?f (hd (kids t)))" by auto
qed

text \<open>The node at an address that mirrors a subtree.\<close>

lemma mirrors_Lf: "mirrors ns a (Lf p q ss) \<Longrightarrow> \<exists>l. node_page (ns ! a) = LeafPage l q ss"
  by (cases "node_page (ns ! a)") (auto simp: mirrors_iff stands_for_def)

lemma mirrors_Nd:
  assumes "mirrors ns a (Nd p t kts)"
  shows "\<exists>l. node_page (ns ! a) = InternalPage l (pid t) (child_slots kts)" and "list_all2 (mirrors ns) (children (ns ! a)) (t # map snd kts)"
  using assms by (cases "node_page (ns ! a)"; auto simp: mirrors_iff [of ns a] stands_for_def)+

lemma mirrors_id: "mirrors ns a t \<Longrightarrow> node_page_id (ns ! a) = pid t" "mirrors ns a t \<Longrightarrow> strip (node_page (ns ! a)) = tnode t"
  by (simp_all add: mirrors_iff [of ns a] stands_for_def)

lemma leaf_key_ok:
  assumes "mirrors ns a t" and "depth_ok h t" and "h \<le> fuel" and "filled t"
  shows "entries (leaf_seq t) \<noteq> []" and "largest_leaf_key fuel ns a = Inr (lkey (last (entries (leaf_seq t))))"
    and "smallest_leaf_key fuel ns a = Inr (lkey (hd (entries (leaf_seq t))))"
proof -
  let ?good = "\<lambda>fuel a t. entries (leaf_seq t) \<noteq> [] \<and> largest_leaf_key fuel ns a = Inr (lkey (last (entries (leaf_seq t)))) \<and>
    smallest_leaf_key fuel ns a = Inr (lkey (hd (entries (leaf_seq t))))"
  have "?good fuel a t"
    using assms
  proof (induction h arbitrary: a t fuel)
    case 0
    then obtain p q ss where t: "t = Lf p q ss" by (cases t) auto
    with 0 obtain l where "node_page (ns ! a) = LeafPage l q ss" using mirrors_Lf by blast
    with 0 t show ?case by (auto simp: largest_leaf_key.simps [of fuel ns a] smallest_leaf_key.simps [of fuel ns a] filled_def)
  next
    case (Suc h)
    then obtain p c kts where t: "t = Nd p c kts" by (cases t) auto
    obtain f where f: "fuel = Suc f" "h \<le> f" using Suc.prems(3) by (cases fuel) auto
    let ?cs = "children (ns ! a)"
    note m = mirrors_Nd [OF Suc.prems(1) [unfolded t]]
    then obtain l where page: "node_page (ns ! a) = InternalPage l (pid c) (child_slots kts)" by blast
    have ks: "list_all2 (mirrors ns) ?cs (kids t)" "kids t \<noteq> []" using m(2) t by simp_all
    then have ne: "?cs \<noteq> []" by auto
    have ends: "mirrors ns (hd ?cs) (hd (kids t))" "mirrors ns (last ?cs) (last (kids t))"
      using ks ne by (auto simp: list_all2_conv_all_nth hd_conv_nth last_conv_nth)
    have sub: "depth_ok h u" "filled u" if "u \<in> set (kids t)" for u
      using that depth_kids [OF Suc.prems(2)] filled_kids [OF Suc.prems(4)] by blast+
    have IH: "?good f (last ?cs) (last (kids t))" "?good f (hd ?cs) (hd (kids t))"
      using Suc.IH [OF ends(2) _ f(2)] Suc.IH [OF ends(1) _ f(2)] sub ks(2) by simp_all
    with entries_ends [OF ks(2)] show ?case
      using page ne f(1) by (simp add: largest_leaf_key.simps [of "Suc f" ns a] smallest_leaf_key.simps [of "Suc f" ns a])
  qed
  then show "entries (leaf_seq t) \<noteq> []" "largest_leaf_key fuel ns a = Inr (lkey (last (entries (leaf_seq t))))"
    "smallest_leaf_key fuel ns a = Inr (lkey (hd (entries (leaf_seq t))))" by simp_all
qed

lemma check_separators_ok:
  assumes "list_all2 (mirrors ns) as (t # map snd kts)" and "sorted_wrt (<) (marks (leaf_seq t @ row_seq kts))"
    and "\<forall>u \<in> set (t # map snd kts). depth_ok h u \<and> filled u" and "h \<le> fuel"
  shows "check_separators fuel ns as (map fst kts) s = (Inr (), s)"
  using assms
proof (induction kts arbitrary: as t)
  case Nil
  then show ?case by simp
next
  case (Cons ku kts)
  obtain k u where ku: "ku = (k, u)" by fastforce
  from Cons.prems(1) ku obtain a b as' where as: "as = a # b # as'" "mirrors ns a t" "mirrors ns b u" "list_all2 (mirrors ns) (b # as') (u # map snd kts)"
    by (auto simp: list_all2_Cons2)
  have d: "depth_ok h t" "filled t" "depth_ok h u" "filled u" using Cons.prems(3) ku by auto
  note t = leaf_key_ok [OF as(2) d(1) Cons.prems(4) d(2)] and u = leaf_key_ok [OF as(3) d(3) Cons.prems(4) d(4)]
  have "(lkey (last (entries (leaf_seq t))), True) \<in> set (marks (leaf_seq t))" "(lkey (hd (entries (leaf_seq u))), True) \<in> set (marks (leaf_seq u))"
    using t(1) u(1) by (auto simp: set_marks_entries)
  then have "(lkey (last (entries (leaf_seq t))), True) < (k, False)" "(k, False) < (lkey (hd (entries (leaf_seq u))), True)"
    using Cons.prems(2) ku by (auto simp: sorted_wrt_append)
  then have "lkey (last (entries (leaf_seq t))) < k" "k \<le> lkey (hd (entries (leaf_seq u)))" by (auto simp: mark_order)
  moreover have "check_separators fuel ns (b # as') (map fst kts) s = (Inr (), s)"
    by (rule Cons.IH [OF as(4)]) (use Cons.prems(2-4) ku in \<open>auto simp: sorted_wrt_append\<close>)
  ultimately show ?case using t(2) u(3) as(1) ku by (simp add: bind_op_def)
qed

lemma slots_sorted:
  assumes "strip y = tnode t" and "sorted_wrt (<) (marks (leaf_seq t))"
  shows "sorted (slot_keys y)"
proof (cases t)
  case (Lf p q ss)
  then have "slot_keys y = map lkey ss" using assms(1) by (cases y) auto
  with assms(2) Lf show ?thesis by (auto simp: sorted_map sorted_wrt_map mark_order elim: sorted_wrt_mono_rel [rotated])
next
  case (Nd p c kts)
  then have y: "slot_keys y = map fst kts" using assms(1) by (cases y) (auto simp: child_slots_def)
  have "sorted (map fst kts)" if "sorted_wrt (<) (marks (row_seq kts))" for kts
    using that
  proof (induction kts)
    case (Cons kt kts)
    obtain k t where kt: "kt = (k, t)" by fastforce
    have "(k', False) \<in> set (marks (row_seq kts))" if "k' \<in> fst ` set kts" for k'
      using that split_list by fastforce
    then have "(k, False) < (k', False)" if "k' \<in> fst ` set kts" for k' using Cons.prems kt that by (simp add: sorted_wrt_append)
    then have "k \<le> k'" if "k' \<in> fst ` set kts" for k' using that by (simp add: mark_order less_imp_le)
    with Cons kt show ?case by (simp add: sorted_wrt_append)
  qed simp
  moreover have "sorted_wrt (<) (marks (row_seq kts))" using assms(2) Nd by (simp add: sorted_wrt_append)
  ultimately show ?thesis using y by simp
qed

text \<open>What the loop over the nodes finds: only the fill of a page below the root can fail.\<close>

definition visited :: "nat \<Rightarrow> nat \<Rightarrow> btree \<Rightarrow> bool" where
  "visited H h t \<longleftrightarrow> depth_ok h t \<and> sorted_wrt (<) (marks (leaf_seq t)) \<and> (0 < H \<longrightarrow> filled t)"

lemma visited_kids: "visited H (Suc h) t \<Longrightarrow> u \<in> set (kids t) \<Longrightarrow> visited H h u"
  using depth_kids sorted_kids filled_kids unfolding visited_def by blast

lemma check_node_ok:
  fixes s :: "'z tree_scheme"
  assumes m: "mirrors ns a t" and t: "visited H h t" and i: "i + h = H" and id: "pid t < next" and ps: "tree_page_size s = (Inr ps, s)" and len: "h \<le> length ns"
  shows "check_node ns next (Suc H) i a s = (if 0 < i \<and> is_page_underpopulated ps (tnode t) then Inl AssertionError else Inr (), s)"
proof -
  let ?y = "node_page (ns ! a)"
  have y: "strip ?y = tnode t" "node_page_id (ns ! a) = pid t" using mirrors_id [OF m] by simp_all
  have dep: "depth_ok h t" and srt: "sorted_wrt (<) (marks (leaf_seq t))" using t by (simp_all add: visited_def)
  have "sorted (slot_keys ?y)" by (rule slots_sorted [OF y(1) srt])
  then have sorted: "\<not> list_ex (\<lambda>i. \<not> slot_keys ?y ! i \<le> slot_keys ?y ! (i + 1)) [0..<length (slot_keys ?y) - 1]"
    by (auto simp: list_ex_iff intro: sorted_nth_mono)
  have und: "is_page_underpopulated ps ?y = is_page_underpopulated ps (tnode t)"
    using strip_size [of ?y] y(1) by (simp add: is_page_underpopulated_def)
  show ?thesis
  proof (cases h)
    case 0
    then obtain p q ss where lf: "t = Lf p q ss" using dep by (cases t) auto
    obtain l where page: "?y = LeafPage l q ss" using mirrors_Lf m lf by blast
    show ?thesis using i 0 y(2) id sorted und ps page lf
      by (simp add: check_node_def Let_def bind_op_def raise_invariant_error_def)
  next
    case (Suc g)
    then obtain p c kts where nd: "t = Nd p c kts" using dep by (cases t) auto
    note mn = mirrors_Nd [OF m [unfolded nd]]
    then obtain l where page: "?y = InternalPage l (pid c) (child_slots kts)" by blast
    have keys: "slot_keys ?y = map fst kts" using page by (auto simp: child_slots_def)
    have "visited H g u" if "u \<in> set (c # map snd kts)" for u using visited_kids [of H g t u] t that nd Suc by simp
    then have "\<forall>u \<in> set (c # map snd kts). depth_ok g u \<and> filled u" using i Suc unfolding visited_def by blast
    from check_separators_ok [OF mn(2) _ this, of "length ns" s] srt nd Suc len
    have "check_separators (length ns) ns (children (ns ! a)) (map fst kts) s = (Inr (), s)" by simp
    then show ?thesis using i Suc y(2) id sorted und ps page nd keys
      by (simp add: check_node_def Let_def bind_op_def raise_invariant_error_def)
  qed
qed

lemma check_level_ok:
  fixes s :: "'z tree_scheme"
  assumes "list_all2 (mirrors ns) as ts" and "\<forall>t \<in> set ts. visited H h t \<and> pid t < next" and "i + h = H"
    and "tree_page_size s = (Inr ps, s)" and "h \<le> length ns"
  shows "check_level ns next (Suc H) i as s =
    (if 0 < i \<and> (\<exists>t \<in> set ts. is_page_underpopulated ps (tnode t)) then Inl AssertionError else Inr (), s)"
  using assms
proof (induction as ts)
  case (Cons a as t ts)
  then show ?case using check_node_ok [of ns a t H h i "next" s ps] by (auto simp: bind_op_def)
qed simp

lemma below_kids: "below t = concat (map pages (kids t))"
  by (simp add: below_def pages_kids [of t])

lemma pages_kid: "u \<in> set (kids t) \<Longrightarrow> set (pages u) \<subseteq> set (pages t)"
  by (auto simp: pages_kids [of t])

lemma below_row:
  "(\<exists>t \<in> set ts. \<exists>(p, x) \<in> set (below t). P x) \<longleftrightarrow>
     (\<exists>u \<in> set (concat (map kids ts)). P (tnode u) \<or> (\<exists>(p, x) \<in> set (below u). P x))"
proof -
  have "(\<exists>(p, x) \<in> set (pages u). P x) \<longleftrightarrow> P (tnode u) \<or> (\<exists>(p, x) \<in> set (below u). P x)" for u
    unfolding pages_below [of u] by auto
  then have "(\<exists>u \<in> set us. P (tnode u) \<or> (\<exists>(p, x) \<in> set (below u). P x)) \<longleftrightarrow> (\<exists>u \<in> set us. \<exists>(p, x) \<in> set (pages u). P x)" for us
    by simp
  then show ?thesis unfolding below_kids by auto
qed

lemma check_levels_ok:
  fixes s :: "'z tree_scheme"
  assumes "list_all2 (list_all2 (mirrors ns)) lvs (tree_levels h ts)" and "\<forall>t \<in> set ts. visited H h t" and "i + h = H"
    and "\<forall>t \<in> set ts. \<forall>(p, x) \<in> set (pages t). p < next" and "tree_page_size s = (Inr ps, s)" and "H \<le> length ns"
  shows "check_levels ns next (Suc H) i lvs s =
    (if (0 < i \<and> (\<exists>t \<in> set ts. is_page_underpopulated ps (tnode t))) \<or> (\<exists>t \<in> set ts. \<exists>(p, x) \<in> set (below t). is_page_underpopulated ps x)
     then Inl AssertionError else Inr (), s)"
  using assms
proof (induction h arbitrary: i ts lvs)
  case 0
  from 0(1) obtain as where as: "lvs = [as]" "list_all2 (mirrors ns) as ts" by (auto simp: list_all2_Cons2)
  have "\<forall>t \<in> set ts. below t = []" using 0(2) depth_zero by (simp add: below_kids visited_def)
  moreover have "\<forall>t \<in> set ts. pid t < next" using 0(4) by (simp add: pages_below)
  ultimately show ?case using check_level_ok [OF as(2), of H 0 "next" i s ps] as(1) 0(2,3,5,6) by (simp add: bind_op_def)
next
  case (Suc h)
  let ?us = "concat (map kids ts)" and ?bad = "is_page_underpopulated ps"
  from Suc.prems(1) obtain as lvs' where as: "lvs = as # lvs'" "list_all2 (mirrors ns) as ts" "list_all2 (list_all2 (mirrors ns)) lvs' (tree_levels h ?us)"
    by (auto simp: list_all2_Cons2)
  have "\<forall>t \<in> set ts. pid t < next" using Suc.prems(4) by (simp add: pages_below)
  with check_level_ok [OF as(2), of H "Suc h" "next" i s ps] Suc.prems(2,3,5,6)
  have here: "check_level ns next (Suc H) i as s = (if 0 < i \<and> (\<exists>t \<in> set ts. ?bad (tnode t)) then Inl AssertionError else Inr (), s)"
    by simp
  have vis: "\<forall>u \<in> set ?us. visited H h u" using Suc.prems(2) visited_kids by auto
  have lim: "\<forall>u \<in> set ?us. \<forall>(p, x) \<in> set (pages u). p < next" using Suc.prems(4) pages_kid by fastforce
  have "(\<exists>u \<in> set ?us. ?bad (tnode u)) \<or> (\<exists>u \<in> set ?us. \<exists>(p, x) \<in> set (below u). ?bad x) \<longleftrightarrow> (\<exists>t \<in> set ts. \<exists>(p, x) \<in> set (below t). ?bad x)"
    unfolding below_row [of ts ?bad] by blast
  with Suc.IH [OF as(3) vis _ lim Suc.prems(5,6), of "Suc i"] Suc.prems(3)
  have "check_levels ns next (Suc H) (Suc i) lvs' s = (if \<exists>t \<in> set ts. \<exists>(p, x) \<in> set (below t). ?bad x then Inl AssertionError else Inr (), s)"
    by simp
  with here as(1) show ?case by (simp add: bind_op_def)
qed

section \<open>The chain of the leaves\<close>

fun leaf_item :: "item \<Rightarrow> bool" where
  "leaf_item (LeafI p q ss) = True"
| "leaf_item (Sep k) = False"

lemma leaf_items_kids:
  "kids t \<noteq> [] \<Longrightarrow> filter leaf_item (leaf_seq t) = concat (map (\<lambda>u. filter leaf_item (leaf_seq u)) (kids t))"
proof (cases t)
  case (Nd p c kts)
  have "filter leaf_item (row_seq kts) = concat (map (\<lambda>u. filter leaf_item (leaf_seq u)) (map snd kts))"
    by (induction kts) auto
  with Nd show ?thesis by simp
qed simp

lemma tree_levels_Nil [simp]: "tree_levels h ts \<noteq> []"
  by (cases h) simp_all

lemma leaf_items_levels:
  "\<forall>t \<in> set ts. depth_ok h t \<Longrightarrow>
     concat (map (\<lambda>t. filter leaf_item (leaf_seq t)) ts) = concat (map leaf_seq (last (tree_levels h ts)))"
proof (induction h arbitrary: ts)
  case 0
  have "filter leaf_item (leaf_seq t) = leaf_seq t" if "t \<in> set ts" for t using 0 that by (cases t) auto
  then show ?case by (simp cong: map_cong)
next
  case (Suc h)
  have "filter leaf_item (leaf_seq t) = concat (map (\<lambda>u. filter leaf_item (leaf_seq u)) (kids t))" if "t \<in> set ts" for t
    using leaf_items_kids kids_nonempty Suc.prems that by blast
  then have "concat (map (\<lambda>t. filter leaf_item (leaf_seq t)) ts) = concat (map (\<lambda>u. filter leaf_item (leaf_seq u)) (concat (map kids ts)))"
    by (induction ts) auto
  moreover have "\<forall>u \<in> set (concat (map kids ts)). depth_ok h u" using Suc.prems depth_kids by auto
  ultimately show ?case using Suc.IH by simp
qed

lemma first_leaf_items [simp]: "first_leaf z (filter leaf_item xs) = first_leaf z xs"
  by (induction z xs rule: first_leaf.induct) auto

lemma linked_items [simp]: "linked z (filter leaf_item xs) = linked z xs"
  by (induction z xs rule: linked.induct) auto

lemma marks_items: "set (marks (filter leaf_item xs)) \<subseteq> set (marks xs)"
  by (induction xs) auto

lemma sorted_items: "sorted_wrt (<) (marks xs) \<Longrightarrow> sorted_wrt (<) (marks (filter leaf_item xs))"
proof (induction xs)
  case (Cons x xs)
  have sub: "set (marks (filter leaf_item xs)) \<subseteq> set (marks xs)" by (rule marks_items)
  have "sorted_wrt (<) (marks (filter leaf_item xs))" using Cons by (simp add: sorted_wrt_append)
  moreover have "\<forall>a \<in> set (item_marks x). \<forall>b \<in> set (marks (filter leaf_item xs)). a < b"
    using Cons.prems sub unfolding seq_simps sorted_wrt_append by blast
  ultimately show ?case using Cons.prems by (simp add: sorted_wrt_append)
qed simp

lemma levels_depth: "\<forall>t \<in> set ts. depth_ok h t \<Longrightarrow> t \<in> set (last (tree_levels h ts)) \<Longrightarrow> depth_ok 0 t"
proof (induction h arbitrary: ts)
  case (Suc h)
  have "\<forall>u \<in> set (concat (map kids ts)). depth_ok h u" using Suc.prems(1) depth_kids by auto
  from Suc.IH [OF this] Suc.prems(2) show ?case by simp
qed simp

lemma distinct_row:
  assumes "distinct (map fst (concat (map pages ts)))"
  shows "distinct (map pid ts)" and "distinct (map fst (concat (map pages (concat (map kids ts)))))"
proof -
  have ids: "map fst (pages t) = pid t # map fst (below t)" for t using pages_below [of t] by simp
  have top: "pid t \<in> fst ` set (pages t)" "set (below t) \<subseteq> set (pages t)" for t by (auto simp: pages_below [of t])
  then have sub: "pid ` set ts \<subseteq> fst ` set (concat (map pages ts))" "fst ` set (concat (map below ts)) \<subseteq> fst ` set (concat (map pages ts))" for ts
    by fastforce+
  have "distinct (map pid ts) \<and> distinct (map fst (concat (map below ts)))" using assms
  proof (induction ts)
    case (Cons t ts)
    have "pid t \<notin> fst ` set (concat (map pages ts))" "fst ` set (below t) \<inter> fst ` set (concat (map pages ts)) = {}"
      "distinct (map fst (below t))" "distinct (map fst (concat (map pages ts)))"
      using Cons.prems by (auto simp: ids simp del: set_concat) 
    moreover have "pid t \<notin> pid ` set ts" using calculation(1) sub(1) [of ts] by (meson subsetD)
    moreover have "fst ` set (below t) \<inter> fst ` set (concat (map below ts)) \<subseteq> fst ` set (below t) \<inter> fst ` set (concat (map pages ts))"
      by (intro Int_mono order_refl sub(2))
    ultimately show ?case using Cons.IH by (simp del: set_concat)
  qed simp
  moreover have "concat (map pages (concat (map kids ts))) = concat (map below ts)" by (induction ts) (simp_all add: below_kids)
  ultimately show "distinct (map pid ts)" "distinct (map fst (concat (map pages (concat (map kids ts)))))" by simp_all
qed

lemma distinct_levels: "distinct (map fst (concat (map pages ts))) \<Longrightarrow> distinct (map pid (last (tree_levels h ts)))"
proof (induction h arbitrary: ts)
  case 0
  from distinct_row(1) [OF 0] show ?case by simp
next
  case (Suc h)
  from Suc.IH [OF distinct_row(2) [OF Suc.prems]] show ?case by simp
qed

lemma check_leaves_ok:
  assumes "list_all2 (mirrors ns) as L" and "\<forall>t \<in> set L. depth_ok 0 t" and "(\<forall>t \<in> set L. filled t) \<or> length L \<le> 1"
    and "linked z (concat (map leaf_seq L))" and "sorted_wrt (<) (marks (concat (map leaf_seq L)))"
    and "distinct (map pid L)" and "seen \<inter> pid ` set L = {}"
  shows "check_leaves ns seen as s = (Inr (seen \<union> pid ` set L), s)"
  using assms
proof (induction as L arbitrary: seen)
  case (Cons a as t L)
  obtain p q ss where t: "t = Lf p q ss" using Cons.prems(1) by (cases t) auto
  obtain l where page: "node_page (ns ! a) = LeafPage l q ss" using mirrors_Lf Cons.hyps(1) t by blast
  have id: "node_page_id (ns ! a) = p" using mirrors_id Cons.hyps(1) t by fastforce
  have rest: "check_leaves ns (insert p seen) as s = (Inr (insert p seen \<union> pid ` set L), s)"
    by (rule Cons.IH) (use Cons.prems t in \<open>auto simp: sorted_wrt_append\<close>)
  show ?case
  proof (cases L)
    case Nil
    then show ?thesis using Cons.hyps(2) rest page id t Cons.prems(6) by (simp add: bind_op_def Let_def)
  next
    case (Cons u L')
    then obtain b as' where b: "as = b # as'" "mirrors ns b u" using Cons.hyps(2) by (auto simp: list_all2_Cons2)
    obtain p' q' ss' where u: "u = Lf p' q' ss'" using Cons.prems(1) Cons by (cases u) auto
    obtain l' where page': "node_page (ns ! b) = LeafPage l' q' ss'" using mirrors_Lf b(2) u by blast
    have id': "node_page_id (ns ! b) = p'" using mirrors_id b(2) u by fastforce
    have ne: "ss \<noteq> []" "ss' \<noteq> []" using Cons.prems(2) Cons t u by (auto simp: filled_def)
    have "q = p'" using Cons.prems(3) t u Cons by simp
    moreover have "(lkey (last ss), True) < (lkey (hd ss'), True)"
      using Cons.prems(4) t u Cons ne by (simp add: sorted_wrt_append)
    then have "\<not> lkey (hd ss') < lkey (last ss)" by (simp add: mark_order less_imp_not_less)
    ultimately have "check_leaves ns seen (a # as) s = check_leaves ns (insert p seen) as s"
      using page id page' id' t ne b(1) Cons.prems(6)
      by (subst check_leaves.simps(2)) (simp add: bind_op_def Let_def last_map hd_map del: check_leaves.simps)
    with rest t show ?thesis by simp
  qed
qed simp

section \<open>The verdict on a well-formed tree\<close>

lemma meta_limit:
  assumes "pool_state E V R H U n r s"
  obtains m where "get_meta s = (Inr m, s)" "dom V \<subseteq> {0<..<next_page_id m}"
  using pool_okD(7) [OF assms [unfolded pool_state_def]] pool_state_limit [OF assms]
  by (auto simp: get_meta_def op_simps pager_inv_def page_limit_def)

lemma levels_filled: "\<forall>t \<in> set ts. filled t \<Longrightarrow> t \<in> set (last (tree_levels h ts)) \<Longrightarrow> filled t"
proof (induction h arbitrary: ts)
  case (Suc h)
  have "\<forall>u \<in> set (concat (map kids ts)). filled u" using Suc.prems(1) filled_kids by auto
  from Suc.IH [OF this] Suc.prems(2) show ?case by simp
qed simp

lemma length_levels: "length (tree_levels h ts) = Suc h"
  by (induction h arbitrary: ts) simp_all

text \<open>The shape and the order of a tree, whatever the fill of its pages.\<close>

definition tree_ordered :: "nat \<Rightarrow> btree \<Rightarrow> bool" where
  "tree_ordered h T \<longleftrightarrow> depth_ok h T \<and> distinct (map fst (pages T)) \<and> linked 0 (leaf_seq T) \<and>
     sorted_wrt (<) (marks (leaf_seq T)) \<and> (0 < h \<longrightarrow> filled T)"

lemma check_leaves_levels:
  assumes T: "tree_ordered h T" and m: "list_all2 (list_all2 (mirrors ns)) lvs (tree_levels h [T])"
  shows "\<exists>ids. check_leaves ns {} (last lvs) s = (Inr ids, s) \<and> card ids = length (last lvs)"
proof -
  let ?L = "last (tree_levels h [T])"
  have d: "distinct (map fst (pages T))" "depth_ok h T" "linked 0 (leaf_seq T)" "sorted_wrt (<) (marks (leaf_seq T))"
    using T by (auto simp: tree_ordered_def)
  have items: "concat (map leaf_seq ?L) = filter leaf_item (leaf_seq T)" using leaf_items_levels [of "[T]" h] d(2) by simp
  have "lvs \<noteq> []" using m by auto
  then have last: "list_all2 (mirrors ns) (last lvs) ?L"
    by (rule list_all2_last [OF m])
  have fill: "(\<forall>t \<in> set ?L. filled t) \<or> length ?L \<le> 1"
  proof (cases "h = 0")
    case False
    then have "\<forall>t \<in> set [T]. filled t" using T by (simp add: tree_ordered_def)
    then show ?thesis by (blast intro: levels_filled)
  qed simp
  have dist: "distinct (map pid ?L)" using distinct_levels [of "[T]" h] d(1) by simp
  have "check_leaves ns {} (last lvs) s = (Inr ({} \<union> pid ` set ?L), s)"
    by (rule check_leaves_ok [OF last _ fill _ _ dist]) (use levels_depth [of "[T]" h] d items sorted_items in auto)
  moreover have "card (pid ` set ?L) = length (last lvs)"
    using distinct_card [OF dist] list_all2_lengthD [OF last] by simp
  ultimately show ?thesis by simp
qed

lemma assert_tree_invariants_ok:
  fixes s :: "'z tree_scheme"
  assumes st: "pool_state E (map_of (pages T)) {} {} {} (Suc n) (pid T) s" and T: "tree_ordered h T"
  shows "\<exists>s'. assert_tree_invariants s =
      (if \<exists>(p, x) \<in> set (below T). is_page_underpopulated (env_page_size E) x then Inl AssertionError else Inr (), s') \<and>
    pool_state E (map_of (pages T)) {} {} {} (Suc n) (pid T) s'"
proof -
  have d: "distinct (map fst (pages T))" "depth_ok h T" using T by (auto simp: tree_ordered_def)
  obtain m where m: "get_meta s = (Inr m, s)" "dom (map_of (pages T)) \<subseteq> {0<..<next_page_id m}" by (rule meta_limit [OF st])
  obtain w s' where w: "bfs_walk_tree s = (Inr w, s')" "pool_state E (map_of (pages T)) {} {} {} (Suc n) (pid T) s'"
    "list_all2 (list_all2 (mirrors (wk_nodes w))) (wk_result w) (tree_levels h [T])" "h \<le> length (wk_nodes w)"
    by (rule bfs_walk_tree_ok [OF st d])
  have lim: "\<forall>t \<in> set [T]. \<forall>(p, x) \<in> set (pages t). p < next_page_id m" using m(2) by (force simp: dom_map_of_conv_image_fst)
  have vis: "\<forall>t \<in> set [T]. visited h h t" using T by (simp add: visited_def tree_ordered_def)
  have lv: "length (wk_result w) = Suc h" using list_all2_lengthD [OF w(3)] length_levels by simp
  note lev = check_levels_ok [OF w(3) vis _ lim tree_meta(2) [OF w(2)] w(4), of 0]
  from check_leaves_levels [OF T w(3), of s'] obtain ids where
    "check_leaves (wk_nodes w) {} (last (wk_result w)) s' = (Inr ids, s')" "card ids = length (last (wk_result w))" by blast
  with lev m(1) w(1) lv have "assert_tree_invariants s =
      (if \<exists>(p, x) \<in> set (below T). is_page_underpopulated (env_page_size E) x then Inl AssertionError else Inr (), s')"
    by (auto simp: assert_tree_invariants_def bind_op_def Let_def)
  with w(2) show ?thesis by blast
qed

text \<open>A well-formed tree passes.\<close>

lemma tree_ok_ordered: "tree_ok ps h T \<Longrightarrow> 129 \<le> ps \<Longrightarrow> tree_ordered h T"
  using leaf_filled [of ps h T] by (auto simp: tree_ok_def seq_ok_def tree_ordered_def filled_def)

lemma tree_ok_below:
  assumes "tree_ok ps h T" and "(p, x) \<in> set (below T)"
  shows "\<not> is_page_underpopulated ps x"
proof -
  have "pid T \<notin> fst ` set (below T)" using assms(1) by (simp add: tree_ok_def pages_below [of T])
  then have "p \<noteq> pid T" using assms(2) by force
  with assms show ?thesis by (auto simp: tree_ok_def fine_def pages_below [of T])
qed

lemma tree_holds_checked:
  fixes s :: "'z tree_scheme"
  assumes "tree_holds E h m (Suc n) s"
  shows "\<exists>s'. assert_tree_invariants s = (Inr (), s') \<and> tree_holds E h m (Suc n) s'"
proof -
  from assms obtain T where T: "129 \<le> env_page_size E" "tree_fine (env_page_size E) h T" "contents T = m"
    "pool_state E (map_of (pages T)) {} {} {} (Suc n) (pid T) s" by (auto simp: tree_holds_def)
  have ok: "tree_ok (env_page_size E) h T" using T(2) by (simp add: tree_fine_def)
  from assert_tree_invariants_ok [OF T(4) tree_ok_ordered [OF ok T(1)]] tree_ok_below [OF ok] obtain s' where
    "assert_tree_invariants s = (Inr (), s')" "pool_state E (map_of (pages T)) {} {} {} (Suc n) (pid T) s'" by (auto split: if_splits)
  with T show ?thesis by (auto simp: tree_holds_def)
qed

section \<open>Properties\<close>

text \<open>
  C39: the breadth-first walk of a stored tree ends within the fuel (the number of pages of the file) and
  returns the levels of the tree, from the root to the leaves, each from left to right: every node has the
  ID and the page of its place in the tree, its children are linked to it in order, and the tree in the
  store is not changed.
\<close>

theorem walk_returns_the_levels:
  fixes s :: "'z tree_scheme"
  assumes "pool_state E (map_of (pages T)) {} {} {} 1 (pid T) s" and "tree_ok (env_page_size E) h T"
  shows "\<exists>w s'. bfs_walk_tree s = (Inr w, s') \<and> list_all2 (list_all2 (mirrors (wk_nodes w))) (wk_result w) (tree_levels h [T]) \<and>
    length (wk_result w) = Suc h \<and> pool_state E (map_of (pages T)) {} {} {} 1 (pid T) s'"
proof -
  have T: "distinct (map fst (pages T))" "depth_ok h T" using assms(2) by (auto simp: tree_ok_def)
  obtain w s' where w: "bfs_walk_tree s = (Inr w, s')" "pool_state E (map_of (pages T)) {} {} {} (Suc 0) (pid T) s'"
    "list_all2 (list_all2 (mirrors (wk_nodes w))) (wk_result w) (tree_levels h [T])" "h \<le> length (wk_nodes w)"
    by (rule bfs_walk_tree_ok [OF assms(1) [unfolded One_nat_def] T])
  with list_all2_lengthD [OF w(3)] show ?thesis by (auto simp: length_levels)
qed

theorem walk_returns_the_levels_witness:
  "\<exists>(s :: tree) w s'. bfs_walk_tree s = (Inr w, s') \<and> length (wk_result w) = 1"
proof -
  obtain E and s :: tree where s: "pool_state E (map_of (pages (Lf 1 0 []))) {} {} {} 1 1 s" "env_page_size E = 200"
    by (rule sample_tree [of 1]) simp_all
  from walk_returns_the_levels [of E "Lf 1 0 []" s 0] s empty_tree_ok [of 200 1] show ?thesis by auto
qed

text \<open>
  C40: on a tree whose shape, order and leaf chain are right (and whose leaves are not empty, the root apart), the
  invariant checker decides exactly whether the pages are filled: it returns if every page below the root reaches
  the fill threshold, and raises \<^verbatim>\<open>AssertionError\<close> if one does not. The ID bounds, the key order within pages,
  the level discipline, the separators and the sibling pointers pass, no other error is raised, and the stored
  tree is not changed.
\<close>

theorem checker_accepts_exactly_the_filled_trees:
  fixes s :: "'z tree_scheme"
  assumes "pool_state E (map_of (pages T)) {} {} {} 1 (pid T) s" and "tree_ordered h T"
  shows "\<exists>s'. assert_tree_invariants s =
      (if \<exists>(p, x) \<in> set (below T). is_page_underpopulated (env_page_size E) x then Inl AssertionError else Inr (), s') \<and>
    pool_state E (map_of (pages T)) {} {} {} 1 (pid T) s'"
  using assert_tree_invariants_ok [OF assms(1) [unfolded One_nat_def] assms(2)] by simp

theorem checker_accepts_exactly_the_filled_trees_witness:
  "\<exists>(s :: tree) s'. assert_tree_invariants s = (Inr (), s')"
proof -
  obtain E and s :: tree where s: "pool_state E (map_of (pages (Lf 1 0 []))) {} {} {} 1 1 s" "env_page_size E = 200"
    by (rule sample_tree [of 1]) simp_all
  have "tree_ordered 0 (Lf 1 0 [])" by (simp add: tree_ordered_def)
  from checker_accepts_exactly_the_filled_trees [OF _ this, of E s] s show ?thesis by (auto simp: below_def)
qed

end
