(* ===== verification/Bench.thy ===== *)
theory Bench
  imports Crash Debug Complex_Main "HOL-Library.Char_ord"
begin

text \<open>
  The benchmark of \<^verbatim>\<open>scripts/bench.py\<close>: its parameters and presets, the keys it makes, the progress reporter, the six
  workloads, the snapshot of the tree's shape, the measurement of a workload on a new database, and the command line
  from the parsed arguments to the list of results.

  The clock, the random generator and floating-point numbers are parameters, gathered in the record \<open>library\<close>.
  \<open>'e\<close> is the state of clock and generator. \<open>'f\<close> is the type of floats, with arithmetic and comparison taken from
  its type classes, of which no law is assumed. \<open>lib_float\<close> rounds a rational number to a float and models
  literals, the conversion of integers and the true division of two integers; \<open>lib_sum\<close> is \<^verbatim>\<open>sum\<close> on floats. Integer
  parameters are natural numbers. The state of a run (\<open>bench\<close>) holds the database, the environment and what was
  printed to \<^verbatim>\<open>stderr\<close>.
\<close>

section \<open>The environment of the script\<close>

record ('e, 'f) library =
  lib_perf_counter_ns :: "'e \<Rightarrow> int \<times> 'e"
  lib_perf_counter :: "'e \<Rightarrow> 'f \<times> 'e"
  lib_Random :: "nat \<Rightarrow> 'e \<Rightarrow> 'e"
  lib_random :: "'e \<Rightarrow> 'f \<times> 'e"
  lib_randbytes :: "nat \<Rightarrow> 'e \<Rightarrow> bytes \<times> 'e"
  lib_choice :: "bytes list \<Rightarrow> 'e \<Rightarrow> bytes \<times> 'e"
  lib_float :: "rat \<Rightarrow> 'f"
  lib_sum :: "'f list \<Rightarrow> 'f"

text \<open>What the script prints to \<^verbatim>\<open>stderr\<close>: a progress line with the values it shows, or the end of a line.\<close>

datatype 'f err_line = ProgressLine string nat nat 'f 'f | EndLine

record ('e, 'f) bench =
  bn_db :: db
  bn_env :: 'e
  bn_err :: "'f err_line list"

definition on_db :: "(db, 'a) op \<Rightarrow> (('e, 'f) bench, 'a) op" where
  "on_db m s = (case m (bn_db s) of (r, d) \<Rightarrow> (r, s\<lparr>bn_db := d\<rparr>))"

definition on_env :: "('e \<Rightarrow> 'a \<times> 'e) \<Rightarrow> (('e, 'f) bench, 'a) op" where
  "on_env f s = (case f (bn_env s) of (a, e) \<Rightarrow> (Inr a, s\<lparr>bn_env := e\<rparr>))"

definition print_err :: "'f err_line \<Rightarrow> (('e, 'f) bench, unit) op" where
  "print_err line = modify_op (\<lambda>s. s\<lparr>bn_err := bn_err s @ [line]\<rparr>)"

section \<open>Parameters\<close>

record 'f workload_params =
  n_ops :: nat
  key_size :: nat
  value_size :: nat
  read_pct :: 'f
  delete_pct :: 'f
  preload_n :: nat
  n_scans :: nat
  scan_limit :: "nat option"
  steady_size :: nat
  seed :: nat

definition WorkloadParams :: "('e, 'f) library \<Rightarrow> 'f workload_params" where
  "WorkloadParams lib = \<lparr>n_ops = 100000, key_size = 16, value_size = 64, read_pct = lib_float lib 0, delete_pct = lib_float lib 0,
     preload_n = 0, n_scans = 0, scan_limit = None, steady_size = 0, seed = 42\<rparr>"

definition PRESETS :: "('e, 'f) library \<Rightarrow> (string \<times> 'f workload_params) list" where
  "PRESETS lib = (let p = WorkloadParams lib in
     [(''sequential-put'', p\<lparr>n_ops := 100000\<rparr>),
      (''random-put'', p\<lparr>n_ops := 100000\<rparr>),
      (''mixed-rw'', p\<lparr>n_ops := 100000, preload_n := 20000, read_pct := lib_float lib (8 / 10), delete_pct := lib_float lib (5 / 100)\<rparr>),
      (''scan-heavy'', p\<lparr>preload_n := 50000, n_ops := 0, n_scans := 100\<rparr>),
      (''delete-churn'', p\<lparr>preload_n := 50000, n_ops := 100000, steady_size := 50000, delete_pct := lib_float lib (5 / 10)\<rparr>),
      (''bulk-load'', p\<lparr>n_ops := 200000\<rparr>)])"

section \<open>Keys and values\<close>

text \<open>The decimal digits of a number in ASCII.\<close>

fun decimal :: "nat \<Rightarrow> bytes" where
  "decimal n = (if n < 10 then [] else decimal (n div 10)) @ [of_nat (48 + n mod 10)]"

declare decimal.simps [simp del]

text \<open>\<^verbatim>\<open>bytes.rjust\<close>; the format \<^verbatim>\<open>0{size}d\<close> of a number that is not negative pads with zeros in the same way.\<close>

definition rjust :: "nat \<Rightarrow> byte \<Rightarrow> bytes \<Rightarrow> bytes" where
  "rjust width c b = replicate (width - length b) c @ b"

definition make_sequential_key :: "nat \<Rightarrow> nat \<Rightarrow> bytes" where
  "make_sequential_key i width =
     (let raw = rjust width 48 (decimal i) in if width \<le> length raw then take width raw else rjust width 48 raw)"

definition make_random_key :: "('e, 'f) library \<Rightarrow> nat \<Rightarrow> (('e, 'f) bench, bytes) op" where
  "make_random_key lib width = on_env (lib_randbytes lib width)"

definition make_value :: "('e, 'f) library \<Rightarrow> nat \<Rightarrow> (('e, 'f) bench, bytes) op" where
  "make_value lib width = on_env (lib_randbytes lib width)"

section \<open>Progress\<close>

definition PROGRESS_LABEL_WIDTH :: nat where
  "PROGRESS_LABEL_WIDTH = 25"

definition ljust :: "nat \<Rightarrow> string \<Rightarrow> string" where
  "ljust width label = label @ replicate (width - length label) CHR '' ''"

record 'f progress_reporter =
  pr_label :: string
  pr_total :: nat
  pr_enabled :: bool
  pr_last_tick :: 'f
  pr_start :: 'f

definition ProgressReporter_init :: "('e, 'f) library \<Rightarrow> string \<Rightarrow> nat \<Rightarrow> bool \<Rightarrow> (('e, 'f) bench, 'f progress_reporter) op" where
  "ProgressReporter_init lib label total_ops enabled =
     bind_op (on_env (lib_perf_counter lib)) (\<lambda>now.
     ret \<lparr>pr_label = label, pr_total = total_ops, pr_enabled = enabled, pr_last_tick = now, pr_start = now\<rparr>)"

definition tick :: "('e, 'f :: {ord, minus, times, inverse}) library \<Rightarrow> 'f progress_reporter \<Rightarrow> nat \<Rightarrow> (('e, 'f) bench, 'f progress_reporter) op" where
  "tick lib pr completed =
     (if \<not> pr_enabled pr \<or> pr_total pr \<le> 0 then ret pr
      else
        bind_op (on_env (lib_perf_counter lib)) (\<lambda>now.
        if now - pr_last_tick pr < lib_float lib 1 then ret pr
        else
          let elapsed = now - pr_start pr;
              rate = (if lib_float lib 0 < elapsed then lib_float lib (of_nat completed) / elapsed else lib_float lib 0);
              pct = lib_float lib 100 * lib_float lib (of_nat completed) / lib_float lib (of_nat (pr_total pr));
              bracketed = ljust PROGRESS_LABEL_WIDTH (''['' @ pr_label pr @ '']'')
          in bind_op (print_err (ProgressLine bracketed completed (pr_total pr) pct rate)) (\<lambda>_.
             ret (pr\<lparr>pr_last_tick := now\<rparr>))))"

definition finish :: "'f progress_reporter \<Rightarrow> (('e, 'f) bench, unit) op" where
  "finish pr = (if pr_enabled pr \<and> 0 < pr_total pr then print_err EndLine else ret ())"

record run_context =
  ctx_preset_name :: string
  ctx_show_progress :: bool

definition progress_for :: "('e, 'f) library \<Rightarrow> run_context \<Rightarrow> string \<Rightarrow> nat \<Rightarrow> (('e, 'f) bench, 'f progress_reporter) op" where
  "progress_for lib ctx phase total_ops = ProgressReporter_init lib (ctx_preset_name ctx @ '':'' @ phase) total_ops (ctx_show_progress ctx)"

section \<open>Workloads\<close>

definition bench_put :: "bytes \<Rightarrow> bytes \<Rightarrow> (('e, 'f) bench, unit) op" where
  "bench_put key val = on_db (db_put (PyBytes key) (PyBytes val))"

fun sequential_puts ::
  "('e, 'f :: {ord, minus, times, inverse}) library \<Rightarrow> 'f workload_params \<Rightarrow> bytes \<Rightarrow> nat list \<Rightarrow> 'f progress_reporter \<Rightarrow> int list \<Rightarrow> nat \<Rightarrow>
     (('e, 'f) bench, int list \<times> nat) op" where
  "sequential_puts lib params val [] pr latencies user_bytes = bind_op (finish pr) (\<lambda>_. ret (latencies, user_bytes))"
| "sequential_puts lib params val (i # is) pr latencies user_bytes =
     (let key = make_sequential_key i (key_size params) in
      bind_op (on_env (lib_perf_counter_ns lib)) (\<lambda>t0.
      bind_op (bench_put key val) (\<lambda>_.
      bind_op (on_env (lib_perf_counter_ns lib)) (\<lambda>t1.
      bind_op (tick lib pr (i + 1)) (\<lambda>pr'.
      sequential_puts lib params val is pr' (latencies @ [t1 - t0]) (user_bytes + (length key + length val)))))))"

definition run_sequential_put :: "('e, 'f :: {ord, minus, times, inverse}) library \<Rightarrow> 'f workload_params \<Rightarrow> run_context \<Rightarrow> (('e, 'f) bench, int list \<times> nat) op" where
  "run_sequential_put lib params ctx =
     bind_op (progress_for lib ctx ''measure'' (n_ops params)) (\<lambda>pr.
     sequential_puts lib params (replicate (value_size params) 118) [0..<n_ops params] pr [] 0)"

fun random_puts ::
  "('e, 'f :: {ord, minus, times, inverse}) library \<Rightarrow> 'f workload_params \<Rightarrow> nat list \<Rightarrow> 'f progress_reporter \<Rightarrow> int list \<Rightarrow> nat \<Rightarrow>
     (('e, 'f) bench, int list \<times> nat) op" where
  "random_puts lib params [] pr latencies user_bytes = bind_op (finish pr) (\<lambda>_. ret (latencies, user_bytes))"
| "random_puts lib params (i # is) pr latencies user_bytes =
     bind_op (make_random_key lib (key_size params)) (\<lambda>key.
     bind_op (make_value lib (value_size params)) (\<lambda>val.
     bind_op (on_env (lib_perf_counter_ns lib)) (\<lambda>t0.
     bind_op (bench_put key val) (\<lambda>_.
     bind_op (on_env (lib_perf_counter_ns lib)) (\<lambda>t1.
     bind_op (tick lib pr (i + 1)) (\<lambda>pr'.
     random_puts lib params is pr' (latencies @ [t1 - t0]) (user_bytes + (length key + length val))))))))"

definition run_random_put :: "('e, 'f :: {ord, minus, times, inverse}) library \<Rightarrow> 'f workload_params \<Rightarrow> run_context \<Rightarrow> (('e, 'f) bench, int list \<times> nat) op" where
  "run_random_put lib params ctx =
     bind_op (progress_for lib ctx ''measure'' (n_ops params)) (\<lambda>pr.
     random_puts lib params [0..<n_ops params] pr [] 0)"

fun preload_puts ::
  "('e, 'f :: {ord, minus, times, inverse}) library \<Rightarrow> 'f workload_params \<Rightarrow> nat list \<Rightarrow> 'f progress_reporter \<Rightarrow> bytes list \<Rightarrow> (('e, 'f) bench, bytes list) op" where
  "preload_puts lib params [] pr live_keys = bind_op (finish pr) (\<lambda>_. ret live_keys)"
| "preload_puts lib params (i # is) pr live_keys =
     bind_op (make_random_key lib (key_size params)) (\<lambda>key.
     bind_op (make_value lib (value_size params)) (\<lambda>val.
     bind_op (bench_put key val) (\<lambda>_.
     bind_op (tick lib pr (i + 1)) (\<lambda>pr'.
     preload_puts lib params is pr' (live_keys @ [key])))))"

definition preload ::
  "('e, 'f :: {ord, minus, times, inverse}) library \<Rightarrow> nat \<Rightarrow> 'f workload_params \<Rightarrow> run_context \<Rightarrow> (('e, 'f) bench, bytes list) op" where
  "preload lib n params ctx = bind_op (progress_for lib ctx ''preload'' n) (\<lambda>pr. preload_puts lib params [0..<n] pr [])"

definition reset_stats :: "(db, unit) op" where
  "reset_stats =
     bind_op (on_tree (modify_op (\<lambda>t. t\<lparr>pg_stats := pager_stats_reset (pg_stats t)\<rparr>))) (\<lambda>_.
     bind_op (on_tree (modify_op (\<lambda>t. t\<lparr>tr_stats := tree_stats_reset (tr_stats t)\<rparr>))) (\<lambda>_.
     bind_op (on_wal (modify_op (\<lambda>w. w\<lparr>wl_stats := wal_stats_reset (wl_stats w)\<rparr>))) (\<lambda>_.
     on_tree (modify_op (\<lambda>t. t\<lparr>bp_stats := pool_stats_reset (bp_stats t)\<rparr>)))))"

text \<open>The branches that the mixed workload shares with the churn of deletions.\<close>

definition delete_one :: "('e, 'f) library \<Rightarrow> bytes list \<Rightarrow> nat \<Rightarrow> (('e, 'f) bench, bytes list \<times> nat) op" where
  "delete_one lib live_keys user_bytes =
     bind_op (on_env (lib_choice lib live_keys)) (\<lambda>victim.
     bind_op (on_db (db_delete (PyBytes victim))) (\<lambda>deleted.
     ret (if deleted then remove1 victim live_keys else live_keys, user_bytes)))"

definition insert_one :: "('e, 'f) library \<Rightarrow> 'f workload_params \<Rightarrow> bytes list \<Rightarrow> nat \<Rightarrow> (('e, 'f) bench, bytes list \<times> nat) op" where
  "insert_one lib params live_keys user_bytes =
     bind_op (make_random_key lib (key_size params)) (\<lambda>key.
     bind_op (make_value lib (value_size params)) (\<lambda>val.
     bind_op (bench_put key val) (\<lambda>_.
     ret (live_keys @ [key], user_bytes + (length key + length val)))))"

definition read_one :: "('e, 'f) library \<Rightarrow> bytes list \<Rightarrow> nat \<Rightarrow> (('e, 'f) bench, bytes list \<times> nat) op" where
  "read_one lib live_keys user_bytes =
     bind_op (on_env (lib_choice lib live_keys)) (\<lambda>key.
     bind_op (on_db (db_get (PyBytes key))) (\<lambda>_.
     ret (live_keys, user_bytes)))"

fun mixed_steps ::
  "('e, 'f :: {ord, plus, minus, times, inverse}) library \<Rightarrow> 'f workload_params \<Rightarrow> nat list \<Rightarrow> 'f progress_reporter \<Rightarrow> bytes list \<Rightarrow> int list \<Rightarrow> nat \<Rightarrow>
     (('e, 'f) bench, int list \<times> nat) op" where
  "mixed_steps lib params [] pr live_keys latencies user_bytes = bind_op (finish pr) (\<lambda>_. ret (latencies, user_bytes))"
| "mixed_steps lib params (i # is) pr live_keys latencies user_bytes =
     bind_op (on_env (lib_random lib)) (\<lambda>roll.
     bind_op (on_env (lib_perf_counter_ns lib)) (\<lambda>t0.
     bind_op (if roll < read_pct params \<and> live_keys \<noteq> [] then read_one lib live_keys user_bytes
              else if roll < read_pct params + delete_pct params \<and> live_keys \<noteq> [] then delete_one lib live_keys user_bytes
              else insert_one lib params live_keys user_bytes) (\<lambda>(live_keys', user_bytes').
     bind_op (on_env (lib_perf_counter_ns lib)) (\<lambda>t1.
     bind_op (tick lib pr (i + 1)) (\<lambda>pr'.
     mixed_steps lib params is pr' live_keys' (latencies @ [t1 - t0]) user_bytes')))))"

definition run_mixed_rw :: "('e, 'f :: {ord, plus, minus, times, inverse}) library \<Rightarrow> 'f workload_params \<Rightarrow> run_context \<Rightarrow> (('e, 'f) bench, int list \<times> nat) op" where
  "run_mixed_rw lib params ctx =
     bind_op (preload lib (preload_n params) params ctx) (\<lambda>live_keys.
     bind_op (on_db reset_stats) (\<lambda>_.
     bind_op (progress_for lib ctx ''measure'' (n_ops params)) (\<lambda>pr.
     mixed_steps lib params [0..<n_ops params] pr live_keys [] 0)))"

text \<open>
  The loop that consumes a scan. The fuel, one more than the number of bytes of the file's pages, is above the number
  of records.
\<close>

fun consume :: "nat \<Rightarrow> nat option \<Rightarrow> nat \<Rightarrow> scan_iter \<Rightarrow> (db, unit) op" where
  "consume 0 limit consumed it = raise OutOfFuel"
| "consume (Suc fuel) limit consumed it =
     bind_op (db_scan_next it) (\<lambda>(item, it').
     case item of
       None \<Rightarrow> ret ()
     | Some _ \<Rightarrow>
         if limit \<noteq> None \<and> the limit \<le> consumed + 1 then ret ()
         else consume fuel limit (consumed + 1) it')"

definition scan_once :: "nat option \<Rightarrow> (db, unit) op" where
  "scan_once limit =
     bind_op (db_scan None None) (\<lambda>it.
     bind_op (gets_op (\<lambda>d. Suc (page_limit (db_tree d) * pg_page_size (db_tree d)))) (\<lambda>fuel.
     consume fuel limit 0 it))"

fun scans ::
  "('e, 'f :: {ord, minus, times, inverse}) library \<Rightarrow> 'f workload_params \<Rightarrow> nat list \<Rightarrow> 'f progress_reporter \<Rightarrow> int list \<Rightarrow>
     (('e, 'f) bench, int list \<times> nat) op" where
  "scans lib params [] pr latencies = bind_op (finish pr) (\<lambda>_. ret (latencies, 0))"
| "scans lib params (i # is) pr latencies =
     bind_op (on_env (lib_perf_counter_ns lib)) (\<lambda>t0.
     bind_op (on_db (scan_once (scan_limit params))) (\<lambda>_.
     bind_op (on_env (lib_perf_counter_ns lib)) (\<lambda>t1.
     bind_op (tick lib pr (i + 1)) (\<lambda>pr'.
     scans lib params is pr' (latencies @ [t1 - t0])))))"

definition run_scan_heavy :: "('e, 'f :: {ord, minus, times, inverse}) library \<Rightarrow> 'f workload_params \<Rightarrow> run_context \<Rightarrow> (('e, 'f) bench, int list \<times> nat) op" where
  "run_scan_heavy lib params ctx =
     bind_op (preload lib (preload_n params) params ctx) (\<lambda>_.
     bind_op (on_db reset_stats) (\<lambda>_.
     bind_op (progress_for lib ctx ''measure'' (n_scans params)) (\<lambda>pr.
     scans lib params [0..<n_scans params] pr [])))"

fun churn_steps ::
  "('e, 'f :: {ord, plus, minus, uminus, times, inverse}) library \<Rightarrow> 'f workload_params \<Rightarrow> nat list \<Rightarrow> 'f progress_reporter \<Rightarrow> bytes list \<Rightarrow> int list \<Rightarrow> nat \<Rightarrow>
     (('e, 'f) bench, int list \<times> nat) op" where
  "churn_steps lib params [] pr live_keys latencies user_bytes = bind_op (finish pr) (\<lambda>_. ret (latencies, user_bytes))"
| "churn_steps lib params (i # is) pr live_keys latencies user_bytes =
     (let over = steady_size params < length live_keys in
      bind_op (on_env (lib_random lib)) (\<lambda>roll.
      let delete_prob = delete_pct params + (if over then lib_float lib (2 / 10) else - lib_float lib (2 / 10)) in
      bind_op (on_env (lib_perf_counter_ns lib)) (\<lambda>t0.
      bind_op (if live_keys \<noteq> [] \<and> roll < delete_prob then delete_one lib live_keys user_bytes
               else insert_one lib params live_keys user_bytes) (\<lambda>(live_keys', user_bytes').
      bind_op (on_env (lib_perf_counter_ns lib)) (\<lambda>t1.
      bind_op (tick lib pr (i + 1)) (\<lambda>pr'.
      churn_steps lib params is pr' live_keys' (latencies @ [t1 - t0]) user_bytes'))))))"

definition run_delete_churn ::
  "('e, 'f :: {ord, plus, minus, uminus, times, inverse}) library \<Rightarrow> 'f workload_params \<Rightarrow> run_context \<Rightarrow> (('e, 'f) bench, int list \<times> nat) op" where
  "run_delete_churn lib params ctx =
     bind_op (preload lib (preload_n params) params ctx) (\<lambda>live_keys.
     bind_op (on_db reset_stats) (\<lambda>_.
     bind_op (progress_for lib ctx ''measure'' (n_ops params)) (\<lambda>pr.
     churn_steps lib params [0..<n_ops params] pr live_keys [] 0)))"

definition run_bulk_load :: "('e, 'f :: {ord, minus, times, inverse}) library \<Rightarrow> 'f workload_params \<Rightarrow> run_context \<Rightarrow> (('e, 'f) bench, int list \<times> nat) op" where
  "run_bulk_load lib params ctx = run_random_put lib params ctx"

definition RUNNERS ::
  "('e, 'f :: {ord, plus, minus, uminus, times, inverse}) library \<Rightarrow> (string \<times> ('f workload_params \<Rightarrow> run_context \<Rightarrow> (('e, 'f) bench, int list \<times> nat) op)) list" where
  "RUNNERS lib =
     [(''sequential-put'', run_sequential_put lib),
      (''random-put'', run_random_put lib),
      (''mixed-rw'', run_mixed_rw lib),
      (''scan-heavy'', run_scan_heavy lib),
      (''delete-churn'', run_delete_churn lib),
      (''bulk-load'', run_bulk_load lib)]"

section \<open>The shape of the tree\<close>

record 'f tree_shape =
  shape_depth :: nat
  leaf_pages :: nat
  internal_pages :: nat
  avg_leaf_fill :: 'f

definition shape_of_levels :: "('e, 'f :: inverse) library \<Rightarrow> nat \<Rightarrow> node list list \<Rightarrow> 'f tree_shape" where
  "shape_of_levels lib page_size levels =
     (if levels = [] then \<lparr>shape_depth = 0, leaf_pages = 0, internal_pages = 0, avg_leaf_fill = lib_float lib 0\<rparr>
      else
        let leaf_nodes = last levels;
            internal_count = length (filter is_InternalPage (concat levels));
            leaf_count = length (filter is_LeafPage leaf_nodes);
            leaf_fill_fractions = map (\<lambda>page. lib_float lib (of_nat (calculate_page_size page) / of_nat page_size)) (filter is_LeafPage leaf_nodes);
            avg_fill = (if leaf_fill_fractions \<noteq> [] then lib_sum lib leaf_fill_fractions / lib_float lib (of_nat (length leaf_fill_fractions))
                        else lib_float lib 0)
        in \<lparr>shape_depth = length levels, leaf_pages = leaf_count, internal_pages = internal_count, avg_leaf_fill = avg_fill\<rparr>)"

definition snapshot_tree_shape :: "('e, 'f :: inverse) library \<Rightarrow> (db, 'f tree_shape) op" where
  "snapshot_tree_shape lib =
     bind_op (on_tree bfs_walk_tree) (\<lambda>w.
     bind_op (gets_op (\<lambda>d. pg_page_size (db_tree d))) (\<lambda>page_size.
     ret (shape_of_levels lib page_size (map (map (\<lambda>a. node_page (wk_nodes w ! a))) (wk_result w)))))"

section \<open>Measuring\<close>

record 'f workload_result =
  preset_name :: string
  result_params :: "'f workload_params"
  result_page_size :: nat
  wall_seconds :: 'f
  n_measured_ops :: nat
  user_bytes_written :: nat
  latencies_ns :: "int list"
  result_pager_stats :: pager_stats
  result_tree_stats :: tree_stats
  result_wal_stats :: wal_stats
  result_buffer_pool_stats :: pool_stats
  data_file_bytes :: nat
  wal_file_bytes :: nat
  result_tree_shape :: "'f tree_shape"

text \<open>
  The body of the \<^verbatim>\<open>try\<close> block: the sizes of the two files are filled in after closing. Copying a counter object with
  \<^verbatim>\<open>asdict\<close> is the identity here, records being values.
\<close>

definition measured_run ::
  "('e, 'f :: {minus, inverse}) library \<Rightarrow> (('e, 'f) bench, int list \<times> nat) op \<Rightarrow> string \<Rightarrow> 'f workload_params \<Rightarrow> nat \<Rightarrow>
     (('e, 'f) bench, 'f workload_result) op" where
  "measured_run lib run name params ps =
     bind_op (on_env (lib_perf_counter lib)) (\<lambda>t0.
     bind_op run (\<lambda>(latencies, user_bytes).
     bind_op (on_env (lib_perf_counter lib)) (\<lambda>t1.
     bind_op (on_db (snapshot_tree_shape lib)) (\<lambda>shape.
     bind_op (on_db (on_tree flush_all)) (\<lambda>_.
     gets_op (\<lambda>s. \<lparr>preset_name = name, result_params = params, result_page_size = ps, wall_seconds = t1 - t0,
       n_measured_ops = length latencies, user_bytes_written = user_bytes, latencies_ns = latencies,
       result_pager_stats = pg_stats (db_tree (bn_db s)), result_tree_stats = tr_stats (db_tree (bn_db s)),
       result_wal_stats = wl_stats (db_wal (bn_db s)), result_buffer_pool_stats = bp_stats (db_tree (bn_db s)),
       data_file_bytes = 0, wal_file_bytes = 0, result_tree_shape = shape\<rparr>))))))"

text \<open>
  The directory is wiped first, so the database is created at a path with no files, with the default cache capacity,
  log limit and dirty ratio of \<^verbatim>\<open>DB\<close>.
\<close>

definition measure_workload ::
  "('e, 'f :: {ord, plus, minus, uminus, times, inverse}) library \<Rightarrow> string \<Rightarrow> 'f workload_params \<Rightarrow> nat \<Rightarrow> bool \<Rightarrow>
     (('e, 'f) bench, 'f workload_result) op" where
  "measure_workload lib name params ps show_progress =
     bind_op (on_env (\<lambda>e. ((), lib_Random lib (seed params) e))) (\<lambda>_.
     case map_of (RUNNERS lib) name of
       None \<Rightarrow> raise KeyError
     | Some runner \<Rightarrow>
         let ctx = \<lparr>ctx_preset_name = name, ctx_show_progress = show_progress\<rparr> in
         bind_op (lift_r (DB_init None None None ps 256 (4 * 1024 * 1024) (1, 2))) (\<lambda>d.
         bind_op (modify_op (\<lambda>s. s\<lparr>bn_db := d\<rparr>)) (\<lambda>_.
         bind_op (on_db db_open) (\<lambda>_.
         bind_op (finally_op (measured_run lib (runner params ctx) name params ps) (on_db db_close)) (\<lambda>r.
         gets_op (\<lambda>s. r\<lparr>data_file_bytes := length (file_bytes (db_tree (bn_db s))), wal_file_bytes := size_bytes (db_wal (bn_db s))\<rparr>))))))"

section \<open>The command line\<close>

text \<open>The parsed arguments, those that concern only the output and the directory apart.\<close>

record 'f cli_args =
  arg_workload :: "string option"
  arg_all :: bool
  arg_page_size :: nat
  arg_no_progress :: bool
  arg_n_ops :: "nat option"
  arg_key_size :: "nat option"
  arg_value_size :: "nat option"
  arg_read_pct :: "'f option"
  arg_delete_pct :: "'f option"
  arg_preload_n :: "nat option"
  arg_n_scans :: "nat option"
  arg_scan_limit :: "nat option"
  arg_steady_size :: "nat option"
  arg_seed :: "nat option"

definition override :: "'a option \<Rightarrow> 'a \<Rightarrow> 'a" where
  "override arg v = (case arg of None \<Rightarrow> v | Some x \<Rightarrow> x)"

definition merge_overrides :: "'f workload_params \<Rightarrow> 'f cli_args \<Rightarrow> 'f workload_params" where
  "merge_overrides base args =
     \<lparr>n_ops = override (arg_n_ops args) (n_ops base), key_size = override (arg_key_size args) (key_size base),
      value_size = override (arg_value_size args) (value_size base), read_pct = override (arg_read_pct args) (read_pct base),
      delete_pct = override (arg_delete_pct args) (delete_pct base), preload_n = override (arg_preload_n args) (preload_n base),
      n_scans = override (arg_n_scans args) (n_scans base),
      scan_limit = (case arg_scan_limit args of None \<Rightarrow> scan_limit base | Some l \<Rightarrow> Some l),
      steady_size = override (arg_steady_size args) (steady_size base), seed = override (arg_seed args) (seed base)\<rparr>"

fun measure_all ::
  "('e, 'f :: {ord, plus, minus, uminus, times, inverse}) library \<Rightarrow> 'f cli_args \<Rightarrow> string list \<Rightarrow> (('e, 'f) bench, 'f workload_result list) op" where
  "measure_all lib args [] = ret []"
| "measure_all lib args (name # names) =
     (case map_of (PRESETS lib) name of
        None \<Rightarrow> raise KeyError
      | Some base \<Rightarrow>
          bind_op (measure_workload lib name (merge_overrides base args) (arg_page_size args) (\<not> arg_no_progress args)) (\<lambda>r.
          bind_op (measure_all lib args names) (\<lambda>rs.
          ret (r # rs))))"

text \<open>The results that \<^verbatim>\<open>main\<close> prints.\<close>

definition main_results ::
  "('e, 'f :: {ord, plus, minus, uminus, times, inverse}) library \<Rightarrow> 'f cli_args \<Rightarrow> (('e, 'f) bench, 'f workload_result list) op" where
  "main_results lib args =
     (if \<not> arg_all args \<and> arg_workload args = None then raise (SystemExit 2)
      else measure_all lib args (if arg_all args then sort (map fst (PRESETS lib)) else [the (arg_workload args)]))"

end
