(* ===== verification/BenchRuns.thy ===== *)
theory BenchRuns
  imports Bench
begin

text \<open>
  The benchmark runs to completion: a calculus for runs that return (\<open>leads\<close>), each workload under the law of the
  random generator (\<open>library_ok\<close>) and with records that fit the pages, the snapshot as the shape of the stored tree, the
  whole measurement and the command line; and the order of the sequential keys.
\<close>

section \<open>Runs that return\<close>

text \<open>\<open>leads f s Q\<close>: from the state \<open>s\<close> the operation \<open>f\<close> returns, with a value and a state that satisfy \<open>Q\<close>.\<close>

definition leads :: "('s, 'a) op \<Rightarrow> 's \<Rightarrow> ('a \<Rightarrow> 's \<Rightarrow> bool) \<Rightarrow> bool" where
  "leads f s Q \<longleftrightarrow> (\<exists>a s'. f s = (Inr a, s') \<and> Q a s')"

lemma leads_bind: "leads f s (\<lambda>a s'. leads (g a) s' Q) \<Longrightarrow> leads (bind_op f g) s Q"
  by (auto simp: leads_def bind_op_Inr)

lemma leads_ret: "Q a s \<Longrightarrow> leads (ret a) s Q"
  by (simp add: leads_def)

lemma leads_mono: "leads f s P \<Longrightarrow> (\<And>a s'. P a s' \<Longrightarrow> Q a s') \<Longrightarrow> leads f s Q"
  by (auto simp: leads_def)

lemma leads_env: "(\<And>a e. f (bn_env s) = (a, e) \<Longrightarrow> Q a (s\<lparr>bn_env := e\<rparr>)) \<Longrightarrow> leads (on_env f) s Q"
  by (auto simp: leads_def on_env_def split: prod.split)

lemma leads_db: "leads f (bn_db s) (\<lambda>a d. Q a (s\<lparr>bn_db := d\<rparr>)) \<Longrightarrow> leads (on_db f) s Q"
  by (auto simp: leads_def on_db_def)

text \<open>What the random generator promises.\<close>

definition library_ok :: "('e, 'f) library \<Rightarrow> bool" where
  "library_ok lib \<longleftrightarrow> (\<forall>n e. length (fst (lib_randbytes lib n e)) = n) \<and> (\<forall>xs e. xs \<noteq> [] \<longrightarrow> fst (lib_choice lib xs e) \<in> set xs)"

text \<open>A database in use, with \<open>n\<close> operations to come.\<close>

definition bench_ok :: "nat \<Rightarrow> nat \<Rightarrow> nat \<Rightarrow> ('e, 'f) bench \<Rightarrow> bool" where
  "bench_ok N ps n s \<longleftrightarrow> (\<exists>m. db_serves N ps n m (bn_db s) \<and> card (dom m) + n < 2 ^ Suc N)"

lemma bench_ok_env [simp]:
  "bench_ok N ps n (s\<lparr>bn_env := e\<rparr>) = bench_ok N ps n s" "bench_ok N ps n (s\<lparr>bn_err := x\<rparr>) = bench_ok N ps n s"
  by (simp_all add: bench_ok_def)

definition sizes_fit :: "nat \<Rightarrow> nat \<Rightarrow> nat \<Rightarrow> bool" where
  "sizes_fit ps key_len val_len \<longleftrightarrow> 10 * (20 + key_len) \<le> ps + 160 \<and> int (8 + key_len + val_len) \<le> get_max_leaf_record_size ps"

lemma sizes_fit_acceptable: "sizes_fit ps (length key) (length val) \<Longrightarrow> acceptable ps key val"
  by (simp add: sizes_fit_def acceptable_def short_key_def calculate_leaf_record_size_def)

lemma card_dom_put: "card (dom (m(k \<mapsto> v))) \<le> Suc (card (dom m))"
  by (cases "finite (dom m)") (auto simp: card_insert_if)

lemma card_dom_del: "card (dom (m(k := None))) \<le> card (dom m)"
proof (cases "finite (dom m)")
  case True
  then show ?thesis by (intro card_mono) auto
qed simp

lemma db_put_leads:
  assumes "db_serves N ps (Suc n) m d" and "card (dom m) + Suc n < 2 ^ Suc N" and "sizes_fit ps (length key) (length val)"
  shows "leads (db_put (PyBytes key) (PyBytes val)) d (\<lambda>_ d'. \<exists>m. db_serves N ps n m d' \<and> card (dom m) + n < 2 ^ Suc N)"
proof -
  have "put_allowed N ps key val m" using card_dom_put [of m key val] assms(2) sizes_fit_acceptable [OF assms(3)] by (simp add: put_allowed_def)
  from db_store.put [OF assms(1) this] card_dom_put [of m key val] assms(2) show ?thesis by (fastforce simp: leads_def)
qed

lemma db_delete_leads:
  assumes "db_serves N ps (Suc n) m d" and "card (dom m) + Suc n < 2 ^ Suc N"
  shows "leads (db_delete (PyBytes key)) d (\<lambda>_ d'. \<exists>m. db_serves N ps n m d' \<and> card (dom m) + n < 2 ^ Suc N)"
  using db_store.del [OF assms(1), of key] card_dom_del [of m key] assms(2) by (fastforce simp: leads_def)

lemma bench_steps:
  assumes "bench_ok N ps (Suc n) s"
  shows "sizes_fit ps (length key) (length val) \<Longrightarrow> leads (bench_put key val) s (\<lambda>_. bench_ok N ps n)"
    and "leads (on_db (db_delete (PyBytes key))) s (\<lambda>_. bench_ok N ps n)"
    and "leads (on_db (db_get (PyBytes key))) s (\<lambda>_. bench_ok N ps n)"
proof -
  from assms obtain m where m: "db_serves N ps (Suc n) m (bn_db s)" "card (dom m) + Suc n < 2 ^ Suc N" by (auto simp: bench_ok_def)
  show "sizes_fit ps (length key) (length val) \<Longrightarrow> leads (bench_put key val) s (\<lambda>_. bench_ok N ps n)"
    using db_put_leads [OF m] unfolding bench_put_def bench_ok_def by (intro leads_db) simp
  show "leads (on_db (db_delete (PyBytes key))) s (\<lambda>_. bench_ok N ps n)"
    using db_delete_leads [OF m] unfolding bench_ok_def by (intro leads_db) simp
  show "leads (on_db (db_get (PyBytes key))) s (\<lambda>_. bench_ok N ps n)"
    using db_store.get [OF m(1), of key] m(2) unfolding bench_ok_def by (intro leads_db) (fastforce simp: leads_def)
qed

lemma length_sequential_key [simp]: "length (make_sequential_key i width) = width"
  by (simp add: make_sequential_key_def rjust_def Let_def)

lemma leads_any_env: "(\<And>a e. Q a (s\<lparr>bn_env := e\<rparr>)) \<Longrightarrow> leads (on_env f) s Q"
  by (rule leads_env) simp

lemma leads_bytes:
  assumes "library_ok lib" and "\<And>b e. length b = width \<Longrightarrow> Q b (s\<lparr>bn_env := e\<rparr>)"
  shows "leads (make_random_key lib width) s Q" and "leads (make_value lib width) s Q"
proof -
  have "length b = width" if "lib_randbytes lib width e = (b, e')" for b e e' using assms(1) that unfolding library_ok_def by (metis fst_conv)
  then show "leads (make_random_key lib width) s Q" "leads (make_value lib width) s Q"
    unfolding make_random_key_def make_value_def by (auto intro!: leads_env assms(2))
qed

text \<open>The progress reporter changes neither the database nor what is measured.\<close>

lemma leads_print: "Q () (s\<lparr>bn_err := bn_err s @ [line]\<rparr>) \<Longrightarrow> leads (print_err line) s Q"
  by (simp add: leads_def print_err_def)

lemma leads_progress:
  assumes "\<And>pr e x. Q pr (s\<lparr>bn_env := e, bn_err := x\<rparr>)"
  shows "leads (progress_for lib ctx phase k) s Q" and "leads (tick lib pr k) s Q"
proof -
  have Q: "Q a (s\<lparr>bn_env := e\<rparr>)" "Q a s" for a e using assms [where e = e and x = "bn_err s"] assms [where e = "bn_env s" and x = "bn_err s"] by simp_all
  show "leads (progress_for lib ctx phase k) s Q" unfolding progress_for_def ProgressReporter_init_def
    by (intro leads_bind leads_any_env leads_ret Q)
  show "leads (tick lib pr k) s Q" unfolding tick_def Let_def
    by (auto intro!: leads_bind leads_any_env leads_ret leads_print Q assms)
qed

lemma leads_finish:
  assumes "\<And>x. Q () (s\<lparr>bn_err := x\<rparr>)"
  shows "leads (finish pr) s Q"
  using assms assms [of "bn_err s"] unfolding finish_def by (auto intro!: leads_print leads_ret)

text \<open>What a loop returns: one latency for each of its \<open>k\<close> steps, and the database with \<open>n\<close> operations to come.\<close>

definition measured :: "nat \<Rightarrow> nat \<Rightarrow> nat \<Rightarrow> nat \<Rightarrow> int list \<times> nat \<Rightarrow> ('e, 'f) bench \<Rightarrow> bool" where
  "measured N ps n k r s \<longleftrightarrow> length (fst r) = k \<and> bench_ok N ps n s"

lemmas leads_steps = leads_bind leads_progress leads_finish leads_ret

lemma sequential_puts_return:
  assumes "bench_ok N ps (length is + n) s" and "sizes_fit ps (key_size p) (length val)"
  shows "leads (sequential_puts lib p val is pr lat ub) s (measured N ps n (length lat + length is))"
  using assms(1)
proof (induction "is" arbitrary: s pr lat ub)
  case (Cons i "is")
  then have "bench_ok N ps (Suc (length is + n)) s" by simp
  then show ?case unfolding sequential_puts.simps Let_def using assms(2)
    by (auto intro!: leads_steps leads_any_env leads_mono [OF bench_steps(1)] leads_mono [OF Cons.IH])
qed (auto intro!: leads_steps simp: measured_def)

lemma random_puts_return:
  assumes "library_ok lib" and "bench_ok N ps (length is + n) s" and "sizes_fit ps (key_size p) (value_size p)"
  shows "leads (random_puts lib p is pr lat ub) s (measured N ps n (length lat + length is))"
  using assms(2)
proof (induction "is" arbitrary: s pr lat ub)
  case (Cons i "is")
  then have "bench_ok N ps (Suc (length is + n)) s" by simp
  then show ?case unfolding random_puts.simps using assms(3)
    by (auto intro!: leads_steps leads_bytes [OF assms(1)] leads_any_env leads_mono [OF bench_steps(1)] leads_mono [OF Cons.IH])
qed (auto intro!: leads_steps simp: measured_def)

lemma preload_puts_return:
  assumes "library_ok lib" and "bench_ok N ps (length is + n) s" and "sizes_fit ps (key_size p) (value_size p)"
  shows "leads (preload_puts lib p is pr keys) s (\<lambda>_. bench_ok N ps n)"
  using assms(2)
proof (induction "is" arbitrary: s pr keys)
  case (Cons i "is")
  then have "bench_ok N ps (Suc (length is + n)) s" by simp
  then show ?case unfolding preload_puts.simps using assms(3)
    by (auto intro!: leads_steps leads_bytes [OF assms(1)] leads_mono [OF bench_steps(1)] Cons.IH)
qed (auto intro!: leads_steps)

lemma preload_return:
  assumes "library_ok lib" and "bench_ok N ps (k + n) s" and "sizes_fit ps (key_size p) (value_size p)"
  shows "leads (preload lib k p ctx) s (\<lambda>_. bench_ok N ps n)"
  unfolding preload_def using assms by (auto intro!: leads_steps preload_puts_return)

lemma one_step_return:
  assumes "bench_ok N ps (Suc n) s"
  shows "leads (delete_one lib keys ub) s (\<lambda>_. bench_ok N ps n)" and "leads (read_one lib keys ub) s (\<lambda>_. bench_ok N ps n)"
    and "library_ok lib \<Longrightarrow> sizes_fit ps (key_size p) (value_size p) \<Longrightarrow> leads (insert_one lib p keys ub) s (\<lambda>_. bench_ok N ps n)"
  unfolding delete_one_def read_one_def insert_one_def using assms
  by (auto intro!: leads_steps leads_any_env leads_bytes leads_mono [OF bench_steps(1)] leads_mono [OF bench_steps(2)] leads_mono [OF bench_steps(3)])

lemma mixed_steps_return:
  assumes "library_ok lib" and "bench_ok N ps (length is + n) s" and "sizes_fit ps (key_size p) (value_size p)"
  shows "leads (mixed_steps lib p is pr keys lat ub) s (measured N ps n (length lat + length is))"
  using assms(2)
proof (induction "is" arbitrary: s pr keys lat ub)
  case (Cons i "is")
  then have "bench_ok N ps (Suc (length is + n)) (s\<lparr>bn_env := e\<rparr>)" for e by simp
  note steps = one_step_return [OF this, THEN leads_mono]
  show ?case unfolding mixed_steps.simps
    by (auto intro!: leads_steps leads_any_env steps assms(1,3) leads_mono [OF Cons.IH] split: prod.split)
qed (auto intro!: leads_steps simp: measured_def)

lemma churn_steps_return:
  assumes "library_ok lib" and "bench_ok N ps (length is + n) s" and "sizes_fit ps (key_size p) (value_size p)"
  shows "leads (churn_steps lib p is pr keys lat ub) s (measured N ps n (length lat + length is))"
  using assms(2)
proof (induction "is" arbitrary: s pr keys lat ub)
  case (Cons i "is")
  then have "bench_ok N ps (Suc (length is + n)) (s\<lparr>bn_env := e\<rparr>)" for e by simp
  note steps = one_step_return [OF this, THEN leads_mono]
  show ?case unfolding churn_steps.simps Let_def
    by (auto intro!: leads_steps leads_any_env steps assms(1,3) leads_mono [OF Cons.IH] split: prod.split)
qed (auto intro!: leads_steps simp: measured_def)

section \<open>Resetting the counters\<close>

lemma tree_holds_same:
  fixes t :: "'z tree_scheme"
  assumes "pager_same t t'" and "bp_cache t' = bp_cache t" "bp_capacity_pages t' = bp_capacity_pages t"
    "bp_eviction_enabled t' = bp_eviction_enabled t" "pg_durable t' = pg_durable t"
  shows "tree_holds E h m n t' = tree_holds E h m n t"
  unfolding tree_holds_def pool_state_def pool_ok_def pager_same_laws [OF assms(1)] pool_view_same [OF assms(1,2)] assms(2-5)
  using assms(1) by (simp add: pager_same_def)

lemma db_serves_stats:
  assumes "db_serves N ps n m d"
  shows "db_serves N ps n m (d\<lparr>db_tree := (db_tree d)\<lparr>pg_stats := a, tr_stats := b, bp_stats := c\<rparr>, db_wal := (db_wal d)\<lparr>wl_stats := e\<rparr>\<rparr>)"
proof -
  have "tree_holds E h m k ((db_tree d)\<lparr>pg_stats := a, tr_stats := b, bp_stats := c\<rparr>) = tree_holds E h m k (db_tree d)" for E h k
    by (rule tree_holds_same) (simp_all add: pager_same_def)
  with assms show ?thesis unfolding db_serves_def db_holds_def db_ok_def db_live_def settled_def headroom_def db_config_def
    by (simp add: wal_state_def dirty_count_def lsns_fit_def file_bytes_def size_bytes_def page_limit_def wal_bytes_of_def)
qed

lemma reset_stats_return:
  assumes "bench_ok N ps n s"
  shows "leads (on_db reset_stats) s (\<lambda>_. bench_ok N ps n)"
proof -
  from assms obtain m where m: "db_serves N ps n m (bn_db s)" "card (dom m) + n < 2 ^ Suc N" by (auto simp: bench_ok_def)
  let ?d = "bn_db s" and ?t = "db_tree (bn_db s)"
  have "reset_stats ?d = (Inr (), ?d\<lparr>db_tree := ?t\<lparr>pg_stats := pager_stats_reset (pg_stats ?t), tr_stats := tree_stats_reset (tr_stats ?t),
      bp_stats := pool_stats_reset (bp_stats ?t)\<rparr>, db_wal := (db_wal ?d)\<lparr>wl_stats := wal_stats_reset (wl_stats (db_wal ?d))\<rparr>\<rparr>)"
    by (simp add: reset_stats_def bind_op_def on_tree_def on_wal_def)
  with m(2) db_serves_stats [OF m(1)] show ?thesis unfolding bench_ok_def by (intro leads_db) (fastforce simp: leads_def)
qed

section \<open>Scans end\<close>

lemma entries_bound:
  "\<forall>(p, n) \<in> set (pages T). page_good ps n \<Longrightarrow> length (entries (leaf_seq T)) \<le> length (pages T) * ps"
proof (induction T)
  case (Lf p r ss)
  have "length ss \<le> lsum ss" by (induction ss) (auto simp: calculate_leaf_slot_size_def)
  with Lf show ?case by (simp add: page_good_def is_page_overpopulated_def)
next
  case (Nd p t kts)
  have row: "length (entries (row_seq kts')) \<le> length (row_pages kts') * ps" if "set kts' \<subseteq> set kts" for kts'
    using that
  proof (induction kts')
    case (Cons kt kts')
    obtain k u where kt: "kt = (k, u)" by fastforce
    then have "(k, u) \<in> set kts" using Cons.prems by simp
    moreover have "\<forall>(p, n) \<in> set (pages u). page_good ps n" using Nd.prems calculation by (fastforce simp: row_pages_def)
    ultimately have "length (entries (leaf_seq u)) \<le> length (pages u) * ps" using Nd.IH(2) [of "(k, u)" u] by simp
    with Cons kt show ?case by (simp add: add_mult_distrib)
  qed simp
  have "length (entries (leaf_seq t)) \<le> length (pages t) * ps" using Nd.prems by (intro Nd.IH(1)) auto
  with row [of kts] show ?case by (simp add: add_mult_distrib flip: row_seq_def row_pages_def)
qed

lemma db_holds_small:
  assumes "db_holds N m d"
  shows "card (dom m) \<le> page_limit (db_tree d) * pg_page_size (db_tree d)"
proof -
  obtain E h rs where ok: "db_ok N E h m rs d" "settled E d" "db_is_opened d" "tree_holds E h m (Suc h) (db_tree d)"
    by (rule db_holds_descend [OF assms])
  from ok(4) obtain T where T: "tree_ok (env_page_size E) h T" "contents T = m" "pool_state E (map_of (pages T)) {} {} {} (Suc h) (pid T) (db_tree d)"
    by (auto simp: tree_holds_def tree_fine_def)
  have "card (dom m) \<le> length (entries (leaf_seq T))"
    using card_length [of "map lkey (entries (leaf_seq T))"] T(2) by (auto simp: contents_def dom_map_of_conv_image_fst image_comp kv_def comp_def)
  also have "\<dots> \<le> length (pages T) * env_page_size E"
    by (rule entries_bound) (use T(1) in \<open>auto simp: tree_ok_def fine_def\<close>)
  also have "\<dots> \<le> page_limit (db_tree d) * env_page_size E"
    using pool_state_pages(1) [OF T(3)] T(1) by (simp add: tree_ok_def)
  finally show ?thesis using tree_holds_meta(3) [OF ok(4)] by simp
qed

lemma consume_take:
  assumes "db_scan_take k it d = (Inr xs, d')" and "0 < k" and "k \<le> fuel"
    and "length xs < k \<or> (\<exists>l. limit = Some l \<and> l \<le> c + k)" and "\<And>l. limit = Some l \<Longrightarrow> c + k \<le> max l (c + 1)"
  shows "consume fuel limit c it d = (Inr (), d')"
  using assms
proof (induction k arbitrary: fuel c it d xs)
  case (Suc k)
  then obtain fuel' where f: "fuel = Suc fuel'" by (cases fuel) auto
  obtain r d1 where n: "db_scan_next it d = (r, d1)" by fastforce
  with Suc.prems(1) obtain item it' where r: "r = Inr (item, it')" by (cases r) (auto simp: bind_op_def)
  show ?case
  proof (cases item)
    case None
    with Suc.prems(1) n r f show ?thesis by (simp add: bind_op_Inr)
  next
    case (Some y)
    with Suc.prems(1) n r obtain ys where ys: "db_scan_take k it' d1 = (Inr ys, d')" "xs = y # ys"
      by (auto simp: bind_op_def split: prod.splits sum.splits)
    show ?thesis
    proof (cases "limit \<noteq> None \<and> the limit \<le> c + 1")
      case True
      then have "k = 0" using Suc.prems(5) by fastforce
      with True n r Some ys f show ?thesis by (simp add: bind_op_Inr)
    next
      case False
      with Suc.prems(4,5) ys(2) have "0 < k" by (cases k) auto
      moreover have "c + 1 + k \<le> max l (c + 1 + 1)" if "limit = Some l" for l
        using Suc.prems(5) [OF that] False that by simp
      ultimately have "consume fuel' limit (c + 1) it' d1 = (Inr (), d')"
        using ys Suc.prems(3,4) f by (intro Suc.IH [OF ys(1)]) auto
      with n r Some f False show ?thesis by (auto simp: bind_op_Inr)
    qed
  qed
qed simp

lemma scan_once_leads:
  assumes "db_serves N ps (Suc n) m d"
  shows "leads (scan_once limit) d (\<lambda>_. db_serves N ps n m)"
proof -
  define fuel where "fuel = Suc (page_limit (db_tree d) * pg_page_size (db_tree d))"
  define k where "k = (case limit of None \<Rightarrow> fuel | Some l \<Rightarrow> min fuel (max 1 l))"
  have holds: "db_holds N m d" using assms by (simp add: db_serves_def)
  note scan = db_scan_ok [OF holds, where a = None and b = None, unfolded option.map]
  from scan(2) [where k = k] obtain d' where
    d': "db_scan_take k (ScanIter None None (db_version_counter d) ScanStart) d = (Inr (take k (map_range m None None)), d')"
      "db_holds N m d'" "step_bound N d d'" by blast
  have "finite (dom m)" using holds by (auto simp: db_holds_def db_ok_def db_live_def tree_holds_def contents_def finite_dom_map_of)
  then have "length (map_range m None None) < fuel" using db_holds_small [OF holds] by (simp add: map_range_def fuel_def in_range_def)
  then have "consume fuel limit 0 (ScanIter None None (db_version_counter d) ScanStart) d = (Inr (), d')"
    by (intro consume_take [OF d'(1)]) (auto simp: k_def fuel_def split: option.split)
  then have "scan_once limit d = (Inr (), d')" using scan(1) by (simp add: scan_once_def bind_op_Inr fuel_def)
  with db_serves_step [OF assms d'(2,3)] show ?thesis by (simp add: leads_def)
qed

lemma scans_return:
  assumes "bench_ok N ps (length is + n) s"
  shows "leads (scans lib p is pr lat) s (measured N ps n (length lat + length is))"
  using assms
proof (induction "is" arbitrary: s pr lat)
  case (Cons i "is")
  have once: "leads (on_db (scan_once limit)) s' (\<lambda>_. bench_ok N ps k)" if "bench_ok N ps (Suc k) s'" for limit s' k
    using that unfolding bench_ok_def by (auto intro!: leads_db leads_mono [OF scan_once_leads])
  from Cons.prems have "bench_ok N ps (Suc (length is + n)) s" by simp
  then show ?case unfolding scans.simps
    by (auto intro!: leads_steps leads_any_env leads_mono [OF once] leads_mono [OF Cons.IH])
qed (auto intro!: leads_steps simp: measured_def)

section \<open>The snapshot\<close>

lemma is_page_strip [simp]: "is_LeafPage (strip n) = is_LeafPage n" "is_InternalPage (strip n) = is_InternalPage n"
  by (cases n; simp)+

lemma shape_of_stripped: "shape_of_levels lib ps (map (map strip) levels) = shape_of_levels lib ps levels"
  by (simp add: shape_of_levels_def last_map filter_map comp_def Let_def flip: map_concat)

lemma mirrored_levels:
  assumes "list_all2 (list_all2 (mirrors ns)) levels ts"
  shows "map (map strip) (map (map (\<lambda>a. node_page (ns ! a))) levels) = map (map tnode) ts"
proof -
  have "map (strip \<circ> (\<lambda>a. node_page (ns ! a))) as = map tnode us" if "list_all2 (mirrors ns) as us" for as us
    using that by (induction rule: list_all2_induct) (auto simp: mirrors_iff stands_for_def)
  with assms show ?thesis by (induction rule: list_all2_induct) auto
qed

lemma leaf_level_pages:
  "\<forall>t \<in> set ts. depth_ok h t \<Longrightarrow> map tnode (last (tree_levels h ts)) = filter is_LeafPage (map snd (concat (map pages ts)))"
proof (induction h arbitrary: ts)
  case 0
  then show ?case
  proof (induction ts)
    case (Cons t ts)
    then show ?case by (cases t) auto
  qed simp
next
  case (Suc h)
  have "map tnode (last (tree_levels h (concat (map kids ts)))) = filter is_LeafPage (map snd (concat (map pages (concat (map kids ts)))))"
    by (rule Suc.IH) (use Suc.prems depth_kids in fastforce)
  also have "\<dots> = filter is_LeafPage (map snd (concat (map pages ts)))" using Suc.prems
  proof (induction ts)
    case (Cons t ts)
    then obtain p u kts where "t = Nd p u kts" by (cases t) auto
    with Cons show ?case by (simp add: row_pages_def comp_def case_prod_unfold)
  qed simp
  finally show ?case by simp
qed

lemma internal_pages_count:
  "\<forall>t \<in> set ts. depth_ok h t \<Longrightarrow>
     length (filter is_InternalPage (concat (map (map tnode) (tree_levels h ts)))) = length (filter is_InternalPage (map snd (concat (map pages ts))))"
proof (induction h arbitrary: ts)
  case 0
  then show ?case
  proof (induction ts)
    case (Cons t ts)
    then show ?case by (cases t) auto
  qed simp
next
  case (Suc h)
  have "length (filter is_InternalPage (concat (map (map tnode) (tree_levels h (concat (map kids ts)))))) =
      length (filter is_InternalPage (map snd (concat (map pages (concat (map kids ts))))))"
    by (rule Suc.IH) (use Suc.prems depth_kids in fastforce)
  moreover have "length (filter is_InternalPage (map tnode ts)) + length (filter is_InternalPage (map snd (concat (map pages (concat (map kids ts)))))) =
      length (filter is_InternalPage (map snd (concat (map pages ts))))"
  proof (induction ts)
    case (Cons t ts)
    show ?case using Cons by (simp add: pages_kids [of t])
  qed simp
  ultimately show ?case by simp
qed

text \<open>The shape of a tree, read off its pages.\<close>

definition shape_of_pages :: "('e, 'f :: inverse) library \<Rightarrow> nat \<Rightarrow> nat \<Rightarrow> node list \<Rightarrow> 'f tree_shape" where
  "shape_of_pages lib ps h ns = (let leaves = filter is_LeafPage ns in
     \<lparr>shape_depth = Suc h, leaf_pages = length leaves, internal_pages = length (filter is_InternalPage ns),
      avg_leaf_fill = lib_sum lib (map (\<lambda>n. lib_float lib (of_nat (calculate_page_size n) / of_nat ps)) leaves) / lib_float lib (of_nat (length leaves))\<rparr>)"

lemma leaves_exist: "filter is_LeafPage (map snd (pages T)) \<noteq> []"
  by (induction T) auto

lemma snapshot_ok:
  assumes st: "pool_state E (map_of (pages T)) {} {} {} 1 (pid T) (db_tree d)" and ok: "tree_ok (env_page_size E) h T"
  shows "\<exists>w t. snapshot_tree_shape lib d = (Inr (shape_of_pages lib (env_page_size E) h (map snd (pages T))), d\<lparr>db_tree := t\<rparr>) \<and>
     bfs_walk_tree (db_tree d) = (Inr w, t) \<and> pool_state E (map_of (pages T)) {} {} {} 1 (pid T) t"
proof -
  have T: "distinct (map fst (pages T))" "depth_ok h T" using ok by (auto simp: tree_ok_def)
  obtain w t where w: "bfs_walk_tree (db_tree d) = (Inr w, t)" "pool_state E (map_of (pages T)) {} {} {} (Suc 0) (pid T) t"
    "list_all2 (list_all2 (mirrors (wk_nodes w))) (wk_result w) (tree_levels h [T])" "h \<le> length (wk_nodes w)"
    by (rule bfs_walk_tree_ok [OF st [unfolded One_nat_def] T])
  let ?levels = "map (map (\<lambda>a. node_page (wk_nodes w ! a))) (wk_result w)"
  have ps: "pg_page_size t = env_page_size E" using pool_okD(6) [OF w(2) [unfolded pool_state_def]] by simp
  have "shape_of_levels lib (env_page_size E) ?levels = shape_of_levels lib (env_page_size E) (map (map tnode) (tree_levels h [T]))"
    using shape_of_stripped [of lib _ ?levels] mirrored_levels [OF w(3)] by simp
  also have "\<dots> = shape_of_pages lib (env_page_size E) h (map snd (pages T))"
    using leaf_level_pages [of "[T]" h] internal_pages_count [of "[T]" h] T(2) leaves_exist [of T]
    by (simp add: shape_of_levels_def shape_of_pages_def Let_def last_map length_levels filter_id_conv)
  finally have "snapshot_tree_shape lib d = (Inr (shape_of_pages lib (env_page_size E) h (map snd (pages T))), d\<lparr>db_tree := t\<rparr>)"
    using w(1) ps by (simp add: snapshot_tree_shape_def bind_op_def on_tree_def)
  with w(1,2) show ?thesis by simp
qed

text \<open>The leaves of a tree that is not a single leaf are between 40 and 100 per cent full.\<close>

lemma leaf_fill_bounds:
  assumes ok: "tree_ok ps h T" and n: "(p, n) \<in> set (pages T)" "is_LeafPage n"
  shows "calculate_page_size n \<le> ps" and "0 < h \<Longrightarrow> 2 * ps \<le> 5 * calculate_page_size n"
proof -
  have fine: "fine ps (pid T) (pages T)" and d: "distinct (map fst (pages T))" and dep: "depth_ok h T" using ok by (auto simp: tree_ok_def)
  show "calculate_page_size n \<le> ps" using fine n(1) by (auto simp: fine_def page_good_def is_page_overpopulated_def)
  assume "0 < h"
  then have "\<not> is_LeafPage (tnode T)" using dep by (cases T; cases h) auto
  moreover have "n = tnode T" if "p = pid T"
    using that map_of_is_SomeI [OF d n(1)] by (simp add: pages_kids [of T])
  ultimately have "p \<noteq> pid T" using n(2) by auto
  then show "2 * ps \<le> 5 * calculate_page_size n" using fine n(1) by (auto simp: fine_def is_page_underpopulated_def)
qed

section \<open>The walk only reads\<close>

lemma keeps_walk:
  fixes P :: "'z tree_scheme \<Rightarrow> bool"
  assumes get: "\<And>p. keeps P (pool_get p)" and root: "keeps P tree_root"
  shows "keeps P bfs_walk_tree"
proof -
  have node: "keeps P (page_id_to_node p)" for p unfolding page_id_to_node_def by (intro keeps_rules get)
  have kids: "keeps P (add_children a l cs w)" for a l cs w
  proof (induction cs arbitrary: w)
    case (Cons c cs)
    then show ?case unfolding add_children.simps add_child_def by (intro keeps_rules node)
  qed (simp add: keeps_def)
  have loop: "keeps P (bfs_loop fuel w)" for fuel w
  proof (induction fuel arbitrary: w)
    case 0
    then show ?case by (subst bfs_loop.simps) (auto simp: keeps_def split: list.split)
  next
    case (Suc fuel)
    then show ?case by (subst bfs_loop.simps) (auto simp: Let_def split: list.split node.split simp del: add_children.simps intro!: keeps_rules kids)
  qed
  show ?thesis unfolding bfs_walk_tree_def by (intro keeps_rules root node loop)
qed

lemma grows_keeps: "(\<And>s. keeps (grown 0 s) f) \<Longrightarrow> grows 0 f"
  unfolding grows_def keeps_def using grown_refl by blast

lemma keeps_grows: "grows 0 f \<Longrightarrow> keeps (grown 0 s) f"
  unfolding grows_def keeps_def using grown_trans [of 0 s _ 0] by fastforce

lemma walk_reads:
  "keeps lsns_fit bfs_walk_tree" "keeps (\<lambda>s. dirty_count s \<le> d) bfs_walk_tree" "grows 0 bfs_walk_tree"
proof -
  have root: "keeps P tree_root" if "\<And>s s'. pager.more s' = pager.more s \<Longrightarrow> P s \<Longrightarrow> P s'" for P :: "'z tree_scheme \<Rightarrow> bool"
    by (rule keeps_from_pool [OF keeps_pool_alloc(4) that])
  have pool: "lsns_fit s' = lsns_fit s" "dirty_count s' = dirty_count s" if "pager.more s' = pager.more s" for s s' :: "'z tree_scheme"
    using more_pool(1) [OF that] by (simp_all add: lsns_fit_def dirty_count_def)
  show "keeps (lsns_fit :: 'z tree_scheme \<Rightarrow> bool) bfs_walk_tree" by (rule keeps_walk [OF lsns_keep_get root]) (use pool(1) in blast)
  show "keeps (\<lambda>s :: 'z tree_scheme. dirty_count s \<le> d) bfs_walk_tree"
    by (rule keeps_walk [OF dirty_keep_get root]) (metis pool(2))
  have g: "grows 0 (tree_root :: ('z tree_scheme, nat) op)" unfolding tree_root_def by (intro grows_rules grows_bind0)
  have g': "grows 0 (pool_get p :: ('z tree_scheme, node) op)" for p by (intro grows_rules)
  show "grows 0 (bfs_walk_tree :: ('z tree_scheme, walk) op)"
    by (rule grows_keeps) (rule keeps_walk [OF keeps_grows [OF g'] keeps_grows [OF g]])
qed

lemma pool_state_stored:
  assumes "pool_state E (map_of (pages T)) R H U n (pid T) s" and "distinct (map fst (pages T))"
  shows "stored (pool_view s) T" and "map_option root_page_id (pg_meta s) = Some (pid T)"
  using assms pool_okD(2) [OF assms(1) [unfolded pool_state_def]]
  by (auto simp: stored_def pool_state_def pool_ok_def)

lemma snapshot_holds:
  assumes "db_holds N m d"
  obtains h T d' where "snapshot_tree_shape lib d = (Inr (shape_of_pages lib (pg_page_size (db_tree d)) h (map snd (pages T))), d')"
    "db_holds N m d'" "page_limit (db_tree d') = page_limit (db_tree d)" "pg_page_size (db_tree d') = pg_page_size (db_tree d)" "db_wal d' = db_wal d"
    "tree_ok (pg_page_size (db_tree d)) h T" "contents T = m"
    "\<forall>t \<in> {db_tree d, db_tree d'}. stored (pool_view t) T \<and> map_option root_page_id (pg_meta t) = Some (pid T)"
proof -
  obtain E h rs where ok: "db_ok N E h m rs d" "settled E d" "db_is_opened d" "tree_holds E h m (Suc h) (db_tree d)"
    by (rule db_holds_descend [OF assms])
  have "tree_holds E h m 1 (db_tree d)" using ok(4) tree_holds_room [of E h m "Suc h" "db_tree d"] tree_holds_room [of E h m 1 "db_tree d"] by auto
  then obtain T where T: "129 \<le> env_page_size E" "tree_fine (env_page_size E) h T" "contents T = m"
    "pool_state E (map_of (pages T)) {} {} {} 1 (pid T) (db_tree d)" by (auto simp: tree_holds_def)
  have tok: "tree_ok (env_page_size E) h T" using T(2) by (simp add: tree_fine_def)
  from snapshot_ok [OF T(4) tok, of lib] obtain w t where
    t: "snapshot_tree_shape lib d = (Inr (shape_of_pages lib (env_page_size E) h (map snd (pages T))), d\<lparr>db_tree := t\<rparr>)"
     "bfs_walk_tree (db_tree d) = (Inr w, t)" "pool_state E (map_of (pages T)) {} {} {} 1 (pid T) t" by blast
  have th: "tree_holds E h m 1 t" using T(1-3) t(3) by (auto simp: tree_holds_def)
  have ps: "env_page_size E = pg_page_size (db_tree d)" using tree_holds_meta(3) [OF ok(4)] by simp
  have "distinct (map fst (pages T))" using tok by (simp add: tree_ok_def)
  note kept = pool_state_stored [OF T(4) this] pool_state_stored [OF t(3) this]
  from db_read [OF ok(1-3) t(2) th walk_reads] show thesis
    by (intro that [OF t(1) [unfolded ps]]) (use tok T(3) ps kept in auto)
qed

section \<open>Flushing and closing\<close>

lemma flush_live:
  assumes live: "db_live E h m rs d" and lim: "page_limit (db_tree d) \<le> 2 ^ 62"
  obtains t where "flush_all (db_tree d) = (Inr (), t)" "db_live E h m rs (d\<lparr>db_tree := t\<rparr>)" "page_limit t = page_limit (db_tree d)"
proof -
  from live obtain T where T: "129 \<le> env_page_size E" "tree_fine (env_page_size E) h T" "contents T = m"
    "pool_state E (map_of (pages T)) {} {} {} 0 (pid T) (db_tree d)" "lsns_fit (db_tree d)" "wal_state rs (db_wal d)"
    by (auto simp: db_live_def tree_holds_def)
  have "page_limit (db_tree d) \<le> 256 ^ 8" using lim by (rule order_trans) simp
  from cached_pages_fit [OF T(2,4) refl T(5) this] have
    "\<forall>(p, e) \<in> set (bp_cache (db_tree d)). is_dirty e \<longrightarrow> node_fits (pg_page_size (db_tree d)) (cp_page e)" by auto
  from flush_all_ok [OF T(4) [unfolded pool_state_def] _ this] obtain t where
    t: "flush_all (db_tree d) = (Inr (), t)" "pool_state E (map_of (pages T)) {} {} {} 0 (pid T) t" "meta_frame (db_tree d) t" "dirty_count t = 0"
    by (auto simp: pool_state_def)
  have "db_live E h m rs (d\<lparr>db_tree := t\<rparr>)"
    using T(1-3,6) t(2) lsns_fit_clean [OF t(2,4)] by (auto simp: db_live_def tree_holds_def)
  moreover have "page_limit t = page_limit (db_tree d)" using t(3) by (simp add: meta_frame_def page_limit_def)
  ultimately show thesis by (rule that [OF t(1)])
qed

section \<open>Runners\<close>

lemma bench_ok_less:
  assumes "bench_ok N ps k s" and "n \<le> k"
  shows "bench_ok N ps n s"
proof -
  from assms(1) obtain m where m: "db_serves N ps k m (bn_db s)" "card (dom m) + k < 2 ^ Suc N" by (auto simp: bench_ok_def)
  then have "db_serves N ps n m (bn_db s)" using headroom_less [OF _ assms(2)] by (simp add: db_serves_def)
  with m(2) assms(2) show ?thesis unfolding bench_ok_def by (intro exI [of _ m]) simp
qed

text \<open>The operations that a workload performs, and those that it measures.\<close>

definition workload_ops :: "'f workload_params \<Rightarrow> nat" where
  "workload_ops p = preload_n p + n_ops p + n_scans p"

definition measured_ops :: "string \<Rightarrow> 'f workload_params \<Rightarrow> nat" where
  "measured_ops name p = (if name = ''scan-heavy'' then n_scans p else n_ops p)"

lemma runners_return:
  assumes lib: "library_ok lib" and sizes: "sizes_fit ps (key_size p) (value_size p)" and ok: "bench_ok N ps (workload_ops p + n) s"
    and runner: "map_of (RUNNERS lib) name = Some runner"
  shows "leads (runner p ctx) s (measured N ps n (measured_ops name p))"
proof -
  have a: "bench_ok N ps (preload_n p + (n_ops p + n)) s" "bench_ok N ps (preload_n p + (n_scans p + n)) s" "bench_ok N ps (n_ops p + n) s"
    using ok by (auto simp: workload_ops_def elim!: bench_ok_less)
  have pre: "leads (preload lib (preload_n p) p ctx) s (\<lambda>_ s'. leads (on_db reset_stats) s' (\<lambda>_. bench_ok N ps k))"
    if "bench_ok N ps (preload_n p + k) s" for k
    by (rule leads_mono [OF preload_return [OF lib that sizes] reset_stats_return])
  have post: "leads (progress_for lib ctx ph j) s' Q" if "bench_ok N ps k s'" "\<And>pr s''. bench_ok N ps k s'' \<Longrightarrow> Q pr s''" for ph j s' Q k
    using that by (auto intro!: leads_progress)
  have seq: "leads (run_sequential_put lib p ctx) s (measured N ps n (n_ops p))"
    unfolding run_sequential_put_def
    by (rule leads_bind, rule post [OF a(3)], rule leads_mono [OF sequential_puts_return]) (use sizes in auto)
  have rnd: "leads (run_random_put lib p ctx) s (measured N ps n (n_ops p))"
    unfolding run_random_put_def
    by (rule leads_bind, rule post [OF a(3)], rule leads_mono [OF random_puts_return [OF lib]]) (use sizes in auto)
  have mix: "leads (run_mixed_rw lib p ctx) s (measured N ps n (n_ops p))"
    unfolding run_mixed_rw_def
    by (rule leads_bind, rule leads_mono [OF pre [OF a(1)]], rule leads_bind, erule leads_mono, rule leads_bind, erule post,
        rule leads_mono [OF mixed_steps_return [OF lib]]) (use sizes in auto)
  have chu: "leads (run_delete_churn lib p ctx) s (measured N ps n (n_ops p))"
    unfolding run_delete_churn_def
    by (rule leads_bind, rule leads_mono [OF pre [OF a(1)]], rule leads_bind, erule leads_mono, rule leads_bind, erule post,
        rule leads_mono [OF churn_steps_return [OF lib]]) (use sizes in auto)
  have sca: "leads (run_scan_heavy lib p ctx) s (measured N ps n (n_scans p))"
    unfolding run_scan_heavy_def
    by (rule leads_bind, rule leads_mono [OF pre [OF a(2)]], rule leads_bind, erule leads_mono, rule leads_bind, erule post,
        rule leads_mono [OF scans_return]) auto
  show ?thesis using runner seq rnd mix chu sca
    by (auto simp: RUNNERS_def run_bulk_load_def measured_ops_def split: if_splits)
qed

section \<open>A whole measurement\<close>

lemma leads_finally:
  "leads m s (\<lambda>a s'. leads f s' (\<lambda>_. Q a)) \<Longrightarrow> leads (finally_op m f) s Q"
  by (auto simp: leads_def finally_op_def)

lemma leads_gets: "Q (g s) s \<Longrightarrow> leads (gets_op g) s Q"
  by (simp add: leads_def)

lemma close_leads: "closable N m d \<Longrightarrow> leads db_close d (\<lambda>_ d'. size_bytes (db_wal d') = 41 \<and> \<not> db_is_opened d')"
  using db_close_closable [of N m d MIN_PAGE_SIZE None] by (auto simp: leads_def)

lemma flush_leads:
  assumes "db_holds N m d" and "headroom 1 N d"
  shows "leads (on_tree flush_all) d (\<lambda>_. closable N m)"
proof -
  from db_holds_closable [OF assms] obtain E h rs where c: "db_live E h m rs d" "db_config N E d" "last_lsn_of rs + 4 < 2 ^ 64"
    "db_is_opened d" "page_limit (db_tree d) \<le> 2 ^ 61" "card (dom m) < 2 ^ Suc N" by (auto simp: closable_def)
  obtain t where t: "flush_all (db_tree d) = (Inr (), t)" "db_live E h m rs (d\<lparr>db_tree := t\<rparr>)" "page_limit t = page_limit (db_tree d)"
    by (rule flush_live [OF c(1)]) (use c(5) in simp_all)
  then have "closable N m (d\<lparr>db_tree := t\<rparr>)" using c unfolding closable_def db_config_def by auto
  with t(1) show ?thesis by (simp add: leads_def on_tree_def)
qed

text \<open>The shape that is reported is that of a well-formed tree with pages of the given size.\<close>

definition reports_tree :: "('e, 'f :: inverse) library \<Rightarrow> nat \<Rightarrow> 'f tree_shape \<Rightarrow> bool" where
  "reports_tree lib ps shape \<longleftrightarrow> (\<exists>h T. tree_ok ps h T \<and> shape = shape_of_pages lib ps h (map snd (pages T)))"

lemma snapshot_leads:
  assumes "db_serves N ps n m d"
  shows "leads (snapshot_tree_shape lib) d (\<lambda>shape d'. reports_tree lib ps shape \<and> db_serves N ps n m d')"
proof -
  from assms have d: "db_holds N m d" "headroom n N d" "pg_page_size (db_tree d) = ps" by (simp_all add: db_serves_def)
  obtain h T d' where s: "snapshot_tree_shape lib d = (Inr (shape_of_pages lib (pg_page_size (db_tree d)) h (map snd (pages T))), d')"
    "db_holds N m d'" "page_limit (db_tree d') = page_limit (db_tree d)" "pg_page_size (db_tree d') = pg_page_size (db_tree d)" "db_wal d' = db_wal d"
    "tree_ok (pg_page_size (db_tree d)) h T" "contents T = m"
    "\<forall>t \<in> {db_tree d, db_tree d'}. stored (pool_view t) T \<and> map_option root_page_id (pg_meta t) = Some (pid T)"
    by (rule snapshot_holds [OF d(1)])
  with d show ?thesis unfolding leads_def db_serves_def reports_tree_def by (auto simp: headroom_def)
qed

lemma measured_run_leads:
  assumes "\<And>e. leads run (s\<lparr>bn_env := e\<rparr>) (measured N ps 1 k)"
  shows "leads (measured_run lib run name p ps) s (\<lambda>r s'. n_measured_ops r = k \<and> length (latencies_ns r) = k \<and>
     preset_name r = name \<and> result_params r = p \<and> reports_tree lib ps (result_tree_shape r) \<and> (\<exists>m. closable N m (bn_db s')))"
proof -
  have last: "leads (on_db (snapshot_tree_shape lib)) s1 (\<lambda>shape s'. leads (bind_op (on_db (on_tree flush_all)) (\<lambda>_. gets_op (g shape))) s' Q)"
    if "bench_ok N ps 1 s1" "\<And>shape d' m. reports_tree lib ps shape \<Longrightarrow> closable N m d' \<Longrightarrow> Q (g shape (s1\<lparr>bn_db := d'\<rparr>)) (s1\<lparr>bn_db := d'\<rparr>)" for s1 g Q
    using that unfolding bench_ok_def
    by (auto intro!: leads_bind leads_db leads_gets leads_mono [OF snapshot_leads] leads_mono [OF flush_leads] simp: db_serves_def)
  show ?thesis unfolding measured_run_def using assms
    by (auto intro!: leads_bind leads_env leads_mono [OF assms(1)] last simp: measured_def split: prod.split)
qed

lemma measure_workload_leads:
  assumes lib: "library_ok lib" and name: "name \<in> fst ` set (RUNNERS lib)" and sizes: "sizes_fit ps (key_size p) (value_size p)"
    and ps: "129 \<le> ps" "ps < 256 ^ 4" and ops: "workload_ops p + 1 < 2 ^ 18"
  shows "leads (measure_workload lib name p ps show_progress) s (\<lambda>r s'. n_measured_ops r = measured_ops name p \<and>
     length (latencies_ns r) = measured_ops name p \<and> preset_name r = name \<and> result_params r = p \<and> reports_tree lib ps (result_tree_shape r) \<and>
     wal_file_bytes r = 41 \<and> \<not> db_is_opened (bn_db s'))"
proof -
  from name obtain runner where run: "map_of (RUNNERS lib) name = Some runner" by (metis map_of_eq_None_iff not_None_eq)
  obtain d0 where d0: "DB_init None None None ps 256 (4 * 1024 * 1024) (1, 2) = Inr d0"
    using ps by (simp add: DB_init_def Pager_init_def bind_r_def MIN_PAGE_SIZE_def)
  obtain d where d: "db_open d0 = (Inr (), d)" "db_holds 17 Map.empty d" "pg_page_size (db_tree d) = ps" "headroom (2 ^ 50) 17 d"
    by (rule db_create_ok [OF d0 ps, where N = 17]) (simp add: config_ok_def)
  have "headroom (workload_ops p + 1) 17 d" by (rule headroom_less [OF d(4)]) (use ops in simp)
  then have ok: "bench_ok 17 ps (workload_ops p + 1) (s'\<lparr>bn_db := d\<rparr>)" for s' :: "('a, 'b) bench"
    using d(2,3) ops unfolding bench_ok_def by (intro exI [of _ Map.empty]) (simp add: db_serves_def)
  note go = runners_return [OF lib sizes _ run]
  show ?thesis unfolding measure_workload_def Let_def using run d0 d(1) ok
    by (auto intro!: leads_bind leads_any_env leads_finally leads_mono [OF measured_run_leads [OF go]] leads_gets
         leads_db leads_mono [OF close_leads] simp: leads_def [of "lift_r _"] leads_def [of "modify_op _"] leads_def [of db_open])
qed

section \<open>Sequential keys\<close>

lemma digit_order: "(of_nat (48 + i mod 10) :: byte) < of_nat (48 + j mod 10) \<longleftrightarrow> i mod 10 < j mod 10"
proof -
  have "unat (of_nat (48 + k mod 10) :: byte) = 48 + k mod 10" for k
    using mod_less_divisor [of 10 k] by (simp add: unat_of_nat take_bit_eq_mod del: of_nat_add)
  then show ?thesis by (simp only: word_less_nat_alt add_less_cancel_left)
qed

lemma sequential_key_digits:
  assumes "i < 10 ^ Suc w"
  shows "make_sequential_key i (Suc w) = make_sequential_key (i div 10) w @ [of_nat (48 + i mod 10)]"
proof (cases "i < 10")
  case True
  then show ?thesis
    by (cases w) (simp_all add: make_sequential_key_def rjust_def decimal.simps [of i] decimal.simps [of 0] Let_def flip: replicate_append_same)
next
  case False
  have "length (decimal j) \<le> k" if "j < 10 ^ k" "0 < k" for j k
    using that
  proof (induction k arbitrary: j)
    case (Suc k)
    show ?case
    proof (cases "j < 10")
      case False
      then have "0 < k" using Suc.prems(1) by (cases k) simp_all
      moreover have "j div 10 < 10 ^ k" using Suc.prems(1) by (simp add: div_less_iff_less_mult mult.commute)
      ultimately show ?thesis using Suc.IH False by (simp add: decimal.simps [of j])
    qed (simp add: decimal.simps [of j])
  qed simp
  note len = this
  have "i div 10 < 10 ^ w" using assms by (simp add: div_less_iff_less_mult mult.commute)
  moreover have "0 < w" using False assms by (cases w) simp_all
  ultimately have "length (decimal (i div 10)) \<le> w" by (rule len)
  with False show ?thesis by (simp add: make_sequential_key_def rjust_def decimal.simps [of i] Let_def)
qed

lemma append_less: "length xs = length ys \<Longrightarrow> (xs @ [a] < ys @ [b]) = (xs < ys \<or> xs = ys \<and> a < (b :: byte))"
  by (induction xs ys rule: list_induct2) auto

lemma sequential_keys_increase:
  "i < j \<Longrightarrow> j < 10 ^ w \<Longrightarrow> make_sequential_key i w < make_sequential_key j w"
proof (induction w arbitrary: i j)
  case (Suc w)
  have d: "i div 10 < j div 10 \<or> i div 10 = j div 10 \<and> i mod 10 < j mod 10" 
    using Suc.prems(1) div_le_mono [of i j 10] div_mult_mod_eq [of i 10] div_mult_mod_eq [of j 10] by linarith
  have "j div 10 < 10 ^ w" using Suc.prems(2) by (simp add: div_less_iff_less_mult mult.commute)
  with d Suc.IH [of "i div 10" "j div 10"] Suc.prems show ?case
    by (auto simp: sequential_key_digits append_less digit_order simp del: of_nat_add)
qed simp

text \<open>The map that the sequential workload builds.\<close>

definition stored_keys :: "nat \<Rightarrow> bytes \<Rightarrow> nat list \<Rightarrow> (bytes \<rightharpoonup> bytes) \<Rightarrow> bytes \<rightharpoonup> bytes" where
  "stored_keys w val is m = (\<lambda>k. if k \<in> (\<lambda>i. make_sequential_key i w) ` set is then Some val else m k)"

lemma stored_keys_simps:
  "stored_keys w val [] m = m" "stored_keys w val (i # is) m = stored_keys w val is (m(make_sequential_key i w \<mapsto> val))"
  by (auto simp: stored_keys_def fun_eq_iff)

lemma sequential_puts_store:
  assumes "db_serves N ps (length is + n) m (bn_db s)" and "card (dom m) + length is + n < 2 ^ Suc N" and "sizes_fit ps (key_size p) (length val)"
  shows "leads (sequential_puts lib p val is pr lat ub) s (\<lambda>r s'. length (fst r) = length lat + length is \<and>
     snd r = ub + length is * (key_size p + length val) \<and> db_serves N ps n (stored_keys (key_size p) val is m) (bn_db s'))"
  using assms(1,2)
proof (induction "is" arbitrary: s m pr lat ub)
  case (Cons i "is")
  let ?key = "make_sequential_key i (key_size p)"
  have serves: "db_serves N ps (Suc (length is + n)) m (bn_db s)" using Cons.prems(1) by simp
  have "put_allowed N ps ?key val m" using card_dom_put [of m ?key val] Cons.prems(2) sizes_fit_acceptable [of ps ?key val] assms(3) by (simp add: put_allowed_def)
  from db_store.put [OF serves this] obtain d where
    d: "db_put (PyBytes ?key) (PyBytes val) (bn_db s) = (Inr (), d)" "db_serves N ps (length is + n) (m(?key \<mapsto> val)) d" by blast
  have put: "leads (bench_put ?key val) (s\<lparr>bn_env := e\<rparr>) Q" if "Q () (s\<lparr>bn_env := e, bn_db := d\<rparr>)" for e Q
    using d(1) that by (simp add: leads_def bench_put_def on_db_def)
  have "card (dom (m(?key \<mapsto> val))) + length is + n < 2 ^ Suc N" using card_dom_put [of m ?key val] Cons.prems(2) by simp
  with d(2) show ?case unfolding sequential_puts.simps Let_def
    by (auto intro!: leads_steps leads_any_env put leads_mono [OF Cons.IH] simp: stored_keys_simps simp del: fun_upd_apply)
qed (auto intro!: leads_steps simp: stored_keys_simps)

lemma map_range_stored:
  assumes "n \<le> 10 ^ w"
  shows "map_range (stored_keys w val [0..<n] Map.empty) None None = map (\<lambda>i. (make_sequential_key i w, val)) [0..<n]"
proof -
  let ?ks = "map (\<lambda>i. make_sequential_key i w) [0..<n]"
  have "sorted_wrt (<) ?ks" using assms by (auto simp: sorted_wrt_iff_nth_less intro!: sequential_keys_increase)
  then have "sorted_list_of_set (set ?ks) = ?ks" by (intro sorted_list_of_set.idem_if_sorted_distinct) (simp_all only: strict_sorted_iff)
  moreover have "{k \<in> dom (stored_keys w val [0..<n] Map.empty). in_range None None k} = set ?ks"
    by (auto simp: stored_keys_def in_range_def split: if_splits)
  ultimately show ?thesis unfolding map_range_def by (simp add: stored_keys_def)
qed

section \<open>The command line\<close>

definition default_args :: "'f cli_args" where
  "default_args = \<lparr>arg_workload = None, arg_all = True, arg_page_size = 4096, arg_no_progress = False, arg_n_ops = None, arg_key_size = None,
     arg_value_size = None, arg_read_pct = None, arg_delete_pct = None, arg_preload_n = None, arg_n_scans = None, arg_scan_limit = None,
     arg_steady_size = None, arg_seed = None\<rparr>"

lemma merge_default: "merge_overrides base default_args = base"
  by (cases base) (simp add: merge_overrides_def override_def default_args_def)

lemma measure_all_leads:
  assumes "\<And>name. name \<in> set names \<Longrightarrow> \<exists>base. map_of (PRESETS lib) name = Some base \<and>
     (\<forall>s. leads (measure_workload lib name (merge_overrides base args) (arg_page_size args) (\<not> arg_no_progress args)) s
        (\<lambda>r s'. (preset_name r, n_measured_ops r) = f name))"
  shows "leads (measure_all lib args names) s (\<lambda>rs s'. map (\<lambda>r. (preset_name r, n_measured_ops r)) rs = map f names)"
  using assms
proof (induction names arbitrary: s)
  case (Cons name names)
  from Cons.prems [of name] obtain base where base: "map_of (PRESETS lib) name = Some base"
    "\<forall>s. leads (measure_workload lib name (merge_overrides base args) (arg_page_size args) (\<not> arg_no_progress args)) s
        (\<lambda>r s'. (preset_name r, n_measured_ops r) = f name)" by auto
  have *: "leads (measure_all lib args names) s' (\<lambda>rs s'. map (\<lambda>r. (preset_name r, n_measured_ops r)) rs = map f names)" for s'
    by (rule Cons.IH) (use Cons.prems in simp)
  have "leads (measure_all lib args (name # names)) s
      (\<lambda>rs s'. map (\<lambda>r. (preset_name r, n_measured_ops r)) rs = f name # map f names)"
    using base(1) by (auto intro!: leads_bind leads_ret leads_mono [OF base(2) [rule_format]] leads_mono [OF *])
  then show ?case by simp
qed (auto intro: leads_ret)

lemma presets_fit:
  assumes "(name, base) \<in> set (PRESETS lib)"
  shows "name \<in> fst ` set (RUNNERS lib)" "sizes_fit 4096 (key_size base) (value_size base)" "workload_ops base + 1 < 2 ^ 18"
  using assms by (auto simp: PRESETS_def RUNNERS_def WorkloadParams_def sizes_fit_def get_max_leaf_record_size_def workload_ops_def Let_def)

definition sample_library :: "(unit, rat) library" where
  "sample_library = \<lparr>lib_perf_counter_ns = (\<lambda>e. (0, e)), lib_perf_counter = (\<lambda>e. (0, e)), lib_Random = (\<lambda>_ e. e), lib_random = (\<lambda>e. (1 / 2, e)),
     lib_randbytes = (\<lambda>n e. (replicate n 7, e)), lib_choice = (\<lambda>xs e. (hd xs, e)), lib_float = (\<lambda>x. x), lib_sum = sum_list\<rparr>"

lemma sample_library_ok: "library_ok sample_library"
  by (simp add: library_ok_def sample_library_def)

section \<open>Properties\<close>

text \<open>
  C11: every workload ends. Whatever the clock, the arithmetic of floats and the choices of the random generator, a
  measurement on a new database with the default configuration returns if the records fit the page size and there are
  fewer than \<open>2 ^ 18\<close> operations: nothing raises, there is one latency for every measured operation, the database
  is closed and its log holds only the record of the last checkpoint, of 41 bytes.
\<close>

theorem workloads_run_to_completion:
  assumes "library_ok lib" and "name \<in> fst ` set (RUNNERS lib)" and "sizes_fit ps (key_size p) (value_size p)"
    and "129 \<le> ps" and "ps < 2 ^ 32" and "preload_n p + n_ops p + n_scans p + 1 < 2 ^ 18"
  shows "\<exists>r s'. measure_workload lib name p ps show_progress s = (Inr r, s') \<and>
     n_measured_ops r = (if name = ''scan-heavy'' then n_scans p else n_ops p) \<and> length (latencies_ns r) = n_measured_ops r \<and>
     wal_file_bytes r = 41 \<and> \<not> db_is_opened (bn_db s')"
  using measure_workload_leads [of lib name ps p show_progress s] assms unfolding leads_def measured_ops_def workload_ops_def by auto

theorem workloads_run_to_completion_witness:
  "\<forall>d. \<exists>r s'. measure_workload sample_library ''scan-heavy'' ((WorkloadParams sample_library)\<lparr>preload_n := 500, n_ops := 0, n_scans := 20, scan_limit := Some 7\<rparr>)
     1024 True \<lparr>bn_db = d, bn_env = (), bn_err = []\<rparr> = (Inr r, s') \<and> n_measured_ops r = 20 \<and> wal_file_bytes r = 41"
  (is "\<forall>d. ?P d")
proof
  fix d
  let ?p = "(WorkloadParams sample_library)\<lparr>preload_n := 500, n_ops := 0, n_scans := 20, scan_limit := Some 7\<rparr>"
  have "''scan-heavy'' \<in> fst ` set (RUNNERS sample_library)" "sizes_fit 1024 (key_size ?p) (value_size ?p)"
    by (simp_all add: RUNNERS_def WorkloadParams_def sizes_fit_def get_max_leaf_record_size_def)
  from workloads_run_to_completion [OF sample_library_ok this, of True "\<lparr>bn_db = d, bn_env = (), bn_err = []\<rparr>"] show "?P d"
    by (auto simp: WorkloadParams_def)
qed

text \<open>
  C37: \<^verbatim>\<open>bench.py --all\<close> with its default arguments measures all six presets, in alphabetical order and with the
  numbers of operations that the presets ask for, and none of them raises.
\<close>

theorem all_presets_are_measured:
  assumes "library_ok lib"
  shows "\<exists>rs s'. main_results lib default_args s = (Inr rs, s') \<and> map (\<lambda>r. (preset_name r, n_measured_ops r)) rs =
     [(''bulk-load'', 200000), (''delete-churn'', 100000), (''mixed-rw'', 100000), (''random-put'', 100000), (''scan-heavy'', 100), (''sequential-put'', 100000)]"
proof -
  let ?names = "[''bulk-load'', ''delete-churn'', ''mixed-rw'', ''random-put'', ''scan-heavy'', ''sequential-put'']"
  let ?f = "\<lambda>name. (name, measured_ops name (the (map_of (PRESETS lib) name)))"
  have names: "sort (map fst (PRESETS lib)) = ?names"
    by (rule properties_for_sort) (auto simp: PRESETS_def Let_def less_eq_char_def less_char_def)
  then have base: "set ?names = fst ` set (PRESETS lib)" by (metis set_map set_sort)
  have "leads (measure_all lib default_args ?names) s (\<lambda>rs s'. map (\<lambda>r. (preset_name r, n_measured_ops r)) rs = map ?f ?names)"
  proof (rule measure_all_leads)
    fix name assume "name \<in> set ?names"
    then obtain b where b: "map_of (PRESETS lib) name = Some b" unfolding base by (metis map_of_eq_None_iff not_None_eq)
    note fit = presets_fit [OF map_of_SomeD [OF b]]
    have "leads (measure_workload lib name b 4096 True) s (\<lambda>r s'. (preset_name r, n_measured_ops r) = ?f name)" for s
      by (rule leads_mono [OF measure_workload_leads [OF assms fit(1,2) _ _ fit(3)]]) (use b in simp_all)
    with b show "\<exists>b. map_of (PRESETS lib) name = Some b \<and>
       (\<forall>s. leads (measure_workload lib name (merge_overrides b default_args) (arg_page_size default_args) (\<not> arg_no_progress default_args)) s
          (\<lambda>r s'. (preset_name r, n_measured_ops r) = ?f name))" by (simp add: merge_default) (simp add: default_args_def)
  qed
  moreover have "main_results lib default_args s = measure_all lib default_args ?names s"
    by (simp add: main_results_def names) (simp add: default_args_def)
  moreover have "map ?f ?names = [(''bulk-load'', 200000), (''delete-churn'', 100000), (''mixed-rw'', 100000), (''random-put'', 100000), (''scan-heavy'', 100), (''sequential-put'', 100000)]"
    by (simp add: PRESETS_def WorkloadParams_def measured_ops_def Let_def)
  ultimately show ?thesis unfolding leads_def by auto
qed

theorem all_presets_are_measured_witness:
  "\<forall>d. \<exists>rs s'. main_results sample_library default_args \<lparr>bn_db = d, bn_env = (), bn_err = []\<rparr> = (Inr rs, s') \<and> length rs = 6"
proof
  fix d
  from all_presets_are_measured [OF sample_library_ok, of "\<lparr>bn_db = d, bn_env = (), bn_err = []\<rparr>"]
  show "\<exists>rs s'. main_results sample_library default_args \<lparr>bn_db = d, bn_env = (), bn_err = []\<rparr> = (Inr rs, s') \<and> length rs = 6"
    by (auto dest: arg_cong [of _ _ length])
qed

text \<open>
  C35: the snapshot describes the stored tree \<open>T\<close>: its root is the root page of the meta page, and every one of its
  pages is what the pool holds, or would read, under its page ID, before and after the snapshot. The reported depth is
  the height of \<open>T\<close> plus one, the snapshot counts the leaves and the internal pages of \<open>T\<close>, and its average is that of the
  fills of all leaves in key order, each of which is at most 100 per cent and, unless the tree is a single leaf, at
  least 40 per cent. The log is left alone and the database holds the same map.
\<close>

theorem snapshot_reports_the_tree:
  assumes "db_holds N m d"
  shows "\<exists>h T d'. snapshot_tree_shape lib d = (Inr (shape_of_pages lib (pg_page_size (db_tree d)) h (map snd (pages T))), d') \<and>
     tree_ok (pg_page_size (db_tree d)) h T \<and> contents T = m \<and>
     (\<forall>t \<in> {db_tree d, db_tree d'}. stored (pool_view t) T \<and> map_option root_page_id (pg_meta t) = Some (pid T)) \<and>
     db_wal d' = db_wal d \<and> db_holds N m d' \<and>
     (\<forall>n \<in> set (filter is_LeafPage (map snd (pages T))). calculate_page_size n \<le> pg_page_size (db_tree d) \<and>
        (0 < h \<longrightarrow> 2 * pg_page_size (db_tree d) \<le> 5 * calculate_page_size n))"
proof -
  obtain h T d' where s: "snapshot_tree_shape lib d = (Inr (shape_of_pages lib (pg_page_size (db_tree d)) h (map snd (pages T))), d')"
    "db_holds N m d'" "page_limit (db_tree d') = page_limit (db_tree d)" "pg_page_size (db_tree d') = pg_page_size (db_tree d)" "db_wal d' = db_wal d"
    "tree_ok (pg_page_size (db_tree d)) h T" "contents T = m"
    "\<forall>t \<in> {db_tree d, db_tree d'}. stored (pool_view t) T \<and> map_option root_page_id (pg_meta t) = Some (pid T)"
    by (rule snapshot_holds [OF assms])
  with leaf_fill_bounds [OF s(6)] show ?thesis by (intro exI [of _ h] exI [of _ T] exI [of _ d']) auto
qed

theorem snapshot_reports_the_tree_witness:
  "\<exists>d shape d'. db_holds 3 Map.empty d \<and> snapshot_tree_shape sample_library d = (Inr shape, d') \<and>
     shape_depth shape = 1 \<and> leaf_pages shape = 1 \<and> internal_pages shape = 0"
proof -
  obtain d where d: "db_holds 3 Map.empty d" "pg_page_size (db_tree d) = 200" by (rule sample_db)
  from snapshot_reports_the_tree [OF d(1), of sample_library] d(2) obtain h T d' where
    s: "snapshot_tree_shape sample_library d = (Inr (shape_of_pages sample_library 200 h (map snd (pages T))), d')"
      "tree_ok 200 h T" "contents T = Map.empty" by auto
  have "h = 0" using tree_height_bound [OF s(2)] s(3) by simp
  then obtain p q ss where "T = Lf p q ss" using s(2) by (cases T) (auto simp: tree_ok_def)
  with s(1) d(1) \<open>h = 0\<close> show ?thesis
    by (intro exI [of _ d] exI [of _ "shape_of_pages sample_library 200 0 (map snd (pages (Lf p q ss)))"] exI [of _ d'])
      (simp add: shape_of_pages_def)
qed

text \<open>
  C36: the sequential workload writes distinct, increasing keys as long as the numbers fit the key size. On an empty
  database it returns a latency for each operation and the number of bytes written, and a full scan then yields all
  records in the order in which they were written.
\<close>

theorem sequential_workload_is_scanned_in_order:
  assumes "db_serves N ps (n_ops p + 1) Map.empty (bn_db s)" and "n_ops p + 1 < 2 ^ Suc N" and "sizes_fit ps (key_size p) (value_size p)"
    and "n_ops p \<le> 10 ^ key_size p"
  shows "\<exists>latencies s' d. run_sequential_put lib p ctx s = (Inr (latencies, n_ops p * (key_size p + value_size p)), s') \<and>
     length latencies = n_ops p \<and> db_request (Scan None None (n_ops p)) (bn_db s') =
       (Inr (Pairs (map (\<lambda>i. (make_sequential_key i (key_size p), replicate (value_size p) 118)) [0..<n_ops p])), d)"
proof -
  let ?val = "replicate (value_size p) (118 :: byte)" and ?m = "stored_keys (key_size p) (replicate (value_size p) 118) [0..<n_ops p] Map.empty"
  have "leads (run_sequential_put lib p ctx) s (\<lambda>r s'. length (fst r) = n_ops p \<and> snd r = n_ops p * (key_size p + value_size p) \<and>
     db_serves N ps 1 ?m (bn_db s'))"
    unfolding run_sequential_put_def using assms(1-3)
    by (auto intro!: leads_bind leads_progress leads_mono [OF sequential_puts_store [where n = 1 and m = Map.empty and val = ?val]])
  then obtain latencies s' where s': "run_sequential_put lib p ctx s = (Inr (latencies, n_ops p * (key_size p + value_size p)), s')"
    "length latencies = n_ops p" "db_serves N ps 1 ?m (bn_db s')" unfolding leads_def by auto
  from db_store.scan [OF s'(3) [unfolded One_nat_def], of None None "n_ops p"] map_range_stored [OF assms(4), of ?val] s' show ?thesis
    by (auto simp: db_request_def bind_op_Inr)
qed

theorem sequential_workload_is_scanned_in_order_witness:
  "\<exists>s s' r d. run_sequential_put sample_library ((WorkloadParams sample_library)\<lparr>n_ops := 2, key_size := 3, value_size := 1\<rparr>)
     \<lparr>ctx_preset_name = ''sequential-put'', ctx_show_progress = True\<rparr> s = (Inr r, s') \<and>
     db_request (Scan None None 2) (bn_db s') = (Inr (Pairs [([48, 48, 48], [118]), ([48, 48, 49], [118])]), d)"
proof -
  let ?p = "(WorkloadParams sample_library)\<lparr>n_ops := 2, key_size := 3, value_size := 1\<rparr>"
  obtain d where d: "db_holds 3 Map.empty d" "headroom (2 ^ 50) 3 d" "pg_page_size (db_tree d) = 200" by (rule sample_db)
  let ?s = "\<lparr>bn_db = d, bn_env = (), bn_err = []\<rparr>"
  have "db_serves 3 200 (n_ops ?p + 1) Map.empty (bn_db ?s)" using d headroom_less [OF d(2), of 3] by (simp add: db_serves_def)
  moreover have "sizes_fit 200 (key_size ?p) (value_size ?p)" by (simp add: sizes_fit_def get_max_leaf_record_size_def)
  moreover have "make_sequential_key 0 3 = [48, 48, 48]" "make_sequential_key 1 3 = [48, 48, 49]"
    by (simp_all add: make_sequential_key_def rjust_def decimal.simps numeral_3_eq_3)
  ultimately show ?thesis
    using sequential_workload_is_scanned_in_order [of 3 200 ?p ?s sample_library "\<lparr>ctx_preset_name = ''sequential-put'', ctx_show_progress = True\<rparr>"]
    by (auto simp: upt_rec)
qed

end
