(* ===== verification/Fs.thy ===== *)
theory Fs
  imports Prelude
begin

text \<open>
  The file system helpers of \<^verbatim>\<open>src/bptreedb/fs.py\<close>. A file is followed through four places: what the process has
  written, what the kernel has, what the cache of the drive has and what is on the medium. The operating system is a
  parameter (\<open>os\<close>): the platform and the errors its calls give. When \<^verbatim>\<open>fsync_file\<close> returns, the data have left the
  process and the kernel, and are on the medium unless the platform offers no way to force them there; the other
  theories take this as the durable copy of a file. A directory is closed again however its \<^verbatim>\<open>fsync\<close> ends.
\<close>

section \<open>Calls of the operating system\<close>

record os =
  os_platform :: string
  os_flush_error :: "int option"
  os_fcntl_error :: "int option"
  os_fsync_error :: "int option"
  os_open_error :: "int option"
  os_ENOTSUP :: int
  os_EOPNOTSUPP :: int

record open_file =
  fd_written :: bytes
  fd_kernel :: bytes
  fd_drive :: bytes
  fd_media :: bytes

definition fd_flush :: "os \<Rightarrow> (open_file, unit) op" where
  "fd_flush os f = (case os_flush_error os of Some e \<Rightarrow> (Inl (OSError e), f) | None \<Rightarrow> (Inr (), f\<lparr>fd_kernel := fd_written f\<rparr>))"

text \<open>\<^verbatim>\<open>os.fsync\<close>, which on macOS only reaches the cache of the drive, and \<^verbatim>\<open>F_FULLFSYNC\<close>.\<close>

definition os_fsync :: "os \<Rightarrow> (open_file, unit) op" where
  "os_fsync os f = (case os_fsync_error os of
     Some e \<Rightarrow> (Inl (OSError e), f)
   | None \<Rightarrow> (Inr (), if os_platform os = ''darwin'' then f\<lparr>fd_drive := fd_kernel f\<rparr> else f\<lparr>fd_drive := fd_kernel f, fd_media := fd_kernel f\<rparr>))"

definition full_fsync :: "os \<Rightarrow> (open_file, unit) op" where
  "full_fsync os f = (case os_fcntl_error os of
     Some e \<Rightarrow> (Inl (OSError e), f)
   | None \<Rightarrow> (Inr (), f\<lparr>fd_drive := fd_kernel f, fd_media := fd_kernel f\<rparr>))"

section \<open>The helpers\<close>

definition fsync_fd :: "os \<Rightarrow> (open_file, unit) op" where
  "fsync_fd os =
     (if os_platform os = ''darwin'' then
        (\<lambda>f. case full_fsync os f of
           (Inl (OSError e), f') \<Rightarrow> if e \<notin> {os_ENOTSUP os, os_EOPNOTSUPP os} then (Inl (OSError e), f') else os_fsync os f'
         | (r, f') \<Rightarrow> (r, f'))
      else os_fsync os)"

definition fsync_file :: "os \<Rightarrow> (open_file, unit) op" where
  "fsync_file os = bind_op (fd_flush os) (\<lambda>_. fsync_fd os)"

text \<open>The descriptor of a directory is opened for the call.\<close>

record directory =
  dir_file :: open_file
  dir_open_fds :: nat

definition fsync_directory :: "os \<Rightarrow> (directory, unit) op" where
  "fsync_directory os d =
     (case os_open_error os of
        Some e \<Rightarrow> (Inr (), d)
      | None \<Rightarrow> finally_op
          (\<lambda>d. case fsync_fd os (dir_file d) of (r, f) \<Rightarrow> (r, d\<lparr>dir_file := f\<rparr>))
          (modify_op (\<lambda>d. d\<lparr>dir_open_fds := dir_open_fds d - 1\<rparr>))
          (d\<lparr>dir_open_fds := dir_open_fds d + 1\<rparr>))"

section \<open>Properties\<close>

text \<open>
  C38: what \<^verbatim>\<open>fsync_file\<close> promises when it returns. The data of the process are in the cache of the drive, and on the
  medium unless the platform is macOS and the volume does not support \<^verbatim>\<open>F_FULLFSYNC\<close>; nothing the process wrote
  is changed. An error of the full flush other than the two that say it is not supported is not swallowed.
\<close>

theorem fsync_file_makes_data_durable:
  assumes "fsync_file os f = (Inr (), f')"
  shows "fd_written f' = fd_written f \<and> fd_drive f' = fd_written f \<and>
     (fd_media f' = fd_written f \<or>
      os_platform os = ''darwin'' \<and> os_fcntl_error os \<in> {Some (os_ENOTSUP os), Some (os_EOPNOTSUPP os)} \<and> fd_media f' = fd_media f)"
  using assms
  by (auto simp: fsync_file_def fsync_fd_def fd_flush_def os_fsync_def full_fsync_def bind_op_def split: option.splits if_splits)

theorem fsync_file_makes_data_durable_witness:
  "\<exists>f'. fsync_file \<lparr>os_platform = ''linux'', os_flush_error = None, os_fcntl_error = None, os_fsync_error = None, os_open_error = None,
      os_ENOTSUP = 95, os_EOPNOTSUPP = 95\<rparr> \<lparr>fd_written = [1, 2], fd_kernel = [1], fd_drive = [], fd_media = []\<rparr> = (Inr (), f') \<and> fd_media f' = [1, 2]"
proof -
  let ?os = "\<lparr>os_platform = ''linux'', os_flush_error = None, os_fcntl_error = None, os_fsync_error = None, os_open_error = None,
      os_ENOTSUP = 95, os_EOPNOTSUPP = 95\<rparr>"
  let ?f = "\<lparr>fd_written = [1, 2], fd_kernel = [1], fd_drive = [], fd_media = []\<rparr> :: open_file"
  have "fsync_file ?os ?f = (Inr (), \<lparr>fd_written = [1, 2], fd_kernel = [1, 2], fd_drive = [1, 2], fd_media = [1, 2]\<rparr>)"
    by (simp add: fsync_file_def fsync_fd_def fd_flush_def os_fsync_def bind_op_def)
  with fsync_file_makes_data_durable [OF this] show ?thesis by auto
qed

lemma fsync_directory_closes: "dir_open_fds (snd (fsync_directory os d)) = dir_open_fds d"
  by (auto simp: fsync_directory_def finally_op_def split: option.split prod.split)

end
