(* ===== verification/Spec2Isabelle.thy ===== *)
theory Spec2Isabelle
  imports BenchRuns Fs
begin

text \<open>
  A verification development for bptreedb, an embedded key/value store in Python (\<^verbatim>\<open>src/bptreedb\<close>): one data file
  of fixed-size pages that hold a B+ tree and a freelist, and a write-ahead log.

  \<^bold>\<open>The program.\<close> \<^verbatim>\<open>DB\<close> (\<^verbatim>\<open>db.py\<close>) checks its arguments, appends a logical record to the log (\<^verbatim>\<open>wal.py\<close>), which is
  durable before the call goes on, and then changes the tree (\<^verbatim>\<open>tree.py\<close>). The tree works on page objects of the
  buffer pool (\<^verbatim>\<open>cache.py\<close>), which never writes a dirty page before a checkpoint; the pool reads, and at a checkpoint
  writes, encoded pages (\<^verbatim>\<open>codec.py\<close>) through the pager (\<^verbatim>\<open>pager.py\<close>), which also allocates and frees pages. A
  checkpoint writes the dirty pages, appends a checkpoint record, writes the meta page and truncates the log;
  \<^verbatim>\<open>open\<close> repairs the meta page from the newest checkpoint record and replays the log. \<^verbatim>\<open>debug.py\<close> walks a tree and
  checks its invariants, \<^verbatim>\<open>fs.py\<close> wraps the durability calls of the operating system, and \<^verbatim>\<open>scripts/bench.py\<close> runs
  workloads on a database.

  \<^bold>\<open>The model.\<close> Python objects are records that extend each other in the order in which the objects hold each
  other (\<open>pager\<close>, \<open>buffer_pool\<close>, \<open>tree\<close>), beside \<open>wal\<close>; \<open>db\<close> has a tree and a log. Methods are functions \<open>('s, 'a) op\<close>
  from a state to a result or an exception and the state reached, so a raise keeps the changes made before it.
  A file is a byte string with the copy that the last \<^verbatim>\<open>fsync\<close> made durable. Page objects are values; changing one
  in place is \<open>mutate_page\<close> on the cache entry it belongs to.

  \<^item> \<open>Prelude\<close>: results, operations and their calculus, Python slices, \<^verbatim>\<open>bisect\<close>, little-endian integers.
  \<^item> \<open>Entities\<close>, \<open>Buffers\<close>, \<open>Codec\<close> (\<^verbatim>\<open>entities.py\<close>, \<^verbatim>\<open>codec.py\<close>): the data classes, \<^verbatim>\<open>struct\<close> and CRC-32, and the formats of log
    records, meta page, tree and freelist pages. Round trips for everything that fits (locale \<open>wire_format\<close>), detection
    of damaged bytes, torn records, sizes.
  \<^item> \<open>Pager\<close> (\<^verbatim>\<open>pager.py\<close>): opening, page I/O, meta page, freelist. The allocator never hands out a page that is in
    use (locale \<open>page_allocator\<close>); closing and opening keeps the free pages.
  \<^item> \<open>Cache\<close> (\<^verbatim>\<open>cache.py\<close>): \<open>pool_state\<close> relates the pool and the file to the map of current pages; it also counts how
    many pages may still be fetched before a page of the running operation could be evicted. The locale \<open>page_store\<close>
    states the laws the tree relies on, and the pool is its instance.
  \<^item> \<open>Wal\<close> (\<^verbatim>\<open>wal.py\<close>): appending, reading, replay and truncation of the log (locale \<open>journal\<close>), torn and damaged tails;
    damage is a changed byte after the length prefix of a record, since the prefix itself is trusted.
  \<^item> \<open>BTree\<close> (\<^verbatim>\<open>tree.py\<close>): the definitions. \<open>TreeShape\<close>: abstract trees, their pages, in-order sequences and
    contents; the descent. \<open>TreeSizes\<close>, \<open>TreeMoves\<close>: split points, transfers and merges, first on pages, then on trees.
    \<open>TreeFocus\<close>, \<open>TreeBalance\<close>: the rebalancing loop, with one page in focus that may be too large or too small.
    \<open>Frames\<close>: what the operations leave alone. \<open>TreeOps\<close>: insertion, deletion and scans as operations on a map.
  \<^item> \<open>Debug\<close> (\<^verbatim>\<open>debug.py\<close>): the breadth-first walk and the invariant checker.
  \<^item> \<open>Db\<close> (\<^verbatim>\<open>db.py\<close>): the definitions. \<open>Durable\<close>: what a checkpoint puts on disk. \<open>DbState\<close>: the invariant \<open>db_holds\<close> of a
    running database and that \<^verbatim>\<open>put\<close>, \<^verbatim>\<open>get\<close>, \<^verbatim>\<open>delete\<close> and \<^verbatim>\<open>checkpoint\<close> keep it. \<open>Recovery\<close>: \<^verbatim>\<open>open\<close> of a new path, of a file
    with its log, and of a damaged log. \<open>Store\<close>: the contract of a key/value store (locale \<open>key_value_store\<close>), whose
    instance the database is. \<open>Crash\<close>: what a crash leaves, and recovery from it.
  \<^item> \<open>Fs\<close> (\<^verbatim>\<open>fs.py\<close>): where the data of a file are when a durability call returns; \<open>Pager\<close> and \<open>Wal\<close> build on it by
    taking the durable copy of a file at \<^verbatim>\<open>fsync\<close>.
  \<^item> \<open>Bench\<close> (\<^verbatim>\<open>scripts/bench.py\<close>): presets, workloads, measurement and command line of the benchmark, a client of the
    whole database. \<open>BenchRuns\<close>: a calculus for runs that return (\<open>leads\<close>) and that every workload returns.
  \<^item> This theory: the properties of the whole database.

  \<^bold>\<open>What is shown.\<close> The database refines a finite map under any sequence of requests; what it has answered
  survives a crash whose log tail holds no record (a torn or damaged last record, but not a tail of zeros, on which the
  code fails), also in the middle of an append and in a checkpoint once its record is in the log; closing
  and reopening keeps the map, also when a \<^verbatim>\<open>with\<close> block ends in an exception; suspended scans notice writes; rejected calls and refused logs change nothing. Every
  tree reached has all leaves on one level, ordered keys and separators, linked leaves and pages filled to at least
  40 per cent, and the engine's own checker accepts it; a lookup fetches at most one page more than
  the binary logarithm of the number of keys. All workloads of the benchmark run to completion under the
  default configuration, and its snapshot reports the tree that is stored.

  \<^bold>\<open>Conditions.\<close> Pages have at least 129 bytes, a key takes at most a tenth of a page (\<open>short_key\<close>; the code admits
  about a fifth), and fewer than \<open>2 ^ (N + 1)\<close> keys are stored for an \<open>N\<close> with \<open>config_ok\<close>: the share of the pool that a
  checkpoint lets get dirty leaves \<open>7 * N + 5\<close> clean entries. The default configuration (256 pages, ratio one half)
  has \<open>N\<close> up to 17. \<open>headroom\<close> says that page IDs and LSNs do not run out. Examples in \<open>TreeSizes\<close> and \<open>Cache\<close> show that the
  code fails outside the conditions on pages, keys and pool.

  \<^bold>\<open>Fuel.\<close> Loops whose end depends on the pages read (the descent, scans over leaves, the breadth-first walk) take
  the number of pages of the file as fuel and raise \<open>OutOfFuel\<close> without it, the rebalancing loop the length of the
  path plus two, the descents of the checker the number of nodes, a scan of the benchmark the number of bytes of the
  file's pages plus one. The theorems show that the operations
  return their results, so the fuel suffices.

  \<^bold>\<open>Not modelled.\<close> \<^verbatim>\<open>__init__.py\<close> re-exports names. Of \<^verbatim>\<open>scripts/bench.py\<close>, the report (percentiles, number formatting, text
  and JSON output) and the argument parser are left out: they only present results. The operating system, the
  clock, the random generator and floating-point arithmetic are parameters of \<open>Fs\<close> and \<open>Bench\<close>. A file
  is its bytes, without the directory entry, so creating directories and syncing them (\<^verbatim>\<open>fsync_directory\<close>) have no
  effect in \<open>Pager\<close>, \<open>Wal\<close> and \<open>Db\<close> and are left out there. Message texts of
  exceptions are kept only where the code tells exceptions apart by them. A crash between writing the pages of a
  checkpoint and appending its record is outside the theorems: pages are overwritten in place while the meta page
  and the log are still the old ones.
\<close>

section \<open>Properties of the database\<close>

lemma db_request_refines:
  assumes "db_serves N ps (length qs + n) m s" and "puts_allowed (put_allowed N ps) qs m"
  shows "\<exists>s'. run_all db_request qs s = (Inr (fst (spec_run qs m)), s') \<and> db_serves N ps n (snd (spec_run qs m)) s'"
  unfolding db_request_def by (rule db_store.run_refines [OF assms])

text \<open>
  C1: refinement of the whole database to a finite map. Opening at a path with no files and then performing any
  sequence of puts, gets, deletes and scans answers every request as the same sequence on a map does, whatever
  splits, merges, evictions and checkpoints happen on the way, provided that the configuration leaves the pool
  room for an update (\<open>config_ok\<close>), keys and records respect the limits, and fewer than \<open>2 ^ (N + 1)\<close> keys are stored.
\<close>

theorem database_refines_a_map:
  assumes "DB_init None None temp ps cap wl ratio = Inr s0" and "129 \<le> ps" and "ps < 2 ^ 32" and "config_ok N cap wl ratio"
    and "length qs \<le> 2 ^ 50" and "puts_allowed (put_allowed N ps) qs Map.empty"
  shows "\<exists>s s'. db_open s0 = (Inr (), s) \<and> run_all db_request qs s = (Inr (fst (spec_run qs Map.empty)), s') \<and>
     db_serves N ps (2 ^ 50 - length qs) (snd (spec_run qs Map.empty)) s'"
proof -
  obtain s where s: "db_open s0 = (Inr (), s)" "db_holds N Map.empty s" "pg_page_size (db_tree s) = ps" "headroom (2 ^ 50) N s"
    by (rule db_create_ok [OF assms(1,2) _ assms(4)]) (use assms(3) in simp_all)
  have "db_serves N ps (length qs + (2 ^ 50 - length qs)) Map.empty s" using s assms(5) by (simp add: db_serves_def)
  from db_request_refines [OF this assms(6)] s(1) show ?thesis by blast
qed

text \<open>Requests on a new database with pages of 200 bytes: a value is replaced, read, scanned, and removed.\<close>

definition sample_requests :: "request list" where
  "sample_requests = [Put [1] [2], Put [3] [4], Put [1] [5], Get [1], Scan None (Some [3]) 9, Delete [1], Get [1]]"

lemma sample_allowed: "puts_allowed (put_allowed 3 200) sample_requests Map.empty"
  by (simp add: sample_requests_def put_allowed_def acceptable_def short_key_def calculate_leaf_record_size_def get_max_leaf_record_size_def
      card_insert_if)

lemma sample_replies: "fst (spec_run sample_requests Map.empty) =
   [Stored, Stored, Stored, Found (Some [5]), Pairs [([1], [5])], Removed True, Found None]"
proof -
  have "{k. (k = [1] \<or> k = [3] \<or> k = [1]) \<and> in_range None (Some [3]) k} = {[1 :: 8 word]}" by (auto simp: in_range_def)
  then show ?thesis by (simp add: sample_requests_def map_range_def)
qed

theorem database_refines_a_map_witness:
  "\<exists>s0 s s'. DB_init None None None 200 100 1000 (1, 2) = Inr s0 \<and> db_open s0 = (Inr (), s) \<and>
     run_all db_request sample_requests s =
       (Inr [Stored, Stored, Stored, Found (Some [5]), Pairs [([1], [5])], Removed True, Found None], s')"
proof -
  obtain s0 where s0: "DB_init None None None 200 100 1000 (1, 2) = Inr s0" by (simp add: DB_init_def Pager_init_def bind_r_def MIN_PAGE_SIZE_def)
  have "length sample_requests \<le> 2 ^ 50" by (simp add: sample_requests_def)
  from database_refines_a_map [OF s0 _ _ _ this sample_allowed] s0 show ?thesis
    unfolding sample_replies by (auto simp: config_ok_def)
qed

text \<open>
  C5: the engine passes its own invariant checker. After any sequence of requests, the checker of
  \<^verbatim>\<open>debug.py\<close> accepts the tree of the database: page IDs are bounded, keys are ordered within and across pages, all
  leaves are on the last level, every page below the root reaches the fill threshold, the separators partition
  the keys and the sibling pointers link all leaves in order.
\<close>

theorem requests_leave_a_tree_the_checker_accepts:
  assumes "db_serves N ps (length qs + n) m s" and "puts_allowed (put_allowed N ps) qs m"
  shows "\<exists>s' t. run_all db_request qs s = (Inr (fst (spec_run qs m)), s') \<and> assert_tree_invariants (db_tree s') = (Inr (), t)"
proof -
  from db_request_refines [OF assms] obtain s' where
    s': "run_all db_request qs s = (Inr (fst (spec_run qs m)), s')" "db_holds N (snd (spec_run qs m)) s'" by (auto simp: db_serves_def)
  obtain E h rs where "db_ok N E h (snd (spec_run qs m)) rs s'" "settled E s'" "db_is_opened s'"
    "tree_holds E h (snd (spec_run qs m)) (Suc h) (db_tree s')" by (rule db_holds_descend [OF s'(2)])
  with tree_holds_checked [of E h "snd (spec_run qs m)" h "db_tree s'"] s'(1) show ?thesis by blast
qed

theorem requests_leave_a_tree_the_checker_accepts_witness:
  "\<exists>s s' t. db_holds 3 Map.empty s \<and> run_all db_request [Put [1] [2], Delete [1]] s = (Inr [Stored, Removed True], s') \<and>
     assert_tree_invariants (db_tree s') = (Inr (), t)"
proof -
  obtain s where s: "db_holds 3 Map.empty s" "headroom (2 ^ 50) 3 s" "pg_page_size (db_tree s) = 200" by (rule sample_db)
  have "db_serves 3 200 (length [Put [1] [2], Delete [1]] + 0) Map.empty s" using s headroom_less [OF s(2), of "Suc (Suc 0)"] by (simp add: db_serves_def)
  moreover have "puts_allowed (put_allowed 3 200) [Put [1] [2], Delete [1]] Map.empty"
    by (simp add: put_allowed_def acceptable_def short_key_def calculate_leaf_record_size_def get_max_leaf_record_size_def)
  ultimately show ?thesis
    using requests_leave_a_tree_the_checker_accepts [of 3 200 "[Put [1] [2], Delete [1]]" 0 Map.empty s] s(1) by auto
qed

text \<open>
  C6: recovery work stays bounded. After any sequence of requests the log is not longer than the configured limit
  (or than the one record of 41 bytes that a checkpoint leaves), and no more than the configured share of the pool
  is dirty, so opening again replays no more than that.
\<close>

theorem recovery_work_stays_bounded:
  assumes "db_serves N ps (length qs + n) m s" and "puts_allowed (put_allowed N ps) qs m" and "db_checkpoint_dirty_page_ratio s = (num, den)"
  shows "\<exists>s'. run_all db_request qs s = (Inr (fst (spec_run qs m)), s') \<and>
     size_bytes (db_wal s') \<le> max (db_checkpoint_wal_size_bytes s) 41 \<and>
     dirty_count (db_tree s') * den \<le> num * bp_capacity_pages (db_tree s')"
proof -
  from db_request_refines [OF assms(1,2)] obtain s' where
    s': "run_all db_request qs s = (Inr (fst (spec_run qs m)), s')" "db_holds N (snd (spec_run qs m)) s'" by (auto simp: db_serves_def)
  obtain E h rs where ok: "db_ok N E h (snd (spec_run qs m)) rs s'" "settled E s'" "db_is_opened s'"
    "tree_holds E h (snd (spec_run qs m)) (Suc h) (db_tree s')" by (rule db_holds_descend [OF s'(2)])
  have "config_is (db_checkpoint_wal_size_bytes s, num, den) s'"
    by (rule keepsD [OF config_kept_run s'(1)]) (simp add: config_is_def assms(3))
  with ok(2) s'(1) tree_holds_meta(1) [OF ok(4)] show ?thesis by (simp add: settled_def config_is_def)
qed

theorem recovery_work_stays_bounded_witness:
  "\<exists>s s' num den. db_holds 3 Map.empty s \<and> run_all db_request [Put [1] [2]] s = (Inr [Stored], s') \<and>
     size_bytes (db_wal s') \<le> max (db_checkpoint_wal_size_bytes s) 41 \<and> dirty_count (db_tree s') * den \<le> num * bp_capacity_pages (db_tree s')"
proof -
  obtain s where s: "db_holds 3 Map.empty s" "headroom (2 ^ 50) 3 s" "pg_page_size (db_tree s) = 200" by (rule sample_db)
  obtain num den where r: "db_checkpoint_dirty_page_ratio s = (num, den)" by fastforce
  have "db_serves 3 200 (length [Put [1] [2]] + 0) Map.empty s" using s headroom_less [OF s(2), of "Suc 0"] by (simp add: db_serves_def)
  moreover have "puts_allowed (put_allowed 3 200) [Put [1] [2]] Map.empty"
    by (simp add: put_allowed_def acceptable_def short_key_def calculate_leaf_record_size_def get_max_leaf_record_size_def)
  ultimately obtain s' where "run_all db_request [Put [1] [2]] s = (Inr [Stored], s')"
    "size_bytes (db_wal s') \<le> max (db_checkpoint_wal_size_bytes s) 41" "dirty_count (db_tree s') * den \<le> num * bp_capacity_pages (db_tree s')"
    using recovery_work_stays_bounded [of 3 200 "[Put [1] [2]]" 0 Map.empty s num den] r by auto
  with s(1) show ?thesis by blast
qed

text \<open>
  C34: lookups fetch few pages. After any sequence of requests, a \<^verbatim>\<open>get\<close> answers from the map and raises the count of
  cache hits and misses by \<open>h + 1\<close> for an \<open>h\<close> with \<open>2 ^ h\<close> at most the number of stored keys (or 1), so by at most one
  more than its binary logarithm: splits and merges keep the tree that low.
\<close>

theorem lookups_fetch_few_pages:
  assumes "db_serves N ps (length qs + n) m s" and "puts_allowed (put_allowed N ps) qs m"
  shows "\<exists>s1 s2 h. run_all db_request qs s = (Inr (fst (spec_run qs m)), s1) \<and>
     db_get (PyBytes key) s1 = (Inr (snd (spec_run qs m) key), s2) \<and>
     page_fetches (db_tree s2) = page_fetches (db_tree s1) + Suc h \<and> 2 ^ h \<le> max 1 (card (dom (snd (spec_run qs m))))"
proof -
  let ?m = "snd (spec_run qs m)"
  from db_request_refines [OF assms] obtain s1 where
    s1: "run_all db_request qs s = (Inr (fst (spec_run qs m)), s1)" "db_holds N ?m s1" by (auto simp: db_serves_def)
  obtain E h rs where ok: "db_ok N E h ?m rs s1" "settled E s1" "db_is_opened s1" "tree_holds E h ?m (Suc h) (db_tree s1)"
    by (rule db_holds_descend [OF s1(2)])
  obtain res t1 where leaf: "find_leaf key (db_tree s1) = (Inr res, t1)" "length (search_path res) = h"
    by (rule find_leaf_path [OF ok(4) order_refl])
  from db_search_ok [OF s1(2), of key] obtain t where t: "tree_search key (db_tree s1) = (Inr (?m key), t)" by blast
  have "db_get (PyBytes key) s1 = (Inr (?m key), s1\<lparr>db_tree := t\<rparr>)" using t ok(3) by (simp add: db_get_def on_tree_def)
  moreover have "page_fetches t = page_fetches (db_tree s1) + Suc h" using tree_search_counts [OF leaf(1) t] leaf(2) by simp
  moreover have "2 ^ h \<le> max 1 (card (dom ?m))" using tree_holds_height [OF ok(4)] by auto
  ultimately show ?thesis using s1(1) by (intro exI [of _ s1] exI [of _ "s1\<lparr>db_tree := t\<rparr>"] exI [of _ h]) simp
qed

theorem lookups_fetch_few_pages_witness:
  "\<exists>s s1 s2. db_holds 3 Map.empty s \<and> run_all db_request [Put [1] [2]] s = (Inr [Stored], s1) \<and>
     db_get (PyBytes [1]) s1 = (Inr (Some [2]), s2) \<and> page_fetches (db_tree s2) = page_fetches (db_tree s1) + 1"
proof -
  obtain s where s: "db_holds 3 Map.empty s" "headroom (2 ^ 50) 3 s" "pg_page_size (db_tree s) = 200" by (rule sample_db)
  have "db_serves 3 200 (length [Put [1] [2]] + 0) Map.empty s" using s headroom_less [OF s(2), of "Suc 0"] by (simp add: db_serves_def)
  moreover have "puts_allowed (put_allowed 3 200) [Put [1] [2]] Map.empty"
    by (simp add: put_allowed_def acceptable_def short_key_def calculate_leaf_record_size_def get_max_leaf_record_size_def)
  ultimately obtain s1 s2 h where w: "run_all db_request [Put [1] [2]] s = (Inr [Stored], s1)" "db_get (PyBytes [1]) s1 = (Inr (Some [2]), s2)"
    "page_fetches (db_tree s2) = page_fetches (db_tree s1) + Suc h" "2 ^ h \<le> (1 :: nat)"
    using lookups_fetch_few_pages [of 3 200 "[Put [1] [2]]" 0 Map.empty s "[1]"] by auto
  from w(4) have "h = 0" using less_exp [of h] by linarith
  with w s(1) show ?thesis by (intro exI [of _ s] exI [of _ s1] exI [of _ s2]) simp
qed

text \<open>
  C2: durability. After any sequence of requests has been answered, a crash leaves of each file what is durable, of the
  data file also any bytes appended since (\<open>x\<close>), any rotation file (\<open>temp\<close>), and at the end of the log a tail
  \<open>z\<close> in which the reader finds no record and reaches the end of the file (\<open>ignored_tail\<close>): nothing, any proper part of a
  record (\<open>ignored_torn\<close>), or a last record with a byte changed after its length prefix (\<open>damaged_tail_ignored\<close>). Then
  a new process opens the database, whatever page size it is configured with, and reads back the map that the answered
  requests built. Two kinds of tail are outside this statement: a tail of zeros, on which decoding raises
  \<^verbatim>\<open>struct.error\<close> (a property of \<open>Codec\<close>), and the whole record of a call that was not answered, which recovery applies
  (the next property).
\<close>

theorem acknowledged_writes_survive_a_crash:
  assumes "db_serves N ps (length qs + 1) m s" and "puts_allowed (put_allowed N ps) qs m" and "MIN_PAGE_SIZE \<le> ps0" and "ignored_tail z"
  shows "\<exists>s1 s0 s2. run_all db_request qs s = (Inr (fst (spec_run qs m)), s1) \<and> restart ps0 x z temp s1 = Inr s0 \<and>
     db_open s0 = (Inr (), s2) \<and> db_holds N (snd (spec_run qs m)) s2 \<and>
     (\<forall>key. \<exists>s3. db_get (PyBytes key) s2 = (Inr (snd (spec_run qs m) key), s3))"
proof -
  from db_request_refines [OF assms(1,2)] obtain s1 where
    s1: "run_all db_request qs s = (Inr (fst (spec_run qs m)), s1)" "db_serves N ps 1 (snd (spec_run qs m)) s1" by auto
  from crash_ok [of N "snd (spec_run qs m)" s1 1 z ps0 x temp] s1(2) assms(3,4) obtain s0 s2 where
    s2: "restart ps0 x z temp s1 = Inr s0" "db_open s0 = (Inr (), s2)" "db_holds N (snd (spec_run qs m)) s2" by (auto simp: db_serves_def)
  with s1(1) db_get_ok [OF s2(3)] show ?thesis by blast
qed

theorem acknowledged_writes_survive_a_crash_witness:
  "\<exists>s s1 s0 s2 s3. db_holds 3 Map.empty s \<and> run_all db_request [Put [1] [2]] s = (Inr [Stored], s1) \<and>
     restart 4096 [0, 0] [7] (Some [9]) s1 = Inr s0 \<and> db_open s0 = (Inr (), s2) \<and> db_get (PyBytes [1]) s2 = (Inr (Some [2]), s3)"
proof -
  obtain s where s: "db_holds 3 Map.empty s" "headroom (2 ^ 50) 3 s" "pg_page_size (db_tree s) = 200" by (rule sample_db)
  have "db_serves 3 200 (length [Put [1] [2]] + 1) Map.empty s" using s headroom_less [OF s(2), of "Suc (Suc 0)"] by (simp add: db_serves_def)
  moreover have "puts_allowed (put_allowed 3 200) [Put [1] [2]] Map.empty"
    by (simp add: put_allowed_def acceptable_def short_key_def calculate_leaf_record_size_def get_max_leaf_record_size_def)
  moreover have "ignored_tail [7]" by (rule ignored_eof) (simp add: decode_next_wal_record_from_file_def)
  ultimately obtain s1 s0 s2 where "run_all db_request [Put [1] [2]] s = (Inr [Stored], s1)" "restart 4096 [0, 0] [7] (Some [9]) s1 = Inr s0"
    "db_open s0 = (Inr (), s2)" "\<forall>key. \<exists>s3. db_get (PyBytes key) s2 = (Inr ([[1] \<mapsto> [2]] key), s3)"
    using acknowledged_writes_survive_a_crash [of 3 200 "[Put [1] [2]]" Map.empty s 4096 "[7]" "[0, 0]" "Some [9]"]
    by (auto simp: MIN_PAGE_SIZE_def)
  moreover from this(4) obtain s3 where "db_get (PyBytes [1]) s2 = (Inr (Some [2]), s3)" by (metis fun_upd_same)
  ultimately show ?thesis using s(1) by blast
qed

text \<open>
  C3: atomicity. A crash in the middle of a \<^verbatim>\<open>put\<close>, when any part of its record has reached the log, gives after
  recovery the old map, or the new one exactly if the whole record is there.
\<close>

theorem put_is_atomic_under_a_crash:
  assumes "db_holds N m s" and "headroom 1 N s" and "acceptable (pg_page_size (db_tree s)) key val"
    and "card (dom (m(key \<mapsto> val))) < 2 ^ Suc N" and "MIN_PAGE_SIZE \<le> ps0"
    and "encode_wal_record (WALPutRecord (wl_current_lsn (db_wal s) + 1) key val) = Inr (part @ lost)"
  shows "\<exists>s0 s'. restart ps0 x part temp s = Inr s0 \<and> db_open s0 = (Inr (), s') \<and>
     db_holds N (if lost = [] then m(key \<mapsto> val) else m) s'"
proof -
  let ?r = "WALPutRecord (wl_current_lsn (db_wal s) + 1) key val"
  from assms(1) obtain E h where th: "tree_holds E h m 0 (db_tree s)" by (auto simp: db_holds_def db_ok_def db_live_def)
  have "pg_page_size (db_tree s) < 256 ^ 4" using tree_holds_meta(3,5) [OF th] by simp
  then have ok: "wal_ok ?r" using assms(2) by (intro put_record_ok [OF assms(3)]) (simp_all add: headroom_def)
  have "wal_bytes ?r = part @ lost" using assms(6) encode_wal_record_ok [OF ok] by simp
  from crash_in_append_ok [OF assms(1,2,5) _ _ ok _ _ this, of x temp] assms(3,4) show ?thesis
    by (simp add: acceptable_def split: if_split_asm)
qed


theorem put_is_atomic_under_a_crash_witness:
  "\<exists>s bs s0 s1 s2 s3. db_holds 3 Map.empty s \<and> bs \<noteq> [] \<and>
     encode_wal_record (WALPutRecord (wl_current_lsn (db_wal s) + 1) [1] [2]) = Inr bs \<and>
     restart 64 [] (butlast bs) None s = Inr s0 \<and> db_open s0 = (Inr (), s1) \<and> db_holds 3 Map.empty s1 \<and>
     restart 64 [] bs None s = Inr s2 \<and> db_open s2 = (Inr (), s3) \<and> db_holds 3 [[1] \<mapsto> [2]] s3"
proof -
  obtain s where s: "db_holds 3 Map.empty s" "headroom (2 ^ 50) 3 s" "pg_page_size (db_tree s) = 200" by (rule sample_db)
  let ?r = "WALPutRecord (wl_current_lsn (db_wal s) + 1) [1] [2]"
  have h: "headroom 1 3 s" by (rule headroom_less [OF s(2)]) simp
  have acc: "acceptable (pg_page_size (db_tree s)) [1] [2]"
    using s(3) by (simp add: acceptable_def short_key_def calculate_leaf_record_size_def get_max_leaf_record_size_def)
  have "wal_ok ?r" using h by (intro small_put_ok) (simp_all add: headroom_def)
  moreover have "length (wal_bytes ?r) \<noteq> 0" unfolding length_wal_bytes by simp
  ultimately have bs: "encode_wal_record ?r = Inr (wal_bytes ?r)" "wal_bytes ?r \<noteq> []" by (auto simp: encode_wal_record_ok)
  note crash = put_is_atomic_under_a_crash [OF s(1) h acc, of 64]
  have "wal_bytes ?r = butlast (wal_bytes ?r) @ [last (wal_bytes ?r)]" using bs(2) by simp
  with crash [of "butlast (wal_bytes ?r)" "[last (wal_bytes ?r)]" "[]" None] bs obtain s0 s1 where
    "restart 64 [] (butlast (wal_bytes ?r)) None s = Inr s0" "db_open s0 = (Inr (), s1)" "db_holds 3 Map.empty s1"
    by (auto simp: MIN_PAGE_SIZE_def)
  moreover from crash [of "wal_bytes ?r" "[]" "[]" None] bs obtain s2 s3 where
    "restart 64 [] (wal_bytes ?r) None s = Inr s2" "db_open s2 = (Inr (), s3)" "db_holds 3 [[1] \<mapsto> [2]] s3"
    by (auto simp: MIN_PAGE_SIZE_def)
  ultimately show ?thesis using s(1) bs by blast
qed

text \<open>
  C4: a checkpoint may be interrupted once its record is in the log. Whether the crash comes before the
  meta page is written, so that recovery has to repair the meta page from the record, or after it but before the
  log is truncated, recovery gives the same map; the stages compose to the whole checkpoint.
\<close>

theorem checkpoint_survives_a_crash_after_its_record:
  assumes "db_holds N m s" and "headroom 1 N s" and "MIN_PAGE_SIZE \<le> ps0"
  shows "\<exists>l s1 s2. checkpoint_pages_and_record s = (Inr l, s1) \<and> checkpoint_meta_page l s1 = (Inr (), s2) \<and>
     db_checkpoint s = on_wal (truncate_before l) s2 \<and>
     (\<exists>s0 s3. restart ps0 x [] temp s1 = Inr s0 \<and> db_open s0 = (Inr (), s3) \<and> db_holds N m s3) \<and>
     (\<exists>s0 s3. restart ps0 x [] temp s2 = Inr s0 \<and> db_open s0 = (Inr (), s3) \<and> db_holds N m s3)"
proof -
  from crash_in_checkpoint_ok [OF assms, of x temp] obtain l s1 s2 where
    c: "checkpoint_pages_and_record s = (Inr l, s1)" "checkpoint_meta_page l s1 = (Inr (), s2)"
      "\<forall>s' \<in> {s1, s2}. \<exists>s0 s3. restart ps0 x [] temp s' = Inr s0 \<and> db_open s0 = (Inr (), s3) \<and> db_holds N m s3" by blast
  have "db_checkpoint s = on_wal (truncate_before l) s2" using c(1,2) by (simp add: db_checkpoint_stages bind_op_Inr)
  with c show ?thesis by (intro exI [of _ l] exI [of _ s1] exI [of _ s2]) simp
qed

theorem checkpoint_survives_a_crash_after_its_record_witness:
  "\<exists>s l s1 s0 s3. db_holds 3 Map.empty s \<and> checkpoint_pages_and_record s = (Inr l, s1) \<and>
     restart 64 [] [] None s1 = Inr s0 \<and> db_open s0 = (Inr (), s3) \<and> db_holds 3 Map.empty s3"
proof -
  obtain s where s: "db_holds 3 Map.empty s" "headroom (2 ^ 50) 3 s" by (rule sample_db)
  have "headroom 1 3 s" by (rule headroom_less [OF s(2)]) simp
  from checkpoint_survives_a_crash_after_its_record [OF s(1) this, of 64 "[]" None] s(1) show ?thesis
    by (auto simp: MIN_PAGE_SIZE_def)
qed

text \<open>
  C9: closing and opening again. \<^verbatim>\<open>close\<close> succeeds, and a new object on the files it leaves opens with the same
  map.
\<close>

theorem close_and_reopen_keeps_the_map:
  assumes "db_holds N m s" and "headroom 1 N s" and "MIN_PAGE_SIZE \<le> ps0"
  shows "\<exists>s1 s0 s2. db_close s = (Inr (), s1) \<and> \<not> db_is_opened s1 \<and> restart ps0 [] [] temp s1 = Inr s0 \<and>
     db_open s0 = (Inr (), s2) \<and> db_holds N m s2"
  by (rule db_close_ok [OF assms])

theorem close_and_reopen_keeps_the_map_witness:
  "\<exists>s s1 s0 s2. db_holds 3 Map.empty s \<and> db_close s = (Inr (), s1) \<and> restart 64 [] [] None s1 = Inr s0 \<and>
     db_open s0 = (Inr (), s2) \<and> db_holds 3 Map.empty s2"
proof -
  obtain s where s: "db_holds 3 Map.empty s" "headroom (2 ^ 50) 3 s" by (rule sample_db)
  have "headroom 1 3 s" by (rule headroom_less [OF s(2)]) simp
  from close_and_reopen_keeps_the_map [OF s(1) this, of 64 None] s(1) show ?thesis by (auto simp: MIN_PAGE_SIZE_def)
qed

text \<open>
  C10: leaving a \<^verbatim>\<open>with\<close> block. However the block ends, by returning or with an exception, the database is closed, the
  outcome of the block is the outcome of the statement, and everything answered inside the block is there when the
  files are opened again.
\<close>

theorem with_block_closes_and_keeps_the_map:
  assumes "db_open s0 = (Inr (), s)" and "db_serves N ps (length qs + 1) m s" and "puts_allowed (put_allowed N ps) qs m" and "MIN_PAGE_SIZE \<le> ps0"
  shows "\<exists>s1 s2 s3. with_op db_enter db_exit (bind_op (run_all db_request qs) (\<lambda>_. lift_r outcome)) s0 = (outcome, s1) \<and> \<not> db_is_opened s1 \<and>
     restart ps0 [] [] temp s1 = Inr s2 \<and> db_open s2 = (Inr (), s3) \<and> db_holds N (snd (spec_run qs m)) s3"
proof -
  from db_request_refines [OF assms(2,3)] obtain t where
    t: "run_all db_request qs s = (Inr (fst (spec_run qs m)), t)" "db_serves N ps 1 (snd (spec_run qs m)) t" by auto
  from db_close_ok [of N "snd (spec_run qs m)" t ps0 temp] t(2) assms(4) obtain s1 s2 s3 where
    "db_close t = (Inr (), s1)" "\<not> db_is_opened s1" "restart ps0 [] [] temp s1 = Inr s2" "db_open s2 = (Inr (), s3)"
    "db_holds N (snd (spec_run qs m)) s3" by (auto simp: db_serves_def)
  with assms(1) t(1) show ?thesis by (auto simp: with_op_def db_enter_def db_exit_def bind_op_Inr)
qed

theorem with_block_closes_and_keeps_the_map_witness:
  "\<exists>s0 s1 s2 s3. with_op db_enter db_exit (bind_op (run_all db_request [Put [1] [2]]) (\<lambda>_. lift_r (Inl TypeError))) s0 = (Inl TypeError, s1) \<and>
     restart 64 [] [] None s1 = Inr s2 \<and> db_open s2 = (Inr (), s3) \<and> db_holds 3 [[1] \<mapsto> [2]] s3"
proof -
  obtain s0 where s0: "DB_init None None None 200 100 1000 (1, 2) = Inr s0" by (simp add: DB_init_def Pager_init_def bind_r_def MIN_PAGE_SIZE_def)
  obtain s where s: "db_open s0 = (Inr (), s)" "db_holds 3 Map.empty s" "pg_page_size (db_tree s) = 200" "headroom (2 ^ 50) 3 s"
    by (rule db_create_ok [OF s0, of 3]) (simp_all add: config_ok_def)
  have "db_serves 3 200 (length [Put [1] [2]] + 1) Map.empty s" using s headroom_less [OF s(4), of "Suc (Suc 0)"] by (simp add: db_serves_def)
  moreover have "puts_allowed (put_allowed 3 200) [Put [1] [2]] Map.empty"
    by (simp add: put_allowed_def acceptable_def short_key_def calculate_leaf_record_size_def get_max_leaf_record_size_def)
  ultimately show ?thesis
    using with_block_closes_and_keeps_the_map [OF s(1), of 3 200 "[Put [1] [2]]" Map.empty 64 "Inl TypeError" None]
    by (auto simp: MIN_PAGE_SIZE_def)
qed

lemma stale_scan:
  "db_version_counter s \<noteq> v \<Longrightarrow> db_scan_next (ScanIter a b v (ScanAt page i)) s = (Inl DBConcurrentPageModificationError, s)"
  by (simp add: db_scan_next_def scan_next_def check_version_def)

text \<open>
  C23: a scan that was suspended when the database is written to raises the next time it is asked for a pair, after
  a \<^verbatim>\<open>put\<close> and after a \<^verbatim>\<open>delete\<close> that found its key.
\<close>

theorem writes_invalidate_suspended_scans:
  assumes "db_holds N m s" and "headroom 1 N s" and "acceptable (pg_page_size (db_tree s)) key val" and "card (dom (m(key \<mapsto> val))) < 2 ^ Suc N"
  shows "\<exists>s1 s2. db_put (PyBytes key) (PyBytes val) s = (Inr (), s1) \<and>
     db_scan_next (ScanIter a b (db_version_counter s) (ScanAt page i)) s1 = (Inl DBConcurrentPageModificationError, s1) \<and>
     db_delete (PyBytes old) s = (Inr (m old \<noteq> None), s2) \<and>
     (m old \<noteq> None \<longrightarrow>
       db_scan_next (ScanIter a b (db_version_counter s) (ScanAt page i)) s2 = (Inl DBConcurrentPageModificationError, s2))"
  using db_put_ok [OF assms(1,2,4,3)] db_delete_ok [OF assms(1,2), of old] stale_scan by fastforce

theorem writes_invalidate_suspended_scans_witness:
  "\<exists>s s1. db_put (PyBytes [1]) (PyBytes [2]) s = (Inr (), s1) \<and>
     db_scan_next (ScanIter None None (db_version_counter s) (ScanAt (LeafPage 0 0 []) 0)) s1 = (Inl DBConcurrentPageModificationError, s1)"
proof -
  obtain s where s: "db_holds 3 Map.empty s" "headroom (2 ^ 50) 3 s" "pg_page_size (db_tree s) = 200" by (rule sample_db)
  have h: "headroom 1 3 s" by (rule headroom_less [OF s(2)]) simp
  have "acceptable (pg_page_size (db_tree s)) [1] [2]"
    using s(3) by (simp add: acceptable_def short_key_def calculate_leaf_record_size_def get_max_leaf_record_size_def)
  from writes_invalidate_suspended_scans [OF s(1) h this, of None None "LeafPage 0 0 []" 0 "[]"] show ?thesis by auto
qed



text \<open>
  C25: a log that has, before an intact record, a record in which one byte after the length prefix was changed, is
  refused: \<^verbatim>\<open>open\<close> raises \<^verbatim>\<open>DBCorruptedError\<close>, closes both files and leaves their contents as they were. Damage to a length
  prefix is not covered: the code trusts it, and \<open>damaged_length_hides_records\<close> of \<open>Wal\<close> shows what it can do.
\<close>

theorem corrupt_log_is_refused:
  assumes "DB_init (Some b) (Some (log_bytes rs @ (wal_bytes bad)[i := x] @ wal_bytes good @ rest)) temp ps0 cap wl ratio = Inr s0"
    and "disk_page (page_size_bytes m1) b META_PAGE_ID = Some (meta_bytes m1)" and "meta_ok m1"
    and "chained 0 rs" and "wal_ok bad" and "wal_ok good" and "4 \<le> i" and "i < length (wal_bytes bad)" and "x \<noteq> wal_bytes bad ! i"
  shows "\<exists>s. db_open s0 = (Inl (DBCorruptedError ''WAL contains a broken record followed by a valid record''), s) \<and>
     \<not> db_is_opened s \<and> \<not> pg_open (db_tree s) \<and> \<not> wl_open (db_wal s) \<and> pg_disk (db_tree s) = Some b \<and>
     wl_file (db_wal s) = Some (log_bytes rs @ (wal_bytes bad)[i := x] @ wal_bytes good @ rest)"
  by (rule db_open_refuses [OF assms(1-3) peek_records_damaged [OF assms(4-9)]])


theorem corrupt_log_is_refused_witness:
  "\<exists>s0 s e. DB_init (Some (meta_bytes \<lparr>page_size_bytes = 64, root_page_id = 1, next_page_id = 2, freelist_head_page_id = 0, last_checkpoint_lsn = 0\<rparr>))
      (Some ((wal_bytes (WALPutRecord 1 [] []))[4 := wal_bytes (WALPutRecord 1 [] []) ! 4 + 1] @ wal_bytes (WALPutRecord 2 [] [])))
      None 64 10 1000 (1, 2) = Inr s0 \<and> db_open s0 = (Inl (DBCorruptedError e), s)"
proof -
  let ?m = "\<lparr>page_size_bytes = 64, root_page_id = 1, next_page_id = 2, freelist_head_page_id = 0, last_checkpoint_lsn = 0\<rparr>"
  let ?bad = "WALPutRecord 1 [] []" and ?good = "WALPutRecord 2 [] []"
  have m: "meta_ok ?m" by (simp add: meta_ok_def)
  have d: "disk_page (page_size_bytes ?m) (meta_bytes ?m) META_PAGE_ID = Some (meta_bytes ?m)"
    using length_meta_bytes [OF m] by (simp add: META_PAGE_ID_def first_page)
  obtain s0 where s0: "DB_init (Some (meta_bytes ?m)) (Some (log_bytes [] @ (wal_bytes ?bad)[4 := wal_bytes ?bad ! 4 + 1] @ wal_bytes ?good @ []))
      None 64 10 1000 (1, 2) = Inr s0" by (simp add: DB_init_def Pager_init_def bind_r_def MIN_PAGE_SIZE_def)
  have "wal_ok ?bad" "wal_ok ?good" "4 < length (wal_bytes ?bad)" by (simp_all add: small_put_ok length_wal_bytes)
  from corrupt_log_is_refused [OF s0 d m _ this(1,2) _ this(3)] s0 show ?thesis by auto
qed

text \<open>
  C12: between checkpoints the data file is append-only. Whatever the state of the tree and whether or not the
  operation raises, an insertion or a deletion overwrites no byte of the data file: evictions never write, and new
  pages are appended.
\<close>

theorem updates_never_overwrite_the_file:
  fixes s :: "'z tree_scheme"
  shows "(\<exists>x. file_bytes (snd (tree_insert key val op_lsn s)) = file_bytes s @ x) \<and>
     (\<exists>x. file_bytes (snd (tree_delete key op_lsn s)) = file_bytes s @ x)"
  using appends_update unfolding appends_def by blast

end
